(* ===== verification/Prelude.thy ===== *)
theory Prelude
  imports Main "HOL-Library.Word"
begin

text \<open>
  Shared vocabulary of the xv6 development: the machine's integer types, the constants of
  \<^verbatim>\<open>param.h\<close>, \<^verbatim>\<open>memlayout.h\<close>, \<^verbatim>\<open>mmu.h\<close> and \<^verbatim>\<open>fs.h\<close>, sleep channels, the
  outcome of a kernel routine (it returns, panics, or goes to sleep), first-match table
  scans, and little-endian storage of words in byte lists and in memory.
\<close>

unbundle bit_operations_syntax

section \<open>Automation collections\<close>

named_theorems outcome_simps \<open>how outcomes are composed and inverted\<close>
named_theorems byte_simps \<open>little-endian loads and stores\<close>

section \<open>Machine integers\<close>

type_synonym u8 = "8 word"
type_synonym u16 = "16 word"
type_synonym u32 = "32 word"

text \<open>C truth: an \<open>int\<close> used as a condition.\<close>

abbreviation (input) nz :: "u32 \<Rightarrow> bool" where
  "nz w \<equiv> w \<noteq> 0"

section \<open>Constants of the headers\<close>

abbreviation (input) NPROC :: nat where "NPROC \<equiv> 64"
abbreviation (input) KSTACKSIZE :: u32 where "KSTACKSIZE \<equiv> 4096"
abbreviation (input) NCPU :: nat where "NCPU \<equiv> 8"
abbreviation (input) NOFILE :: nat where "NOFILE \<equiv> 16"
abbreviation (input) NFILE :: nat where "NFILE \<equiv> 100"
abbreviation (input) NINODE :: nat where "NINODE \<equiv> 50"
abbreviation (input) NDEV :: nat where "NDEV \<equiv> 10"
abbreviation (input) ROOTDEV :: u32 where "ROOTDEV \<equiv> 1"
abbreviation (input) MAXARG :: nat where "MAXARG \<equiv> 32"
abbreviation (input) MAXOPBLOCKS :: nat where "MAXOPBLOCKS \<equiv> 10"
abbreviation (input) LOGSIZE :: nat where "LOGSIZE \<equiv> 30"
abbreviation (input) NBUF :: nat where "NBUF \<equiv> 30"
abbreviation (input) FSSIZE :: nat where "FSSIZE \<equiv> 2000"

abbreviation (input) EXTMEM :: u32 where "EXTMEM \<equiv> 0x100000"
abbreviation (input) PHYSTOP :: u32 where "PHYSTOP \<equiv> 0xE000000"
abbreviation (input) DEVSPACE :: u32 where "DEVSPACE \<equiv> 0xFE000000"
abbreviation (input) KERNBASE :: u32 where "KERNBASE \<equiv> 0x80000000"

definition V2P :: "u32 \<Rightarrow> u32" where
  "V2P a = a - KERNBASE"

definition P2V :: "u32 \<Rightarrow> u32" where
  "P2V a = a + KERNBASE"

lemma V2P_P2V [simp]: "V2P (P2V a) = a"
  by (simp add: V2P_def P2V_def)

lemma P2V_V2P [simp]: "P2V (V2P a) = a"
  by (simp add: V2P_def P2V_def)

abbreviation (input) BSIZE :: nat where "BSIZE \<equiv> 512"

section \<open>Outcomes of kernel routines\<close>

text \<open>
  A sleep channel is the address of a kernel object; distinct objects have distinct
  addresses, so the channels are constructors of a datatype.
\<close>

datatype lockid = BufLock nat | InodeLock nat

datatype chan = NoChan | ChTicks | ChProc nat | ChLog | ChBuf nat
  | ChPipeRead u32 | ChPipeWrite u32 | ChInput | ChSleepLock lockid

text \<open>
  A routine returns a value (\<open>Ret\<close>), calls \<open>panic\<close> with a message, blocks (it
  would call \<open>sleep\<close> on a channel and give up the processor at that point), or runs out
  of the loop bound its definition gives it (\<open>Diverged\<close>).
\<close>

datatype 'a outcome = Ret 'a | Panic string | Blocked chan | Diverged

definition obind :: "'a outcome \<Rightarrow> ('a \<Rightarrow> 'b outcome) \<Rightarrow> 'b outcome" where
  "obind m f = (case m of Ret x \<Rightarrow> f x | Panic msg \<Rightarrow> Panic msg | Blocked c \<Rightarrow> Blocked c
     | Diverged \<Rightarrow> Diverged)"

lemma obind_Ret [simp, outcome_simps]: "obind (Ret x) f = f x"
  by (simp add: obind_def)

lemma obind_Panic [simp, outcome_simps]: "obind (Panic e) f = Panic e"
  by (simp add: obind_def)

lemma obind_Blocked [simp, outcome_simps]: "obind (Blocked c) f = Blocked c"
  by (simp add: obind_def)

lemma obind_Diverged [simp, outcome_simps]: "obind Diverged f = Diverged"
  by (simp add: obind_def)

lemma obind_cong [fundef_cong]:
  "m = m' \<Longrightarrow> (\<And>x. m' = Ret x \<Longrightarrow> f x = g x) \<Longrightarrow> obind m f = obind m' g"
  by (cases m') auto

lemma obind_eq_Ret [outcome_simps]:
  "obind m f = Ret y \<longleftrightarrow> (\<exists>x. m = Ret x \<and> f x = Ret y)"
  by (cases m) (auto simp: obind_def)

lemma obind_assoc: "obind (obind m f) g = obind m (\<lambda>x. obind (f x) g)"
  by (cases m) auto

section \<open>First-match scans of a table\<close>

text \<open>
  The kernel's tables are searched by loops of the form
  \<^verbatim>\<open>for(p = tab; p < &tab[N]; p++) if(P(p)) ...\<close>; \<open>scan\<close> is the index at which
  such a loop stops.
\<close>

fun scan :: "('a \<Rightarrow> bool) \<Rightarrow> 'a list \<Rightarrow> nat option" where
  "scan P [] = None"
| "scan P (x # xs) = (if P x then Some 0 else map_option Suc (scan P xs))"

lemma scan_None_iff [simp]: "scan P xs = None \<longleftrightarrow> (\<forall>x \<in> set xs. \<not> P x)"
  by (induction xs) auto

lemma scan_SomeD:
  "scan P xs = Some i \<Longrightarrow> i < length xs \<and> P (xs ! i) \<and> (\<forall>j < i. \<not> P (xs ! j))"
proof (induction xs arbitrary: i)
  case (Cons x xs)
  then show ?case by (auto split: if_splits simp: less_Suc_eq_0_disj nth_Cons')
qed simp

lemma scan_Some_iff:
  "scan P xs = Some i \<longleftrightarrow> i < length xs \<and> P (xs ! i) \<and> (\<forall>j < i. \<not> P (xs ! j))"
proof
  assume r: "i < length xs \<and> P (xs ! i) \<and> (\<forall>j < i. \<not> P (xs ! j))"
  then have "\<exists>x \<in> set xs. P x" using nth_mem by blast
  then obtain k where k: "scan P xs = Some k" using scan_None_iff [of P xs] by fastforce
  from scan_SomeD [OF k] r have "k = i" by (meson linorder_neqE_nat)
  with k show "scan P xs = Some i" by simp
qed (rule scan_SomeD)

lemma scan_ex: "i < length xs \<Longrightarrow> P (xs ! i) \<Longrightarrow> \<exists>k \<le> i. scan P xs = Some k"
proof (induction xs arbitrary: i)
  case (Cons x xs)
  then show ?case by (cases i) (fastforce dest: Cons.IH)+
qed simp

section \<open>Little-endian words\<close>

definition join16 :: "u8 \<Rightarrow> u8 \<Rightarrow> u16" where
  "join16 a b = ucast a OR push_bit 8 (ucast b)"

definition join32 :: "u8 \<Rightarrow> u8 \<Rightarrow> u8 \<Rightarrow> u8 \<Rightarrow> u32" where
  "join32 a b c d =
     ucast a OR push_bit 8 (ucast b) OR push_bit 16 (ucast c) OR push_bit 24 (ucast d)"

definition byte_of :: "nat \<Rightarrow> 'a::len word \<Rightarrow> u8" where
  "byte_of k w = ucast (drop_bit (8 * k) w)"

lemma join32_bytes [simp, byte_simps]:
  "join32 (byte_of 0 w) (byte_of (Suc 0) w) (byte_of 2 w) (byte_of 3 w) = w"
proof (rule bit_word_eqI)
  fix n :: nat assume n: "n < LENGTH(32)"
  consider "n < 8" | "8 \<le> n" "n < 16" | "16 \<le> n" "n < 24" | "24 \<le> n" "n < 32"
    using n by fastforce
  then show "bit (join32 (byte_of 0 w) (byte_of (Suc 0) w) (byte_of 2 w) (byte_of 3 w)) n = bit w n"
    by cases (auto simp: join32_def byte_of_def bit_simps)
qed

lemma join16_bytes [simp, byte_simps]: "join16 (byte_of 0 w) (byte_of (Suc 0) w) = w"
proof (rule bit_word_eqI)
  fix n :: nat assume n: "n < LENGTH(16)"
  consider "n < 8" | "8 \<le> n" "n < 16" using n by fastforce
  then show "bit (join16 (byte_of 0 w) (byte_of (Suc 0) w)) n = bit w n"
    by cases (auto simp: join16_def byte_of_def bit_simps)
qed

lemma join32_zero [simp, byte_simps]: "join32 0 0 0 0 = 0"
  by (simp add: join32_def)

lemma byte_of_zero [simp, byte_simps]: "byte_of k 0 = 0"
  by (simp add: byte_of_def)

lemma byte_of_join32 [simp, byte_simps]:
  "byte_of 0 (join32 a b c d) = a" "byte_of (Suc 0) (join32 a b c d) = b"
  "byte_of 2 (join32 a b c d) = c" "byte_of 3 (join32 a b c d) = d"
  by (rule bit_word_eqI; auto simp: join32_def byte_of_def bit_simps dest: bit_imp_le_length)+

lemma byte_of_join16 [simp, byte_simps]:
  "byte_of 0 (join16 a b) = a" "byte_of (Suc 0) (join16 a b) = b"
  by (rule bit_word_eqI; auto simp: join16_def byte_of_def bit_simps dest: bit_imp_le_length)+

subsection \<open>Byte lists (disk blocks and C structs)\<close>

definition get16 :: "u8 list \<Rightarrow> nat \<Rightarrow> u16" where
  "get16 bs i = join16 (bs ! i) (bs ! (i + 1))"

definition get32 :: "u8 list \<Rightarrow> nat \<Rightarrow> u32" where
  "get32 bs i = join32 (bs ! i) (bs ! (i + 1)) (bs ! (i + 2)) (bs ! (i + 3))"

definition put16 :: "u8 list \<Rightarrow> nat \<Rightarrow> u16 \<Rightarrow> u8 list" where
  "put16 bs i w = bs[i := byte_of 0 w, i + 1 := byte_of 1 w]"

definition put32 :: "u8 list \<Rightarrow> nat \<Rightarrow> u32 \<Rightarrow> u8 list" where
  "put32 bs i w =
     bs[i := byte_of 0 w, i + 1 := byte_of 1 w, i + 2 := byte_of 2 w, i + 3 := byte_of 3 w]"

lemma length_put16 [simp]: "length (put16 bs i w) = length bs"
  by (simp add: put16_def)

lemma length_put32 [simp]: "length (put32 bs i w) = length bs"
  by (simp add: put32_def)

lemma get32_put32 [simp, byte_simps]: "i + 4 \<le> length bs \<Longrightarrow> get32 (put32 bs i w) i = w"
  by (simp add: get32_def put32_def nth_list_update)

lemma get16_put16 [simp, byte_simps]: "i + 2 \<le> length bs \<Longrightarrow> get16 (put16 bs i w) i = w"
  by (simp add: get16_def put16_def nth_list_update)

lemma nth_put32: "j < i \<or> i + 4 \<le> j \<Longrightarrow> put32 bs i w ! j = bs ! j"
  by (auto simp: put32_def nth_list_update)

lemma nth_put16: "j < i \<or> i + 2 \<le> j \<Longrightarrow> put16 bs i w ! j = bs ! j"
  by (auto simp: put16_def nth_list_update)

lemma get32_put32_other [simp, byte_simps]:
  "j + 4 \<le> i \<or> i + 4 \<le> j \<Longrightarrow> get32 (put32 bs i w) j = get32 bs j"
  by (auto simp: get32_def nth_put32)

lemma get32_put16_other [simp, byte_simps]:
  "j + 4 \<le> i \<or> i + 2 \<le> j \<Longrightarrow> get32 (put16 bs i w) j = get32 bs j"
  by (auto simp: get32_def nth_put16)

lemma get16_put32_other [simp, byte_simps]:
  "j + 2 \<le> i \<or> i + 4 \<le> j \<Longrightarrow> get16 (put32 bs i w) j = get16 bs j"
  by (auto simp: get16_def nth_put32)

lemma get16_put16_other [simp, byte_simps]:
  "j + 2 \<le> i \<or> i + 2 \<le> j \<Longrightarrow> get16 (put16 bs i w) j = get16 bs j"
  by (auto simp: get16_def nth_put16)

subsection \<open>Memory\<close>

text \<open>Physical memory, indexed by kernel virtual address, one byte per address.\<close>

type_synonym memory = "u32 \<Rightarrow> u8"

definition ld32 :: "memory \<Rightarrow> u32 \<Rightarrow> u32" where
  "ld32 m a = join32 (m a) (m (a + 1)) (m (a + 2)) (m (a + 3))"

definition st32 :: "memory \<Rightarrow> u32 \<Rightarrow> u32 \<Rightarrow> memory" where
  "st32 m a w =
     m(a := byte_of 0 w, a + 1 := byte_of 1 w, a + 2 := byte_of 2 w, a + 3 := byte_of 3 w)"

lemma ld32_st32 [simp, byte_simps]: "ld32 (st32 m a w) a = w"
  by (simp add: ld32_def st32_def)

lemma st32_st32 [simp, byte_simps]: "st32 (st32 m a v) a w = st32 m a w"
  by (rule ext) (simp add: st32_def)

lemma st32_outside: "unat (x - a) \<ge> 4 \<Longrightarrow> st32 m a w x = m x"
  by (auto simp: st32_def)

subsection \<open>Word-aligned cells\<close>

definition word_aligned :: "u32 \<Rightarrow> bool" where
  "word_aligned a \<longleftrightarrow> unat a mod 4 = 0"

lemma unat_add_small:
  assumes "unat (a :: u32) mod d = 0" "k < d" "2 ^ 32 mod d = 0" "d > 0"
  shows "unat (a + of_nat k) = unat a + k"
proof -
  obtain q where q: "unat a = d * q" using assms(1) by (auto simp: mod_eq_0_iff_dvd)
  obtain r where r: "2 ^ 32 = d * r" using assms(3) by (metis mod_0_imp_dvd dvdE)
  have "unat a < 2 ^ 32" using unsigned_less [of a] by simp
  then have "d * q < d * r" using q r by metis
  then have "q < r" by simp
  then have "d * q + d \<le> d * r" by (metis Suc_leI mult_Suc_right mult_le_mono2 add.commute)
  then have lt: "unat a + k < 2 ^ LENGTH(32)" using q r assms(2) by simp
  then have "unat (of_nat k :: u32) = k" by (simp add: unat_of_nat)
  then show ?thesis using lt unat_add_lem [of a "of_nat k"] by simp
qed

lemma aligned_offset_unique:
  assumes "word_aligned a" "word_aligned b" "a + of_nat i = b + of_nat j" "i < 4" "j < 4"
  shows "a = b \<and> i = j"
proof -
  have "unat a + i = unat b + j"
    using assms unat_add_small [of a 4 i] unat_add_small [of b 4 j] by (simp add: word_aligned_def)
  moreover from this assms(1,2,4,5) have "unat a = unat b" unfolding word_aligned_def by presburger
  ultimately show ?thesis by (simp add: word_unat_eq_iff)
qed

lemma ld32_cong:
  assumes "\<And>i. i < 4 \<Longrightarrow> m (a + of_nat i) = m' (a + of_nat i)"
  shows "ld32 m a = ld32 m' a"
  using assms [of 0] assms [of 1] assms [of 2] assms [of 3] by (simp add: ld32_def)

lemma ld32_st32_other [simp, byte_simps]:
  assumes "word_aligned a" "word_aligned b" "a \<noteq> b"
  shows "ld32 (st32 m a w) b = ld32 m b"
proof (rule ld32_cong)
  fix i :: nat assume i: "i < 4"
  have "b + of_nat i \<noteq> a + of_nat j" if "j < 4" for j
    using aligned_offset_unique [OF assms(2,1) _ i that] assms(3) by blast
  from this [of 0] this [of 1] this [of 2] this [of 3]
  show "st32 m a w (b + of_nat i) = m (b + of_nat i)" by (simp add: st32_def)
qed

section \<open>Step relations and their invariants\<close>

inductive reachable :: "('s \<Rightarrow> bool) \<Rightarrow> ('s \<Rightarrow> 's \<Rightarrow> bool) \<Rightarrow> 's \<Rightarrow> bool" for init step where
  start: "init s \<Longrightarrow> reachable init step s"
| step: "reachable init step s \<Longrightarrow> step s s' \<Longrightarrow> reachable init step s'"

text \<open>The contract between a step relation and an invariant of it.\<close>

locale invariant_system =
  fixes init :: "'s \<Rightarrow> bool" and step :: "'s \<Rightarrow> 's \<Rightarrow> bool" and inv :: "'s \<Rightarrow> bool"
  assumes inv_init: "init s \<Longrightarrow> inv s"
    and inv_step: "step s s' \<Longrightarrow> inv s \<Longrightarrow> inv s'"
begin

lemma reachable_inv: "reachable init step s \<Longrightarrow> inv s"
  by (induction rule: reachable.induct) (auto intro: inv_init inv_step)

end

section \<open>Loops whose body may fail\<close>

text \<open>\<open>for\<close> over a known list of indices; an outcome other than \<open>Ret\<close> ends the loop.\<close>

fun ofor :: "('i \<Rightarrow> 's \<Rightarrow> 's outcome) \<Rightarrow> 'i list \<Rightarrow> 's \<Rightarrow> 's outcome" where
  "ofor f [] s = Ret s"
| "ofor f (i # is) s = obind (f i s) (ofor f is)"

lemma ofor_append: "ofor f (is @ js) s = obind (ofor f is s) (ofor f js)"
  by (induction "is" arbitrary: s) (auto simp: obind_def split: outcome.splits)

lemma ofor_snoc: "ofor f (is @ [i]) s = obind (ofor f is s) (f i)"
  by (auto simp: ofor_append obind_def split: outcome.splits)

section \<open>Small offsets\<close>

lemma unat_of_nat_small: "k < 2 ^ 32 \<Longrightarrow> unat (of_nat k :: u32) = k"
  by (simp add: unsigned_of_nat take_bit_nat_eq_self)

lemma unat_plus_small: "unat (a :: u32) + k < 2 ^ 32 \<Longrightarrow> unat (a + of_nat k) = unat a + k"
  using unat_add_lem [of a "of_nat k"] by (simp add: unat_of_nat_small)

lemma unat_bound: "unat (a :: u32) < 2 ^ 32"
  using unsigned_less [of a, where ?'a = nat] by simp

lemma sint_small: "unat (w :: u32) < 2 ^ 31 \<Longrightarrow> sint w = int (unat w)"
proof -
  assume a: "unat w < 2 ^ 31"
  have u: "uint w = int (unat w)" by simp
  have "int (unat w) < int (2 ^ 31)" using a by (simp only: of_nat_less_iff)
  then have "uint w < 2 ^ 31" by simp
  moreover have "- (2 ^ 31) \<le> uint w" using uint_ge_0 [of w] by (rule order_trans [rotated]) simp
  ultimately have "signed_take_bit 31 (uint w) = uint w" by (intro signed_take_bit_int_eq_self)
  moreover have l: "LENGTH(32) - Suc 0 = (31 :: nat)" by simp
  have "sint w = signed_take_bit 31 (uint w)" using sint_uint [of w] unfolding l .
  ultimately show ?thesis using u by (simp only:)
qed

end
