(* ===== verification/Cstring.thy ===== *)
theory Cstring
  imports Prelude
begin

text \<open>
  The kernel's C library, \<^verbatim>\<open>string.c\<close>, over byte-addressed memory. Pointers are 32-bit
  words and pointer arithmetic wraps. The loops run on the unsigned value of the count.
  \<open>stosb\<close> and \<open>stosl\<close> are the string-store instructions behind the inline assembly
  of \<^verbatim>\<open>x86.h\<close>. \<open>strlen\<close> follows the pointer until it meets a NUL and so may not
  return; it is a partial function.
\<close>

section \<open>Definitions\<close>

fun stosb :: "memory \<Rightarrow> u32 \<Rightarrow> u8 \<Rightarrow> nat \<Rightarrow> memory" where
  "stosb m a c 0 = m"
| "stosb m a c (Suc n) = stosb (m(a := c)) (a + 1) c n"

fun stosl :: "memory \<Rightarrow> u32 \<Rightarrow> u32 \<Rightarrow> nat \<Rightarrow> memory" where
  "stosl m a w 0 = m"
| "stosl m a w (Suc n) = stosl (st32 m a w) (a + 4) w n"

text \<open>
  The word the code builds is \<^verbatim>\<open>(c<<24)|(c<<16)|(c<<8)|c\<close> after \<^verbatim>\<open>c &= 0xFF\<close>. A zero
  remainder is the same for C's and for HOL's rounding, so \<open>mod\<close> serves in the test.
\<close>

definition memset :: "memory \<Rightarrow> u32 \<Rightarrow> u32 \<Rightarrow> u32 \<Rightarrow> memory" where
  "memset m dst c n =
     (if sint dst mod 4 = 0 \<and> n mod 4 = 0
      then let c' = c AND 0xFF in
           stosl m dst (push_bit 24 c' OR push_bit 16 c' OR push_bit 8 c' OR c') (unat (n div 4))
      else stosb m dst (ucast c) (unat n))"

fun memcmp_loop :: "memory \<Rightarrow> u32 \<Rightarrow> u32 \<Rightarrow> nat \<Rightarrow> int" where
  "memcmp_loop m s1 s2 0 = 0"
| "memcmp_loop m s1 s2 (Suc n) =
     (if m s1 \<noteq> m s2 then uint (m s1) - uint (m s2) else memcmp_loop m (s1 + 1) (s2 + 1) n)"

definition memcmp :: "memory \<Rightarrow> u32 \<Rightarrow> u32 \<Rightarrow> u32 \<Rightarrow> int" where
  "memcmp m v1 v2 n = memcmp_loop m v1 v2 (unat n)"

fun copy_up :: "memory \<Rightarrow> u32 \<Rightarrow> u32 \<Rightarrow> nat \<Rightarrow> memory" where
  "copy_up m d s 0 = m"
| "copy_up m d s (Suc n) = copy_up (m(d := m s)) (d + 1) (s + 1) n"

fun copy_down :: "memory \<Rightarrow> u32 \<Rightarrow> u32 \<Rightarrow> nat \<Rightarrow> memory" where
  "copy_down m d s 0 = m"
| "copy_down m d s (Suc n) = copy_down (m(d - 1 := m (s - 1))) (d - 1) (s - 1) n"

definition memmove :: "memory \<Rightarrow> u32 \<Rightarrow> u32 \<Rightarrow> u32 \<Rightarrow> memory" where
  "memmove m dst src n =
     (if src < dst \<and> src + n > dst then copy_down m (dst + n) (src + n) (unat n)
      else copy_up m dst src (unat n))"

definition memcpy :: "memory \<Rightarrow> u32 \<Rightarrow> u32 \<Rightarrow> u32 \<Rightarrow> memory" where
  "memcpy m dst src n = memmove m dst src n"

fun strncmp_loop :: "memory \<Rightarrow> u32 \<Rightarrow> u32 \<Rightarrow> nat \<Rightarrow> int" where
  "strncmp_loop m p q 0 = 0"
| "strncmp_loop m p q (Suc n) =
     (if m p \<noteq> 0 \<and> m p = m q then strncmp_loop m (p + 1) (q + 1) n
      else uint (m p) - uint (m q))"

definition strncmp :: "memory \<Rightarrow> u32 \<Rightarrow> u32 \<Rightarrow> u32 \<Rightarrow> int" where
  "strncmp m p q n = strncmp_loop m p q (unat n)"

text \<open>The count of \<open>strncpy\<close> and \<open>safestrcpy\<close> is a signed \<open>int\<close>.\<close>

fun strncpy_loop :: "memory \<Rightarrow> u32 \<Rightarrow> u32 \<Rightarrow> nat \<Rightarrow> memory" where
  "strncpy_loop m s t 0 = m"
| "strncpy_loop m s t (Suc n) =
     (if m t \<noteq> 0 then strncpy_loop (m(s := m t)) (s + 1) (t + 1) n
      else stosb (m(s := m t)) (s + 1) 0 n)"

definition strncpy :: "memory \<Rightarrow> u32 \<Rightarrow> u32 \<Rightarrow> int \<Rightarrow> memory" where
  "strncpy m s t n = strncpy_loop m s t (nat n)"

text \<open>
  When the loop of \<open>safestrcpy\<close> copies the NUL it has already advanced \<open>s\<close>, so the
  final store clears the byte after the terminator as well.
\<close>

fun safestrcpy_loop :: "memory \<Rightarrow> u32 \<Rightarrow> u32 \<Rightarrow> nat \<Rightarrow> memory" where
  "safestrcpy_loop m s t 0 = m(s := 0)"
| "safestrcpy_loop m s t (Suc n) =
     (if m t \<noteq> 0 then safestrcpy_loop (m(s := m t)) (s + 1) (t + 1) n
      else m(s := m t, s + 1 := 0))"

definition safestrcpy :: "memory \<Rightarrow> u32 \<Rightarrow> u32 \<Rightarrow> int \<Rightarrow> memory" where
  "safestrcpy m s t n = (if n \<le> 0 then m else safestrcpy_loop m s t (nat (n - 1)))"

partial_function (option) strlen_from :: "memory \<Rightarrow> u32 \<Rightarrow> u32 \<Rightarrow> u32 option" where
  "strlen_from m s n = (if m (s + n) = 0 then Some n else strlen_from m s (n + 1))"

definition strlen :: "memory \<Rightarrow> u32 \<Rightarrow> u32 option" where
  "strlen m s = strlen_from m s 0"

section \<open>Address ranges\<close>

text \<open>\<open>x\<close> is one of the \<open>n\<close> addresses from \<open>a\<close> on (modulo the address space).\<close>

definition in_range :: "u32 \<Rightarrow> nat \<Rightarrow> u32 \<Rightarrow> bool" where
  "in_range a n x \<longleftrightarrow> unat (x - a) < n"

lemma in_range_0 [simp]: "\<not> in_range a 0 x"
  by (simp add: in_range_def)

lemma unat_diff_Suc: "x \<noteq> a \<Longrightarrow> unat (x - a :: u32) = Suc (unat (x - (a + 1)))"
proof -
  assume "x \<noteq> a"
  then have ne: "x - a \<noteq> 0" by simp
  have "unat (x - a - 1) = unat (x - a) - 1" using ne by (rule unat_minus_one)
  moreover have "0 < unat (x - a)" using ne by (simp add: unat_gt_0)
  ultimately show ?thesis by (simp add: diff_diff_eq)
qed

lemma in_range_Suc: "in_range a (Suc n) x \<longleftrightarrow> x = a \<or> in_range (a + 1) n x"
  by (cases "x = a") (simp_all add: in_range_def unat_diff_Suc)

section \<open>Properties\<close>

lemma stosb_eq: "stosb m a c n = (\<lambda>x. if in_range a n x then c else m x)"
proof (induction n arbitrary: m a)
  case (Suc n)
  then show ?case by (auto simp: in_range_Suc fun_eq_iff)
qed simp

lemma in_range_snoc:
  "n < 2 ^ 32 \<Longrightarrow> in_range a (Suc n) x \<longleftrightarrow> in_range a n x \<or> x = a + of_nat n"
proof -
  assume n: "n < 2 ^ 32"
  then have "unat (of_nat n :: u32) = n" by (simp add: unat_of_nat)
  then have "unat (x - a) = n \<longleftrightarrow> x - a = of_nat n" by (metis word_unat_eq_iff)
  then show ?thesis by (auto simp: in_range_def less_Suc_eq algebra_simps)
qed

lemma copy_up_snoc:
  "copy_up m d s (Suc n) =
     (copy_up m d s n)(d + of_nat n := copy_up m d s n (s + of_nat n))"
proof (induction n arbitrary: m d s)
  case (Suc n)
  have "copy_up m d s (Suc (Suc n)) = copy_up (m(d := m s)) (d + 1) (s + 1) (Suc n)"
    by (rule copy_up.simps)
  also note Suc.IH [of "m(d := m s)" "d + 1" "s + 1"]
  finally show ?case by (simp only: copy_up.simps of_nat_Suc add.assoc)
qed simp

lemma copy_up_eq:
  assumes "n \<le> 2 ^ 32" and "\<And>i. i < n \<Longrightarrow> \<not> in_range d i (s + of_nat i)"
  shows "copy_up m d s n = (\<lambda>x. if in_range d n x then m (s + (x - d)) else m x)"
  using assms
proof (induction n)
  case (Suc n)
  then have IH: "copy_up m d s n = (\<lambda>x. if in_range d n x then m (s + (x - d)) else m x)"
    by simp
  from Suc.prems have "\<not> in_range d n (s + of_nat n)" "n < 2 ^ 32" by simp_all
  then show ?case
    by (auto simp: copy_up_snoc IH in_range_snoc fun_eq_iff simp del: copy_up.simps)
qed simp

lemma copy_down_eq:
  assumes "n \<le> 2 ^ 32" and "\<And>i j. j < i \<Longrightarrow> i < n \<Longrightarrow> s + of_nat j \<noteq> d + of_nat i"
  shows "copy_down m (d + of_nat n) (s + of_nat n) n =
    (\<lambda>x. if in_range d n x then m (s + (x - d)) else m x)"
  using assms
proof (induction n arbitrary: m)
  case (Suc n)
  let ?m = "m(d + of_nat n := m (s + of_nat n))"
  have IH: "copy_down ?m (d + of_nat n) (s + of_nat n) n =
      (\<lambda>x. if in_range d n x then ?m (s + (x - d)) else ?m x)"
    using Suc.prems by (intro Suc.IH) simp_all
  have keep: "?m (s + (x - d)) = m (s + (x - d))" if "in_range d n x" for x
  proof -
    have "s + of_nat (unat (x - d)) \<noteq> d + of_nat n"
      using that Suc.prems(2) [of "unat (x - d)" n] by (simp add: in_range_def)
    then show ?thesis by simp
  qed
  have "copy_down m (d + of_nat (Suc n)) (s + of_nat (Suc n)) (Suc n) =
      copy_down ?m (d + of_nat n) (s + of_nat n) n"
    by (simp add: add.commute add.left_commute)
  also have "\<dots> = (\<lambda>x. if in_range d (Suc n) x then m (s + (x - d)) else m x)"
    using IH keep Suc.prems(1) by (auto simp: in_range_snoc fun_eq_iff)
  finally show ?case .
qed simp

text \<open>How far an address lies above another, without wrap-around.\<close>

lemma unat_add_of_nat:
  "unat (a :: u32) + i < 2 ^ 32 \<Longrightarrow> unat (a + of_nat i) = unat a + i"
  by (simp add: unat_word_ariths unat_of_nat)

lemma memmove_eq:
  assumes src: "unat src + unat n < 2 ^ 32" and dst: "unat dst + unat n \<le> 2 ^ 32"
  shows "memmove m dst src n = (\<lambda>x. if in_range dst (unat n) x then m (src + (x - dst)) else m x)"
proof (cases "src < dst \<and> src + n > dst")
  case True
  have "copy_down m (dst + of_nat (unat n)) (src + of_nat (unat n)) (unat n) =
      (\<lambda>x. if in_range dst (unat n) x then m (src + (x - dst)) else m x)"
  proof (rule copy_down_eq)
    fix i j :: nat assume "j < i" "i < unat n"
    with src dst True have "unat (src + of_nat j) < unat (dst + of_nat i)"
      by (subst (1 2) unat_add_of_nat) (auto simp: word_less_nat_alt)
    then show "src + of_nat j \<noteq> dst + of_nat i" by force
  qed (use src in simp)
  with True show ?thesis by (simp add: memmove_def)
next
  case False
  have "copy_up m dst src (unat n) =
      (\<lambda>x. if in_range dst (unat n) x then m (src + (x - dst)) else m x)"
  proof (rule copy_up_eq)
    fix i assume i: "i < unat n"
    with src have u: "unat (src + of_nat i) = unat src + i" by (intro unat_add_of_nat) simp
    have sn: "unat (src + n) = unat src + unat n"
      using src by (simp add: unat_word_ariths)
    from False sn have "unat dst \<le> unat src \<or> unat src + unat n \<le> unat dst"
      by (auto simp: word_less_nat_alt not_less)
    then have "i \<le> unat (src + of_nat i - dst)"
      using i dst u unsigned_less [of dst, where ?'a = nat] by (auto simp: unat_sub_if' )
    then show "\<not> in_range dst i (src + of_nat i)" by (simp add: in_range_def)
  qed (use src in simp)
  with False show ?thesis by (auto simp: memmove_def)
qed

section \<open>Byte strings in memory\<close>

definition bytes_at :: "memory \<Rightarrow> u32 \<Rightarrow> nat \<Rightarrow> u8 list" where
  "bytes_at m p n = map (\<lambda>i. m (p + of_nat i)) [0..<n]"

text \<open>The C string at \<open>p\<close>, looking at no more than \<open>n\<close> bytes.\<close>

definition cstr_at :: "memory \<Rightarrow> u32 \<Rightarrow> nat \<Rightarrow> u8 list" where
  "cstr_at m p n = takeWhile (\<lambda>b. b \<noteq> 0) (bytes_at m p n)"

lemma length_bytes_at [simp]: "length (bytes_at m p n) = n"
  by (simp add: bytes_at_def)

lemma nth_bytes_at [simp]: "i < n \<Longrightarrow> bytes_at m p n ! i = m (p + of_nat i)"
  by (simp add: bytes_at_def)

lemma bytes_at_Suc [simp]: "bytes_at m p (Suc n) = m p # bytes_at m (p + 1) n"
  by (simp add: bytes_at_def map_upt_Suc add.assoc del: upt_Suc)

lemma bytes_at_0 [simp]: "bytes_at m p 0 = []"
  by (simp add: bytes_at_def)

lemma bytes_at_cong:
  "(\<And>i. i < n \<Longrightarrow> m (p + of_nat i) = m' (p + of_nat i)) \<Longrightarrow> bytes_at m p n = bytes_at m' p n"
  by (simp add: bytes_at_def)

lemma cstr_at_0 [simp]: "cstr_at m p 0 = []"
  by (simp add: cstr_at_def)

lemma cstr_at_Suc [simp]:
  "cstr_at m p (Suc n) = (if m p = 0 then [] else m p # cstr_at m (p + 1) n)"
  by (simp add: cstr_at_def)

lemma length_cstr_at: "length (cstr_at m p n) \<le> n"
  unfolding cstr_at_def by (metis length_bytes_at length_takeWhile_le)

lemma cstr_at_cong:
  "(\<And>i. i < n \<Longrightarrow> m (p + of_nat i) = m' (p + of_nat i)) \<Longrightarrow> cstr_at m p n = cstr_at m' p n"
  unfolding cstr_at_def by (simp add: bytes_at_cong [of n m p m'])

lemma cstr_at_eqI:
  assumes "k < n" and "\<And>i. i < k \<Longrightarrow> m (p + of_nat i) \<noteq> 0" and "m (p + of_nat k) = 0"
  shows "cstr_at m p n = bytes_at m p k"
proof -
  have "cstr_at m p n = take k (bytes_at m p n)"
    unfolding cstr_at_def using assms by (intro takeWhile_eq_take_P_nth) auto
  also have "\<dots> = bytes_at m p k" using assms(1) by (intro nth_equalityI) auto
  finally show ?thesis .
qed

lemma in_range_of_nat: "i < n \<Longrightarrow> n \<le> 2 ^ 32 \<Longrightarrow> in_range a n (a + of_nat i)"
  by (simp add: in_range_def unat_of_nat)

lemma stosl_eq_stosb:
  assumes "byte_of 0 w = c" "byte_of 1 w = c" "byte_of 2 w = c" "byte_of 3 w = c"
  shows "stosl m a w n = stosb m a c (4 * n)"
proof (induction n arbitrary: m a)
  case (Suc n)
  have "st32 m a w = stosb m a c 4"
    using assms by (simp add: st32_def numeral_eq_Suc add.assoc)
  moreover have "stosb (stosb m a c 4) (a + 4) c (4 * n) = stosb m a c (4 + 4 * n)"
    by (simp add: numeral_eq_Suc add.assoc)
  ultimately show ?case using Suc by simp
qed simp

lemma memset_eq: "memset m dst c n = (\<lambda>x. if in_range dst (unat n) x then ucast c else m x)"
proof (cases "sint dst mod 4 = 0 \<and> n mod 4 = 0")
  case True
  let ?c = "c AND 0xFF"
  let ?w = "push_bit 24 ?c OR push_bit 16 ?c OR push_bit 8 ?c OR ?c"
  have "?c = take_bit 8 c" by (simp add: take_bit_eq_mask mask_eq_exp_minus_1)
  also have "\<dots> = ucast (ucast c :: u8)" by (rule bit_word_eqI) (auto simp: bit_simps)
  finally have c: "?c = ucast (ucast c :: u8)" .
  have "push_bit 24 x OR push_bit 16 x OR push_bit 8 x OR x =
      x OR push_bit 8 x OR push_bit 16 x OR push_bit 24 x" for x :: u32
    by (simp only: or.commute or.left_commute or.assoc)
  then have "?w = join32 (ucast c) (ucast c) (ucast c) (ucast c)"
    unfolding join32_def c by blast
  then have "stosl m dst ?w (unat (n div 4)) = stosb m dst (ucast c) (4 * unat (n div 4))"
    by (intro stosl_eq_stosb) simp_all
  moreover have "4 * unat (n div 4) = unat n"
  proof -
    have "unat (n mod 4) = 0" using True by simp
    then have "unat n mod 4 = 0" by (simp only: unat_mod_distrib) simp
    then show ?thesis by (auto simp: unat_div_distrib)
  qed
  ultimately show ?thesis using True by (simp add: memset_def stosb_eq Let_def)
next
  case False
  then show ?thesis by (auto simp: memset_def stosb_eq)
qed

lemma memcmp_zero: "memcmp m p q n = 0 \<longleftrightarrow> bytes_at m p (unat n) = bytes_at m q (unat n)"
proof -
  have "memcmp_loop m p q k = 0 \<longleftrightarrow> bytes_at m p k = bytes_at m q k" for k
    by (induction k arbitrary: p q) (auto simp: word_uint_eq_iff)
  then show ?thesis by (simp add: memcmp_def)
qed

lemma strncmp_zero: "strncmp m p q n = 0 \<longleftrightarrow> cstr_at m p (unat n) = cstr_at m q (unat n)"
proof -
  have "strncmp_loop m p q k = 0 \<longleftrightarrow> cstr_at m p k = cstr_at m q k" for k
    by (induction k arbitrary: p q) (auto simp: word_uint_eq_iff)
  then show ?thesis by (simp add: strncmp_def)
qed

lemma strncpy_loop_eq:
  assumes "n < 2 ^ 32" and "\<And>i j. i < n \<Longrightarrow> j < n \<Longrightarrow> s + of_nat i \<noteq> t + of_nat j"
  shows "strncpy_loop m s t n = (\<lambda>x. if in_range s n x
      then if unat (x - s) < length (cstr_at m t n) then m (t + (x - s)) else 0 else m x)"
  using assms
proof (induction n arbitrary: m s t)
  case (Suc n)
  let ?m = "m(s := m t)"
  have apart: "t + of_nat j \<noteq> s" if "j < Suc n" for j
    using Suc.prems(2) [of 0 j] that by auto
  have str: "cstr_at ?m (t + 1) n = cstr_at m (t + 1) n"
    using apart [of "Suc _"] by (intro cstr_at_cong) (auto simp: add.assoc)
  have src: "?m (t + 1 + (x - (s + 1))) = m (t + (x - s))" if "in_range (s + 1) n x" "x \<noteq> s" for x
  proof -
    have "unat (x - s) < Suc n" using that by (simp add: in_range_def unat_diff_Suc)
    then have "t + (x - s) \<noteq> s" using apart [of "unat (x - s)"] by simp
    then show ?thesis by (simp add: algebra_simps)
  qed
  have out: "\<not> in_range (s + 1) n s"
    using Suc.prems(1) by (simp add: in_range_def unsigned_minus_1_eq_mask mask_eq_exp_minus_1)
  have "strncpy_loop ?m (s + 1) (t + 1) n = (\<lambda>x. if in_range (s + 1) n x
      then if unat (x - (s + 1)) < length (cstr_at ?m (t + 1) n)
           then ?m (t + 1 + (x - (s + 1))) else 0 else ?m x)"
  proof (rule Suc.IH)
    fix i j assume "i < n" "j < n"
    then show "s + 1 + of_nat i \<noteq> t + 1 + of_nat j"
      using Suc.prems(2) [of "Suc i" "Suc j"] by (simp add: add.assoc)
  qed (use Suc.prems in simp)
  also have "\<dots> = (\<lambda>x. if in_range (s + 1) n x
      then if unat (x - s) < Suc (length (cstr_at m (t + 1) n)) then m (t + (x - s)) else 0
      else ?m x)"
  proof (rule ext)
    fix x
    show "(if in_range (s + 1) n x
      then if unat (x - (s + 1)) < length (cstr_at ?m (t + 1) n)
           then ?m (t + 1 + (x - (s + 1))) else 0 else ?m x) =
      (if in_range (s + 1) n x
      then if unat (x - s) < Suc (length (cstr_at m (t + 1) n)) then m (t + (x - s)) else 0
      else ?m x)"
    proof (cases "in_range (s + 1) n x")
      case True
      with out have x: "x \<noteq> s" by blast
      show ?thesis
        using src [OF True x] unat_diff_Suc [OF x] True by (simp only: str if_True Suc_less_eq)
    qed simp
  qed
  finally show ?case
    by (auto simp: fun_eq_iff in_range_Suc stosb_eq)
qed simp

lemma safestrcpy_loop_eq:
  assumes "n < 2 ^ 32 - 1" and "\<And>i j. i < n \<Longrightarrow> j < n \<Longrightarrow> s + of_nat i \<noteq> t + of_nat j"
  shows "safestrcpy_loop m s t n x =
    (if unat (x - s) < length (cstr_at m t n) then m (t + (x - s))
     else if unat (x - s) = length (cstr_at m t n) \<or>
             length (cstr_at m t n) < n \<and> unat (x - s) = Suc (length (cstr_at m t n))
     then 0 else m x)"
  using assms
proof (induction n arbitrary: m s t)
  case 0
  then show ?case by (simp add: unat_eq_0)
next
  case (Suc n)
  let ?m = "m(s := m t)"
  show ?case
  proof (cases "m t = 0")
    case True
    have "unat (x - s) = 1 \<longleftrightarrow> x = s + 1"
      by (metis add_diff_cancel_left' diff_add_cancel unat_1 word_unat_eq_iff add.commute)
    with True show ?thesis by (auto simp: unat_eq_0)
  next
    case False
    have apart: "t + of_nat j \<noteq> s" if "j < Suc n" for j
      using Suc.prems(2) [of 0 j] that by auto
    have str: "cstr_at ?m (t + 1) n = cstr_at m (t + 1) n"
      using apart [of "Suc _"] by (intro cstr_at_cong) (auto simp: add.assoc)
    have IH: "safestrcpy_loop ?m (s + 1) (t + 1) n x =
      (if unat (x - (s + 1)) < length (cstr_at ?m (t + 1) n) then ?m (t + 1 + (x - (s + 1)))
       else if unat (x - (s + 1)) = length (cstr_at ?m (t + 1) n) \<or>
         length (cstr_at ?m (t + 1) n) < n \<and>
         unat (x - (s + 1)) = Suc (length (cstr_at ?m (t + 1) n))
       then 0 else ?m x)"
    proof (rule Suc.IH)
      fix i j assume "i < n" "j < n"
      then show "s + 1 + of_nat i \<noteq> t + 1 + of_nat j"
        using Suc.prems(2) [of "Suc i" "Suc j"] by (simp add: add.assoc)
    qed (use Suc.prems in simp)
    show ?thesis
    proof (cases "x = s")
      case True
      have "unat (x - (s + 1)) = 2 ^ 32 - 1"
        using True by (simp add: unsigned_minus_1_eq_mask mask_eq_exp_minus_1)
      moreover have "length (cstr_at m (t + 1) n) \<le> n" by (rule length_cstr_at)
      ultimately show ?thesis using IH Suc.prems(1) True False unfolding str by auto
    next
      case x: False
      have src: "?m (t + 1 + (x - (s + 1))) = m (t + (x - s))"
        if "unat (x - (s + 1)) < length (cstr_at m (t + 1) n)"
      proof -
        have "unat (x - s) < Suc n"
          using that length_cstr_at [of m "t + 1" n] unat_diff_Suc [OF x] by simp
        then have "t + (x - s) \<noteq> s" using apart [of "unat (x - s)"] by simp
        then show ?thesis by (simp add: algebra_simps)
      qed
      from IH src x False show ?thesis
        unfolding str by (simp only: unat_diff_Suc [OF x] safestrcpy_loop.simps cstr_at_Suc) simp
    qed
  qed
qed

lemma strlen_from_eq:
  assumes "m (s + of_nat (i + k)) = 0" and "\<And>j. j < k \<Longrightarrow> m (s + of_nat (i + j)) \<noteq> 0"
  shows "strlen_from m s (of_nat i) = Some (of_nat (i + k))"
  using assms
proof (induction k arbitrary: i)
  case 0
  then show ?case by (subst strlen_from.simps) simp
next
  case (Suc k)
  have "strlen_from m s (of_nat (Suc i)) = Some (of_nat (Suc i + k))"
    using Suc.prems(1) Suc.prems(2) [of "Suc _"] by (intro Suc.IH) (simp_all del: of_nat_Suc)
  with Suc.prems(2) [of 0] show ?case
    by (subst strlen_from.simps) (simp add: add.commute)
qed

section \<open>Claims\<close>

text \<open>
  C38: \<open>memmove\<close> copies the source bytes as they were before the call and touches nothing
  outside the destination, whether or not the two ranges overlap.
\<close>

theorem memmove_correct:
  assumes "unat src + unat n < 2 ^ 32" and "unat dst + unat n \<le> 2 ^ 32"
  shows "bytes_at (memmove m dst src n) dst (unat n) = bytes_at m src (unat n) \<and>
    (\<forall>x. in_range dst (unat n) x \<or> memmove m dst src n x = m x)"
proof -
  have le: "unat n \<le> 2 ^ 32" using assms by simp
  have "bytes_at (memmove m dst src n) dst (unat n) = bytes_at m src (unat n)"
    by (rule nth_equalityI) (simp_all add: memmove_eq [OF assms] in_range_of_nat [OF _ le])
  then show ?thesis by (simp add: memmove_eq [OF assms])
qed

theorem memmove_correct_witness:
  "bytes_at (memmove (\<lambda>x. ucast x) 0x1002 0x1000 4) 0x1002 (unat (4 :: u32)) =
     bytes_at (\<lambda>x. ucast x) 0x1000 (unat (4 :: u32))"
  using memmove_correct [of "0x1000" 4 "0x1002" "\<lambda>x. ucast x"] by simp

text \<open>
  C39: \<open>memset\<close> fills exactly the \<open>n\<close> bytes from \<open>dst\<close> with the low byte of \<open>c\<close>: the
  fast path, which stores whole words, agrees with the byte loop for every address and length.
\<close>

theorem memset_paths_agree: "memset m dst c n = stosb m dst (ucast c) (unat n)"
  by (simp add: memset_eq stosb_eq)

text \<open>
  C40: \<open>safestrcpy\<close> leaves a NUL-terminated prefix of the source in an \<open>n\<close>-byte buffer
  and writes nothing outside that buffer.
\<close>

theorem safestrcpy_correct:
  assumes n: "0 < n" "n < 2 ^ 32 - 1"
    and apart: "\<And>i j. int i < n - 1 \<Longrightarrow> int j < n - 1 \<Longrightarrow> s + of_nat i \<noteq> t + of_nat j"
  shows "cstr_at (safestrcpy m s t n) s (nat n) = cstr_at m t (nat (n - 1)) \<and>
    (\<forall>x. in_range s (nat n) x \<or> safestrcpy m s t n x = m x)"
proof -
  let ?k = "nat (n - 1)" and ?r = "safestrcpy m s t n"
  let ?L = "length (cstr_at m t ?k)"
  have eq: "?r x = (if unat (x - s) < ?L then m (t + (x - s))
     else if unat (x - s) = ?L \<or> ?L < ?k \<and> unat (x - s) = Suc ?L then 0 else m x)" for x
  proof -
    have "?r x = safestrcpy_loop m s t ?k x" using n by (simp add: safestrcpy_def)
    also note safestrcpy_loop_eq [of ?k s t m x]
    finally show ?thesis using n apart by auto
  qed
  have L: "?L \<le> ?k" by (rule length_cstr_at)
  have nk: "nat n = Suc ?k" using n by simp
  have at: "unat (of_nat i :: u32) = i" if "i < nat n" for i
    using that n by (simp add: unat_of_nat)
  have frame: "?r x = m x" if "\<not> in_range s (nat n) x" for x
    using that L nk by (auto simp: eq in_range_def)
  have chars: "?r (s + of_nat i) = cstr_at m t ?k ! i" "?r (s + of_nat i) \<noteq> 0" if "i < ?L" for i
  proof -
    have i: "i < length (takeWhile (\<lambda>b. b \<noteq> 0) (bytes_at m t ?k))"
      using that by (simp add: cstr_at_def)
    from takeWhile_nth [OF i] show "?r (s + of_nat i) = cstr_at m t ?k ! i"
      using that L nk by (simp add: eq at cstr_at_def)
    then show "?r (s + of_nat i) \<noteq> 0"
      using nth_mem [OF i] unfolding cstr_at_def by (metis set_takeWhileD)
  qed
  have nul: "?r (s + of_nat ?L) = 0" using L nk by (simp add: eq at)
  have "cstr_at ?r s (nat n) = bytes_at ?r s ?L"
    using chars nul L nk by (intro cstr_at_eqI) auto
  also have "\<dots> = cstr_at m t ?k"
    using chars by (intro nth_equalityI) auto
  finally show ?thesis using frame by blast
qed

theorem safestrcpy_correct_witness:
  "cstr_at (safestrcpy (\<lambda>x. if x < 0x2003 then 0x61 else 0) 0x1000 0x2000 16) 0x1000 (nat 16) =
     cstr_at (\<lambda>x. if x < 0x2003 then 0x61 else 0) 0x2000 (nat (16 - 1))"
proof -
  have "(0x1000 :: u32) + of_nat i \<noteq> 0x2000 + of_nat j"
    if "int i < 16 - 1" "int j < 16 - 1" for i j
  proof -
    have "unat ((0x1000 :: u32) + of_nat i) = 0x1000 + i"
      using that by (subst unat_add_of_nat) auto
    moreover have "unat ((0x2000 :: u32) + of_nat j) = 0x2000 + j"
      using that by (subst unat_add_of_nat) auto
    ultimately show ?thesis using that by fastforce
  qed
  then show ?thesis
    using safestrcpy_correct
      [where n = 16 and s = "0x1000" and t = "0x2000" and m = "\<lambda>x. if x < 0x2003 then 0x61 else 0"]
    by simp
qed

text \<open>
  \<open>strlen\<close> returns on every NUL-terminated string, with the index of the first NUL.
\<close>

lemma strlen_terminated:
  assumes "m (s + of_nat k) = 0" and "\<And>j. j < k \<Longrightarrow> m (s + of_nat j) \<noteq> 0"
  shows "strlen m s = Some (of_nat k)"
  using strlen_from_eq [of m s 0 k] assms by (simp add: strlen_def)

end
