(* ===== verification/Mmu.thy ===== *)
theory Mmu
  imports Cstring
begin

text \<open>
  The paging arithmetic of \<^verbatim>\<open>mmu.h\<close>: rounding to page boundaries, the three-part
  structure of a virtual address, and the fields of page-table entries, with the facts
  about pages and cells that the allocator and the page-table code rest on.
\<close>

section \<open>Macros\<close>

abbreviation (input) PGSIZE :: u32 where "PGSIZE \<equiv> 4096"
abbreviation (input) PTE_P :: u32 where "PTE_P \<equiv> 1"
abbreviation (input) PTE_W :: u32 where "PTE_W \<equiv> 2"
abbreviation (input) PTE_U :: u32 where "PTE_U \<equiv> 4"
abbreviation (input) NPDENTRIES :: nat where "NPDENTRIES \<equiv> 1024"

definition PGROUNDUP :: "u32 \<Rightarrow> u32" where
  "PGROUNDUP sz = (sz + PGSIZE - 1) AND NOT (PGSIZE - 1)"

definition PGROUNDDOWN :: "u32 \<Rightarrow> u32" where
  "PGROUNDDOWN a = a AND NOT (PGSIZE - 1)"

definition PDX :: "u32 \<Rightarrow> u32" where
  "PDX va = drop_bit 22 va AND 0x3FF"

definition PTX :: "u32 \<Rightarrow> u32" where
  "PTX va = drop_bit 12 va AND 0x3FF"

definition PGADDR :: "u32 \<Rightarrow> u32 \<Rightarrow> u32 \<Rightarrow> u32" where
  "PGADDR d t off = push_bit 22 d OR push_bit 12 t OR off"

definition PTE_ADDR :: "u32 \<Rightarrow> u32" where
  "PTE_ADDR pte = pte AND NOT 0xFFF"

definition PTE_FLAGS :: "u32 \<Rightarrow> u32" where
  "PTE_FLAGS pte = pte AND 0xFFF"

section \<open>Pages\<close>

definition pg_aligned :: "u32 \<Rightarrow> bool" where
  "pg_aligned a \<longleftrightarrow> unat a mod 4096 = 0"

definition pgno :: "u32 \<Rightarrow> nat" where
  "pgno a = unat a div 4096"

lemma pg_aligned_word_aligned: "pg_aligned a \<Longrightarrow> word_aligned a"
proof -
  assume "pg_aligned a"
  then obtain q where "unat a = 4 * (1024 * q)" by (auto simp: pg_aligned_def)
  then show ?thesis by (simp add: word_aligned_def)
qed

lemma unat_and_not_FFF: "unat ((a :: u32) AND - 4096) = unat a div 4096 * 4096"
proof -
  have m: "(- 4096 :: u32) = NOT (mask 12)" by (simp add: mask_eq_exp_minus_1)
  have "a AND NOT (mask 12) = push_bit 12 (drop_bit 12 a)"
    by (rule bit_word_eqI) (auto simp: bit_simps)
  moreover have "unat (push_bit 12 (drop_bit 12 a)) = unat a div 4096 * 4096"
  proof -
    have "unat (drop_bit 12 a) = unat a div 4096" by (simp add: drop_bit_eq_div unat_div_distrib)
    moreover have "unat a div 4096 * 4096 < 2 ^ 32"
      using unsigned_less [of a, where ?'a = nat] by simp
    ultimately show ?thesis
      by (simp add: push_bit_eq_mult unat_word_ariths)
  qed
  ultimately show ?thesis unfolding m by simp
qed

lemma unat_and_FFF: "unat ((a :: u32) AND 0xFFF) = unat a mod 4096"
proof -
  have "a AND 0xFFF = take_bit 12 a" by (simp add: take_bit_eq_mask mask_eq_exp_minus_1)
  then show ?thesis by (simp add: take_bit_eq_mod unat_mod_distrib)
qed

lemma unat_PGROUNDDOWN: "unat (PGROUNDDOWN a) = unat a div 4096 * 4096"
  by (simp add: PGROUNDDOWN_def unat_and_not_FFF)

lemma unat_PTE_ADDR: "unat (PTE_ADDR a) = unat a div 4096 * 4096"
  by (simp add: PTE_ADDR_def unat_and_not_FFF)

lemma pg_aligned_PGROUNDDOWN [simp]: "pg_aligned (PGROUNDDOWN a)"
  by (simp add: pg_aligned_def unat_PGROUNDDOWN)

lemma pg_aligned_PGROUNDUP [simp]: "pg_aligned (PGROUNDUP a)"
  by (simp add: pg_aligned_def PGROUNDUP_def unat_and_not_FFF)

lemma pg_aligned_PTE_ADDR [simp]: "pg_aligned (PTE_ADDR a)"
  by (simp add: pg_aligned_def unat_PTE_ADDR)

lemma PGROUNDDOWN_aligned [simp]: "pg_aligned a \<Longrightarrow> PGROUNDDOWN a = a"
  by (auto simp: word_unat_eq_iff unat_PGROUNDDOWN pg_aligned_def)

lemma unat_page_offset: "pg_aligned p \<Longrightarrow> k < 4096 \<Longrightarrow> unat (p + of_nat k) = unat p + k"
  unfolding pg_aligned_def by (rule unat_add_small) auto

lemma pgno_offset: "pg_aligned p \<Longrightarrow> k < 4096 \<Longrightarrow> pgno (p + of_nat k) = pgno p"
  by (auto simp: pgno_def unat_page_offset pg_aligned_def)

lemma pg_aligned_eqI: "pg_aligned p \<Longrightarrow> pg_aligned q \<Longrightarrow> pgno p = pgno q \<Longrightarrow> p = q"
  by (auto simp: word_unat_eq_iff pgno_def pg_aligned_def)

lemma in_page_iff: "pg_aligned p \<Longrightarrow> in_range p 4096 x \<longleftrightarrow> pgno x = pgno p"
proof
  assume p: "pg_aligned p" and "in_range p 4096 x"
  then have "unat (x - p) < 4096" by (simp add: in_range_def)
  from pgno_offset [OF p this] show "pgno x = pgno p" by simp
next
  assume p: "pg_aligned p" and eq: "pgno x = pgno p"
  have "unat p = 4096 * pgno x"
    using p eq by (simp add: pgno_def pg_aligned_def) (metis mult_div_mod_eq add.right_neutral)
  moreover have "4096 * pgno x \<le> unat x" "unat x < 4096 * pgno x + 4096"
    unfolding pgno_def using mult_div_mod_eq [of 4096 "unat x"] mod_less_divisor [of 4096 "unat x"]
    by linarith+
  ultimately have "unat p \<le> unat x" "unat x - unat p < 4096" by linarith+
  then show "in_range p 4096 x" by (simp add: in_range_def unat_sub_if')
qed

lemma pg_aligned_add_page: "pg_aligned a \<Longrightarrow> pg_aligned (a + 4096)"
proof -
  assume "pg_aligned a"
  then obtain q where q: "unat a = 4096 * q" by (auto simp: pg_aligned_def)
  have "4096 * q + 4096 = 4096 * Suc q" "(4294967296 :: nat) = 4096 * 1048576" by simp_all
  then have "unat (a + 4096) = 4096 * Suc q \<or> unat (a + 4096) = 4096 * (Suc q - 1048576)"
    using unat_plus_if' [of a 4096] q by (auto simp: diff_mult_distrib2 split: if_splits)
  then show ?thesis unfolding pg_aligned_def by (metis mod_mult_self1_is_0)
qed

text \<open>A page is filled as a whole; cells of other pages keep their contents.\<close>

lemma memset_page:
  "pg_aligned p \<Longrightarrow> memset m p c 4096 = (\<lambda>x. if pgno x = pgno p then ucast c else m x)"
  by (simp add: memset_eq in_page_iff)

lemma pgno_word_offset: "word_aligned a \<Longrightarrow> i < 4 \<Longrightarrow> pgno (a + of_nat i) = pgno a"
proof -
  assume a: "word_aligned a" and i: "i < 4"
  then obtain k where k: "unat a = 4 * k" by (auto simp: word_aligned_def)
  have "unat (a + of_nat i) = unat a + i"
    using a i unat_add_small [of a 4 i] by (simp add: word_aligned_def)
  moreover have "x div 4096 = x div 4 div 1024" for x :: nat by (simp flip: div_mult2_eq)
  ultimately show ?thesis using k i by (simp add: pgno_def)
qed

lemma ld32_page_cong:
  "word_aligned a \<Longrightarrow> (\<And>x. pgno x = pgno a \<Longrightarrow> m x = m' x) \<Longrightarrow> ld32 m a = ld32 m' a"
  by (rule ld32_cong) (simp add: pgno_word_offset)

lemma st32_off_page:
  assumes "word_aligned a" "pgno x \<noteq> pgno a"
  shows "st32 m a w x = m x"
proof -
  have "x \<noteq> a + of_nat i" if "i < 4" for i using assms that pgno_word_offset by metis
  from this [of 0] this [of 1] this [of 2] this [of 3] show ?thesis by (simp add: st32_def)
qed

end
