(* ===== verification/Kalloc.thy ===== *)
theory Kalloc
  imports Mmu
begin

text \<open>
  The physical page allocator, \<^verbatim>\<open>kalloc.c\<close>. Free pages form a linked list threaded
  through their first words; the list lives in memory and is read and written with
  \<open>ld32\<close> and \<open>st32\<close>. The list operations run with \<open>kmem.lock\<close> held (or before
  there is a second processor), so each is one atomic step here. \<open>kend\<close> is the linker
  symbol \<open>end\<close>, the first address after the loaded kernel.
\<close>

section \<open>State and operations\<close>

record kmem_state =
  mem :: memory
  freelist :: u32
  use_lock :: bool
  kend :: u32

definition kfree :: "u32 \<Rightarrow> 'a kmem_state_scheme \<Rightarrow> 'a kmem_state_scheme outcome" where
  "kfree v s =
     (if v mod PGSIZE \<noteq> 0 \<or> v < kend s \<or> V2P v \<ge> PHYSTOP then Panic ''kfree''
      else Ret (s\<lparr>mem := st32 (memset (mem s) v 1 PGSIZE) v (freelist s), freelist := v\<rparr>))"

definition kalloc :: "'a kmem_state_scheme \<Rightarrow> u32 \<times> 'a kmem_state_scheme" where
  "kalloc s =
     (let r = freelist s
      in (r, if r \<noteq> 0 then s\<lparr>freelist := ld32 (mem s) r\<rparr> else s))"

lemma kfree_ret_bound: "kfree p s = Ret s' \<Longrightarrow> unat p + 4096 < 2 ^ 32"
proof -
  assume "kfree p s = Ret s'"
  then have "V2P p < PHYSTOP" by (auto simp: kfree_def not_le split: if_splits)
  then have "unat (p - KERNBASE) < 0xE000000" by (simp add: V2P_def word_less_nat_alt)
  then show ?thesis by (auto simp: unat_sub_if' split: if_splits)
qed

text \<open>
  The loop of \<open>freerange\<close> ends for every argument: \<open>kfree\<close> panics on addresses at or
  above \<open>PHYSTOP\<close>, so the loop pointer never wraps around.
\<close>

function freerange_loop :: "u32 \<Rightarrow> u32 \<Rightarrow> 'a kmem_state_scheme \<Rightarrow> 'a kmem_state_scheme outcome"
where
  "freerange_loop p vend s =
     (if p + PGSIZE \<le> vend then obind (kfree p s) (\<lambda>s. freerange_loop (p + PGSIZE) vend s)
      else Ret s)"
  by pat_completeness auto
termination
proof (relation "measure (\<lambda>(p, vend, s). 2 ^ 32 - unat p)")
  fix p vend :: u32 and s s' :: "'a kmem_state_scheme"
  assume "kfree p s = Ret s'"
  from kfree_ret_bound [OF this] have "unat (p + 4096) = unat p + 4096" "unat p + 4096 < 2 ^ 32"
    using unat_add_lem [of p 4096] by simp_all
  then show "((p + 4096, vend, s'), p, vend, s) \<in> measure (\<lambda>(p, vend, s). 2 ^ 32 - unat p)"
    by simp
qed simp

declare freerange_loop.simps [simp del]

definition freerange :: "u32 \<Rightarrow> u32 \<Rightarrow> 'a kmem_state_scheme \<Rightarrow> 'a kmem_state_scheme outcome" where
  "freerange vstart vend s = freerange_loop (PGROUNDUP vstart) vend s"

definition kinit1 :: "u32 \<Rightarrow> u32 \<Rightarrow> 'a kmem_state_scheme \<Rightarrow> 'a kmem_state_scheme outcome" where
  "kinit1 vstart vend s = freerange vstart vend (s\<lparr>use_lock := False\<rparr>)"

definition kinit2 :: "u32 \<Rightarrow> u32 \<Rightarrow> 'a kmem_state_scheme \<Rightarrow> 'a kmem_state_scheme outcome" where
  "kinit2 vstart vend s =
     obind (freerange vstart vend s) (\<lambda>s. Ret (s\<lparr>use_lock := True\<rparr>))"

section \<open>The free list\<close>

text \<open>Pages the allocator may hand out: aligned, above the kernel, below \<open>PHYSTOP\<close>.\<close>

definition page_ok :: "'a kmem_state_scheme \<Rightarrow> u32 \<Rightarrow> bool" where
  "page_ok s p \<longleftrightarrow> pg_aligned p \<and> kend s \<le> p \<and> V2P p < PHYSTOP"

primrec free_path :: "memory \<Rightarrow> u32 \<Rightarrow> u32 list \<Rightarrow> bool" where
  "free_path m p [] \<longleftrightarrow> p = 0"
| "free_path m p (q # qs) \<longleftrightarrow> p = q \<and> q \<noteq> 0 \<and> free_path m (ld32 m q) qs"

definition kmem_inv :: "'a kmem_state_scheme \<Rightarrow> u32 list \<Rightarrow> bool" where
  "kmem_inv s ps \<longleftrightarrow>
     free_path (mem s) (freelist s) ps \<and> distinct ps \<and> (\<forall>p \<in> set ps. page_ok s p)"

lemma page_ok_nonzero: "page_ok s p \<Longrightarrow> p \<noteq> 0"
  by (auto simp: page_ok_def V2P_def)

lemma page_ok_aligned: "page_ok s p \<Longrightarrow> pg_aligned p"
  by (simp add: page_ok_def)

lemma free_path_unique: "free_path m p ps \<Longrightarrow> free_path m p qs \<Longrightarrow> ps = qs"
proof (induction ps arbitrary: p qs)
  case Nil
  then show ?case by (cases qs) auto
next
  case (Cons a ps)
  then show ?case by (cases qs) auto
qed

lemma free_path_cong:
  assumes "free_path m p ps" "\<And>q. q \<in> set ps \<Longrightarrow> ld32 m' q = ld32 m q"
  shows "free_path m' p ps"
  using assms by (induction ps arbitrary: p) auto

lemma kmem_inv_write:
  assumes "kmem_inv s ps" "\<And>x. pgno x \<in> pgno ` set ps \<Longrightarrow> m x = mem s x"
  shows "kmem_inv (s\<lparr>mem := m\<rparr>) ps"
proof -
  have "ld32 m q = ld32 (mem s) q" if "q \<in> set ps" for q
    using that assms
    by (intro ld32_page_cong) (auto simp: kmem_inv_def page_ok_def pg_aligned_word_aligned)
  with assms(1) show ?thesis
    by (auto simp: kmem_inv_def page_ok_def intro: free_path_cong)
qed

lemma mod_PGSIZE_iff: "v mod 4096 = 0 \<longleftrightarrow> pg_aligned v" for v :: u32
proof -
  have "unat (v mod 4096) = unat v mod 4096" by (simp add: unat_mod_distrib)
  then show ?thesis by (metis pg_aligned_def unat_0_iff)
qed

lemma kfree_page_ok:
  "page_ok s p \<Longrightarrow>
     kfree p s = Ret (s\<lparr>mem := st32 (memset (mem s) p 1 4096) p (freelist s), freelist := p\<rparr>)"
  by (auto simp: kfree_def page_ok_def mod_PGSIZE_iff)

lemma kfree_iff: "(\<exists>s'. kfree p s = Ret s') \<longleftrightarrow> page_ok s p"
  by (auto simp: kfree_def page_ok_def mod_PGSIZE_iff not_less not_le)

lemma kfree_mem:
  assumes "page_ok s p" "pgno x \<noteq> pgno p"
  shows "st32 (memset (mem s) p 1 4096) p w x = mem s x"
proof -
  have "st32 (memset (mem s) p 1 4096) p w x = memset (mem s) p 1 4096 x"
    using assms by (intro st32_off_page) (auto simp: page_ok_def pg_aligned_word_aligned)
  then show ?thesis using assms by (simp add: memset_page page_ok_aligned)
qed

lemma kfree_spec:
  assumes "kmem_inv s ps" "page_ok s p" "p \<notin> set ps"
  shows "\<exists>s'. kfree p s = Ret s' \<and> kmem_inv s' (p # ps) \<and>
    (\<forall>x. pgno x \<noteq> pgno p \<longrightarrow> mem s' x = mem s x)"
proof -
  let ?m = "st32 (memset (mem s) p 1 4096) p (freelist s)"
  have off: "pgno q \<noteq> pgno p" if "q \<in> set ps" for q
    using that assms pg_aligned_eqI unfolding kmem_inv_def page_ok_def by metis
  have "kmem_inv (s\<lparr>mem := ?m\<rparr>) ps"
    using assms off by (intro kmem_inv_write) (auto simp: kfree_mem)
  then have "kmem_inv (s\<lparr>mem := ?m, freelist := p\<rparr>) (p # ps)"
    using assms page_ok_nonzero [OF assms(2)] by (auto simp: kmem_inv_def page_ok_def)
  then show ?thesis
    using assms(2) by (auto simp: kfree_page_ok kfree_mem)
qed

lemma kalloc_Cons:
  "kmem_inv s (p # ps) \<Longrightarrow> kalloc s = (p, s\<lparr>freelist := ld32 (mem s) p\<rparr>)"
  by (auto simp: kmem_inv_def kalloc_def)

lemma kalloc_Cons_inv: "kmem_inv s (p # ps) \<Longrightarrow> kmem_inv (s\<lparr>freelist := ld32 (mem s) p\<rparr>) ps"
  by (auto simp: kmem_inv_def page_ok_def)

lemma kalloc_Nil: "kmem_inv s [] \<Longrightarrow> kalloc s = (0, s)"
  by (simp add: kmem_inv_def kalloc_def)

lemma kalloc_frame [simp]:
  "mem (snd (kalloc s)) = mem s" "kend (snd (kalloc s)) = kend s"
  by (simp_all add: kalloc_def Let_def)

section \<open>The interface its clients use\<close>

text \<open>
  What the page-table, process and pipe code rely on: \<open>pool s ps\<close> says that \<open>ps\<close> are
  the free pages, in the order in which they will be handed out. \<open>memo\<close> reads the
  contents of memory and \<open>wr\<close> replaces it.
\<close>

locale page_allocator =
  fixes alloc :: "'s \<Rightarrow> u32 \<times> 's"
    and free :: "u32 \<Rightarrow> 's \<Rightarrow> 's outcome"
    and pool :: "'s \<Rightarrow> u32 list \<Rightarrow> bool"
    and usable :: "'s \<Rightarrow> u32 \<Rightarrow> bool"
    and memo :: "'s \<Rightarrow> memory"
    and wr :: "memory \<Rightarrow> 's \<Rightarrow> 's"
  assumes pool_distinct: "pool s ps \<Longrightarrow> distinct ps"
    and pool_usable: "pool s ps \<Longrightarrow> p \<in> set ps \<Longrightarrow> usable s p"
    and usable_page: "usable s p \<Longrightarrow> pg_aligned p \<and> p \<noteq> 0"
    and alloc_empty: "pool s [] \<Longrightarrow> alloc s = (0, s)"
    and alloc_page: "pool s (p # ps) \<Longrightarrow>
      \<exists>s'. alloc s = (p, s') \<and> pool s' ps \<and> memo s' = memo s \<and> usable s' = usable s"
    and free_page: "pool s ps \<Longrightarrow> usable s p \<Longrightarrow> p \<notin> set ps \<Longrightarrow>
      \<exists>s'. free p s = Ret s' \<and> pool s' (p # ps) \<and> usable s' = usable s \<and>
        (\<forall>x. pgno x \<noteq> pgno p \<longrightarrow> memo s' x = memo s x)"
    and pool_wr: "pool s ps \<Longrightarrow> (\<And>x. pgno x \<in> pgno ` set ps \<Longrightarrow> m x = memo s x) \<Longrightarrow>
      pool (wr m s) ps"
begin

text \<open>Taking \<open>n\<close> pages in a row.\<close>

primrec allocs :: "nat \<Rightarrow> 's \<Rightarrow> u32 list \<times> 's" where
  "allocs 0 s = ([], s)"
| "allocs (Suc n) s = (let (p, s) = alloc s; (ps, s) = allocs n s in (p # ps, s))"

lemma alloc_zero_iff: "pool s ps \<Longrightarrow> fst (alloc s) = 0 \<longleftrightarrow> ps = []"
  by (cases ps) (use alloc_empty alloc_page pool_usable usable_page in fastforce)+

lemma allocs_take:
  "pool s ps \<Longrightarrow> n \<le> length ps \<Longrightarrow>
     \<exists>s'. allocs n s = (take n ps, s') \<and> pool s' (drop n ps) \<and> memo s' = memo s"
proof (induction n arbitrary: s ps)
  case (Suc n)
  then obtain p qs where ps: "ps = p # qs" by (cases ps) auto
  with Suc.prems obtain s1 where s1: "alloc s = (p, s1)" "pool s1 qs" "memo s1 = memo s"
    using alloc_page by blast
  with Suc.IH [of s1 qs] Suc.prems ps show ?case by fastforce
qed simp

lemma allocs_distinct: "pool s ps \<Longrightarrow> n \<le> length ps \<Longrightarrow> distinct (fst (allocs n s))"
  using allocs_take [of s ps n] pool_distinct [of s ps] by auto

lemma free_then_alloc:
  assumes "pool s ps" "usable s p" "p \<notin> set ps"
  shows "\<exists>s' s''. free p s = Ret s' \<and> alloc s' = (p, s'') \<and> pool s'' ps"
  using free_page [OF assms] alloc_page by blast

end

interpretation kpages: page_allocator kalloc kfree kmem_inv page_ok mem "\<lambda>m s. s\<lparr>mem := m\<rparr>"
proof (unfold_locales, goal_cases)
  case (5 s p ps)
  then show ?case by (auto simp: kalloc_Cons kalloc_Cons_inv page_ok_def fun_eq_iff)
next
  case (6 s ps p)
  then obtain s' where "kfree p s = Ret s'" "kmem_inv s' (p # ps)"
    "\<forall>x. pgno x \<noteq> pgno p \<longrightarrow> mem s' x = mem s x" using kfree_spec by blast
  moreover from 6 this(1) have "page_ok s' = page_ok s"
    by (auto simp: kfree_page_ok page_ok_def fun_eq_iff)
  ultimately show ?case by blast
next
  case (7 s ps m)
  then show ?case by (rule kmem_inv_write)
qed (auto simp: kmem_inv_def page_ok_aligned page_ok_nonzero kalloc_Nil)

section \<open>Building the pool\<close>

definition page_run :: "u32 \<Rightarrow> nat \<Rightarrow> u32 list" where
  "page_run p n = map (\<lambda>i. p + 4096 * of_nat i) [0..<n]"

lemma page_run_0 [simp]: "page_run p 0 = []"
  by (simp add: page_run_def)

lemma page_run_Suc [simp]: "page_run p (Suc n) = p # page_run (p + 4096) n"
  by (simp add: page_run_def map_upt_Suc add.assoc distrib_left del: upt_Suc)

lemma freerange_loop_spec:
  assumes "kmem_inv s ps" "unat vend < unat p + 4096 * Suc n" "unat p + 4096 * n \<le> unat vend"
    "unat vend \<le> 0x8E000000" "kend s \<le> p" "0x80000000 \<le> p" "pg_aligned p"
    "\<And>q. q \<in> set ps \<Longrightarrow> q < p"
  shows "\<exists>s'. freerange_loop p vend s = Ret s' \<and> kmem_inv s' (rev (page_run p n) @ ps) \<and> kend s' = kend s"
  using assms
proof (induction n arbitrary: p s ps)
  case 0
  then have "unat (p + 4096) = unat p + 4096" using unat_add_lem [of p 4096] by simp
  with 0 have "\<not> p + 4096 \<le> vend" by (simp add: word_le_nat_alt)
  with 0 show ?case by (simp add: freerange_loop.simps [of p])
next
  case (Suc n)
  have lt: "unat p + 4096 \<le> 0x8E000000" using Suc.prems by simp
  then have up: "unat (p + 4096) = unat p + 4096" using unat_add_lem [of p 4096] by simp
  have ok: "page_ok s p"
    using Suc.prems lt by (simp add: page_ok_def V2P_def word_less_nat_alt word_le_nat_alt unat_sub_if')
  have "p \<notin> set ps" using Suc.prems(8) by auto
  from kpages.free_page [OF Suc.prems(1) ok this] obtain s1 where
    s1: "kfree p s = Ret s1" "kmem_inv s1 (p # ps)" and usable: "page_ok s1 = page_ok s" by blast
  have kend1: "kend s1 = kend s" using s1(1) ok by (auto simp: kfree_page_ok)
  have "\<exists>s'. freerange_loop (p + 4096) vend s1 = Ret s' \<and>
      kmem_inv s' (rev (page_run (p + 4096) n) @ p # ps) \<and> kend s' = kend s1"
  proof (rule Suc.IH)
    fix q assume "q \<in> set (p # ps)"
    then show "q < p + 4096"
      using Suc.prems(8) [of q] up by (auto simp: word_less_nat_alt)
  qed (use Suc.prems s1 up kend1 in \<open>auto simp: word_le_nat_alt pg_aligned_add_page\<close>)
  moreover have "p + 4096 \<le> vend" using Suc.prems up by (simp add: word_le_nat_alt)
  ultimately show ?case by (simp add: freerange_loop.simps [of p] s1 kend1)
qed

section \<open>Claims\<close>

text \<open>
  C11: the allocator is a stack of distinct, page-aligned pages above the kernel. Freeing a
  page that is in use never panics and puts it on the list; the next \<open>kalloc\<close> returns that
  page and restores the list; no page that is not being freed changes its contents.
\<close>

theorem kfree_kalloc_pool:
  assumes "kmem_inv s ps" "page_ok s p" "p \<notin> set ps"
  shows "\<exists>s' s''. kfree p s = Ret s' \<and> kmem_inv s' (p # ps) \<and>
    (\<forall>x. pgno x = pgno p \<or> mem s' x = mem s x) \<and> kalloc s' = (p, s'') \<and> kmem_inv s'' ps"
  using kpages.free_page [OF assms] kpages.alloc_page by metis

text \<open>
  C14: \<open>kalloc\<close> fails exactly when no page is free, and \<open>n\<close> successive calls return
  \<open>n\<close> different usable pages.
\<close>

theorem kalloc_distinct:
  assumes "kmem_inv s ps"
  shows "(fst (kalloc s) = 0 \<longleftrightarrow> ps = []) \<and>
    (n \<le> length ps \<longrightarrow> fst (kpages.allocs n s) = take n ps \<and> distinct (take n ps) \<and>
       (\<forall>p \<in> set (take n ps). page_ok s p))"
  using kpages.alloc_zero_iff [OF assms] kpages.allocs_take [OF assms, of n]
    kpages.allocs_distinct [OF assms, of n] kpages.pool_usable [OF assms]
  by (auto dest: in_set_takeD)

text \<open>
  C17: \<open>freerange\<close> (and so \<open>kinit1\<close> and \<open>kinit2\<close>) puts exactly the whole pages of the
  range on the free list, last page first, and never panics on a range of kernel memory.
\<close>

theorem freerange_pages:
  assumes "kmem_inv s ps" "p = PGROUNDUP vstart" "unat p + 4096 * n \<le> unat vend"
    "unat vend < unat p + 4096 * Suc n" "unat vend \<le> 0x8E000000" "kend s \<le> p" "0x80000000 \<le> p"
    "\<And>q. q \<in> set ps \<Longrightarrow> q < p"
  shows "\<exists>s'. freerange vstart vend s = Ret s' \<and> kmem_inv s' (rev (page_run p n) @ ps)"
  using freerange_loop_spec [of s ps vend p n] assms by (auto simp: freerange_def)

definition boot_kmem :: kmem_state where
  "boot_kmem = \<lparr>mem = (\<lambda>_. 0), freelist = 0, use_lock = False, kend = 0x80110000\<rparr>"

lemma boot_kmem_inv: "kmem_inv boot_kmem []"
  by (simp add: kmem_inv_def boot_kmem_def)

lemma boot_page_ok: "page_ok boot_kmem 0x80200000"
  by (simp add: page_ok_def boot_kmem_def V2P_def pg_aligned_def)

theorem kfree_kalloc_pool_witness:
  "\<exists>s' s''. kfree 0x80200000 boot_kmem = Ret s' \<and> kmem_inv s' [0x80200000] \<and>
    (\<forall>x. pgno x = pgno 0x80200000 \<or> mem s' x = mem boot_kmem x) \<and>
    kalloc s' = (0x80200000, s'') \<and> kmem_inv s'' []"
  using kfree_kalloc_pool [OF boot_kmem_inv boot_page_ok] by simp

lemma page_run_two: "page_run 0x80110000 2 = [0x80110000, 0x80111000]"
  by (simp add: page_run_def numeral_2_eq_2)

theorem freerange_pages_witness:
  "\<exists>s'. freerange 0x80110000 0x80112800 boot_kmem = Ret s' \<and>
     kmem_inv s' [0x80111000, 0x80110000]"
proof -
  have "PGROUNDUP 0x80110000 = 0x80110000" by (simp add: PGROUNDUP_def)
  then show ?thesis
    using freerange_pages [OF boot_kmem_inv, of "0x80110000" "0x80110000" 2 "0x80112800"]
    by (simp add: boot_kmem_def page_run_two)
qed

theorem kalloc_distinct_witness:
  "\<exists>s :: kmem_state. kmem_inv s [0x80111000, 0x80110000] \<and> fst (kpages.allocs 2 s) = [0x80111000, 0x80110000]"
proof -
  obtain s :: kmem_state where "kmem_inv s [0x80111000, 0x80110000]"
    using freerange_loop_spec [OF boot_kmem_inv, of "0x80112800" "0x80110000" 2]
    by (auto simp: boot_kmem_def page_run_two pg_aligned_def)
  then show ?thesis using kalloc_distinct [of s _ 2] by (intro exI [of _ s]) fastforce
qed

end
