(* ===== verification/Vm.thy ===== *)
theory Vm
  imports Kalloc
begin

text \<open>
  Page tables, \<^verbatim>\<open>vm.c\<close>. A page directory is a page of 1024 entries; an entry marked
  present points to a page-table page of 1024 entries. Both live in physical memory and
  are read and written word by word, exactly where the code does. Page-table pages and
  user pages come from \<open>kalloc\<close>. Memory is indexed by the virtual address the kernel
  uses: addresses from \<open>KERNBASE\<close> on are the direct map of physical memory.
  \<open>kdata\<close> is the linker symbol \<open>data\<close>. The loops over an address range get one unit
  of fuel per page of the address space, which is more than any range needs. Messages printed
  on the console are not part of the state.
\<close>

section \<open>State and operations\<close>

record vm_state = kmem_state +
  kpgdir :: u32
  kdata :: u32

definition walkpgdir ::
  "u32 \<Rightarrow> u32 \<Rightarrow> bool \<Rightarrow> 'a kmem_state_scheme \<Rightarrow> u32 \<times> 'a kmem_state_scheme" where
  "walkpgdir pgdir va alloc s =
     (let pde = pgdir + 4 * PDX va in
      if ld32 (mem s) pde AND PTE_P \<noteq> 0
      then (P2V (PTE_ADDR (ld32 (mem s) pde)) + 4 * PTX va, s)
      else if \<not> alloc then (0, s)
      else let (pgtab, s) = kalloc s in
        if pgtab = 0 then (0, s)
        else let m = memset (mem s) pgtab 0 PGSIZE;
                 m = st32 m pde (V2P pgtab OR PTE_P OR PTE_W OR PTE_U)
             in (pgtab + 4 * PTX va, s\<lparr>mem := m\<rparr>))"

definition PAGES :: nat where
  "PAGES = 2 ^ 20"

primrec mappages_loop ::
  "nat \<Rightarrow> u32 \<Rightarrow> u32 \<Rightarrow> u32 \<Rightarrow> u32 \<Rightarrow> u32 \<Rightarrow> 'a kmem_state_scheme \<Rightarrow> (int \<times> 'a kmem_state_scheme) outcome"
where
  "mappages_loop 0 pgdir a end_a pa perm s = Diverged"
| "mappages_loop (Suc fuel) pgdir a end_a pa perm s =
     (let (pte, s) = walkpgdir pgdir a True s in
      if pte = 0 then Ret (-1, s)
      else if ld32 (mem s) pte AND PTE_P \<noteq> 0 then Panic ''remap''
      else let s = s\<lparr>mem := st32 (mem s) pte (pa OR perm OR PTE_P)\<rparr> in
        if a = end_a then Ret (0, s)
        else mappages_loop fuel pgdir (a + PGSIZE) end_a (pa + PGSIZE) perm s)"

definition mappages ::
  "u32 \<Rightarrow> u32 \<Rightarrow> u32 \<Rightarrow> u32 \<Rightarrow> u32 \<Rightarrow> 'a kmem_state_scheme \<Rightarrow> (int \<times> 'a kmem_state_scheme) outcome"
where
  "mappages pgdir va sz pa perm s =
     (let a = PGROUNDDOWN va; last = PGROUNDDOWN (va + sz - 1)
      in mappages_loop PAGES pgdir a last pa perm s)"

primrec deallocuvm_loop ::
  "nat \<Rightarrow> u32 \<Rightarrow> u32 \<Rightarrow> u32 \<Rightarrow> 'a kmem_state_scheme \<Rightarrow> 'a kmem_state_scheme outcome"
where
  "deallocuvm_loop 0 pgdir oldsz a s = Diverged"
| "deallocuvm_loop (Suc fuel) pgdir oldsz a s =
     (if a < oldsz then
        let pte = fst (walkpgdir pgdir a False s) in
        if pte = 0 then deallocuvm_loop fuel pgdir oldsz (PGADDR (PDX a + 1) 0 0 - PGSIZE + PGSIZE) s
        else if ld32 (mem s) pte AND PTE_P \<noteq> 0 then
          let pa = PTE_ADDR (ld32 (mem s) pte) in
          if pa = 0 then Panic ''kfree''
          else obind (kfree (P2V pa) s) (\<lambda>s.
            deallocuvm_loop fuel pgdir oldsz (a + PGSIZE) (s\<lparr>mem := st32 (mem s) pte 0\<rparr>))
        else deallocuvm_loop fuel pgdir oldsz (a + PGSIZE) s
      else Ret s)"

definition deallocuvm ::
  "u32 \<Rightarrow> u32 \<Rightarrow> u32 \<Rightarrow> 'a kmem_state_scheme \<Rightarrow> (u32 \<times> 'a kmem_state_scheme) outcome"
where
  "deallocuvm pgdir oldsz newsz s =
     (if newsz \<ge> oldsz then Ret (oldsz, s)
      else obind (deallocuvm_loop PAGES pgdir oldsz (PGROUNDUP newsz) s) (\<lambda>s. Ret (newsz, s)))"

primrec allocuvm_loop ::
  "nat \<Rightarrow> u32 \<Rightarrow> u32 \<Rightarrow> u32 \<Rightarrow> u32 \<Rightarrow> 'a kmem_state_scheme \<Rightarrow> (u32 \<times> 'a kmem_state_scheme) outcome"
where
  "allocuvm_loop 0 pgdir oldsz newsz a s = Diverged"
| "allocuvm_loop (Suc fuel) pgdir oldsz newsz a s =
     (if a < newsz then
        let (pg, s) = kalloc s in
        if pg = 0 then obind (deallocuvm pgdir newsz oldsz s) (\<lambda>(_, s). Ret (0, s))
        else let s = s\<lparr>mem := memset (mem s) pg 0 PGSIZE\<rparr> in
          obind (mappages pgdir a PGSIZE (V2P pg) (PTE_W OR PTE_U) s) (\<lambda>(r, s).
            if r < 0 then
              obind (deallocuvm pgdir newsz oldsz s) (\<lambda>(_, s).
              obind (kfree pg s) (\<lambda>s. Ret (0, s)))
            else allocuvm_loop fuel pgdir oldsz newsz (a + PGSIZE) s)
      else Ret (newsz, s))"

definition allocuvm ::
  "u32 \<Rightarrow> u32 \<Rightarrow> u32 \<Rightarrow> 'a kmem_state_scheme \<Rightarrow> (u32 \<times> 'a kmem_state_scheme) outcome"
where
  "allocuvm pgdir oldsz newsz s =
     (if newsz \<ge> KERNBASE then Ret (0, s)
      else if newsz < oldsz then Ret (oldsz, s)
      else allocuvm_loop PAGES pgdir oldsz newsz (PGROUNDUP oldsz) s)"

primrec freevm_tables ::
  "nat list \<Rightarrow> u32 \<Rightarrow> 'a kmem_state_scheme \<Rightarrow> 'a kmem_state_scheme outcome"
where
  "freevm_tables [] pgdir s = Ret s"
| "freevm_tables (i # is) pgdir s =
     (let pde = ld32 (mem s) (pgdir + 4 * of_nat i) in
      if pde AND PTE_P \<noteq> 0
      then obind (kfree (P2V (PTE_ADDR pde)) s) (\<lambda>s. freevm_tables is pgdir s)
      else freevm_tables is pgdir s)"

definition freevm :: "u32 \<Rightarrow> 'a kmem_state_scheme \<Rightarrow> 'a kmem_state_scheme outcome" where
  "freevm pgdir s =
     (if pgdir = 0 then Panic ''freevm: no pgdir''
      else obind (deallocuvm pgdir KERNBASE 0 s) (\<lambda>(_, s).
        obind (freevm_tables [0..<NPDENTRIES] pgdir s) (\<lambda>s. kfree pgdir s)))"

text \<open>Each entry of \<open>kmap\<close>: virtual address, physical start and end, permissions.\<close>

definition kmap :: "u32 \<Rightarrow> (u32 \<times> u32 \<times> u32 \<times> u32) list" where
  "kmap data =
     [(KERNBASE, 0, EXTMEM, PTE_W),
      (KERNBASE + EXTMEM, V2P (KERNBASE + EXTMEM), V2P data, 0),
      (data, V2P data, PHYSTOP, PTE_W),
      (DEVSPACE, DEVSPACE, 0, PTE_W)]"

fun setupkvm_loop ::
  "(u32 \<times> u32 \<times> u32 \<times> u32) list \<Rightarrow> u32 \<Rightarrow> 'a kmem_state_scheme \<Rightarrow> (u32 \<times> 'a kmem_state_scheme) outcome"
where
  "setupkvm_loop [] pgdir s = Ret (pgdir, s)"
| "setupkvm_loop ((virt, phys_start, phys_end, perm) # ks) pgdir s =
     obind (mappages pgdir virt (phys_end - phys_start) phys_start perm s) (\<lambda>(r, s).
       if r < 0 then obind (freevm pgdir s) (\<lambda>s. Ret (0, s))
       else setupkvm_loop ks pgdir s)"

definition setupkvm :: "'a vm_state_scheme \<Rightarrow> (u32 \<times> 'a vm_state_scheme) outcome" where
  "setupkvm s =
     (let (pgdir, s) = kalloc s in
      if pgdir = 0 then Ret (0, s)
      else let s = s\<lparr>mem := memset (mem s) pgdir 0 PGSIZE\<rparr> in
        if P2V PHYSTOP > DEVSPACE then Panic ''PHYSTOP too high''
        else setupkvm_loop (kmap (kdata s)) pgdir s)"

definition inituvm ::
  "u32 \<Rightarrow> u32 \<Rightarrow> u32 \<Rightarrow> 'a kmem_state_scheme \<Rightarrow> 'a kmem_state_scheme outcome"
where
  "inituvm pgdir init sz s =
     (if sz \<ge> PGSIZE then Panic ''inituvm: more than a page''
      else let (pg, s) = kalloc s; s = s\<lparr>mem := memset (mem s) pg 0 PGSIZE\<rparr> in
        obind (mappages pgdir 0 PGSIZE (V2P pg) (PTE_W OR PTE_U) s) (\<lambda>(_, s).
          Ret (s\<lparr>mem := memmove (mem s) pg init sz\<rparr>)))"

definition clearpteu ::
  "u32 \<Rightarrow> u32 \<Rightarrow> 'a kmem_state_scheme \<Rightarrow> 'a kmem_state_scheme outcome"
where
  "clearpteu pgdir uva s =
     (let pte = fst (walkpgdir pgdir uva False s) in
      if pte = 0 then Panic ''clearpteu''
      else Ret (s\<lparr>mem := st32 (mem s) pte (ld32 (mem s) pte AND NOT PTE_U)\<rparr>))"

primrec copyuvm_loop ::
  "nat \<Rightarrow> u32 \<Rightarrow> u32 \<Rightarrow> u32 \<Rightarrow> u32 \<Rightarrow> 'a kmem_state_scheme \<Rightarrow> (u32 \<times> 'a kmem_state_scheme) outcome"
where
  "copyuvm_loop 0 pgdir d sz i s = Diverged"
| "copyuvm_loop (Suc fuel) pgdir d sz i s =
     (if i < sz then
        let pte = fst (walkpgdir pgdir i False s) in
        if pte = 0 then Panic ''copyuvm: pte should exist''
        else if ld32 (mem s) pte AND PTE_P = 0 then Panic ''copyuvm: page not present''
        else
          let pa = PTE_ADDR (ld32 (mem s) pte); flags = PTE_FLAGS (ld32 (mem s) pte);
              (pg, s) = kalloc s in
          if pg = 0 then obind (freevm d s) (\<lambda>s. Ret (0, s))
          else let s = s\<lparr>mem := memmove (mem s) pg (P2V pa) PGSIZE\<rparr> in
            obind (mappages d i PGSIZE (V2P pg) flags s) (\<lambda>(r, s).
              if r < 0 then obind (freevm d s) (\<lambda>s. Ret (0, s))
              else copyuvm_loop fuel pgdir d sz (i + PGSIZE) s)
      else Ret (d, s))"

definition copyuvm :: "u32 \<Rightarrow> u32 \<Rightarrow> 'a vm_state_scheme \<Rightarrow> (u32 \<times> 'a vm_state_scheme) outcome" where
  "copyuvm pgdir sz s =
     obind (setupkvm s) (\<lambda>(d, s). if d = 0 then Ret (0, s) else copyuvm_loop PAGES pgdir d sz 0 s)"

text \<open>\<open>uva2ka\<close> does not test the entry pointer for NULL before reading through it.\<close>

definition uva2ka :: "u32 \<Rightarrow> u32 \<Rightarrow> 'a kmem_state_scheme \<Rightarrow> u32" where
  "uva2ka pgdir uva s =
     (let e = ld32 (mem s) (fst (walkpgdir pgdir uva False s)) in
      if e AND PTE_P = 0 then 0
      else if e AND PTE_U = 0 then 0
      else P2V (PTE_ADDR e))"

lemma unat_page_rest: "unat (va - PGROUNDDOWN va) = unat va mod 4096"
proof -
  have "unat (PGROUNDDOWN va) \<le> unat va" by (simp add: unat_PGROUNDDOWN)
  then show ?thesis by (simp add: unat_sub_if' unat_PGROUNDDOWN minus_div_mult_eq_mod)
qed

function copyout ::
  "u32 \<Rightarrow> u32 \<Rightarrow> u32 \<Rightarrow> u32 \<Rightarrow> 'a kmem_state_scheme \<Rightarrow> int \<times> 'a kmem_state_scheme"
where
  "copyout pgdir va buf len s =
     (if len > 0 then
        let va0 = PGROUNDDOWN va; pa0 = uva2ka pgdir va0 s in
        if pa0 = 0 then (-1, s)
        else let n = PGSIZE - (va - va0); n = (if n > len then len else n) in
          copyout pgdir (va0 + PGSIZE) (buf + n) (len - n)
            (s\<lparr>mem := memmove (mem s) (pa0 + (va - va0)) buf n\<rparr>)
      else (0, s))"
  by pat_completeness auto
termination
proof (relation "measure (\<lambda>(pgdir, va, buf, len, s). unat len)", goal_cases)
  case (2 pgdir va buf len s va0 pa0 n n')
  have "unat n = 4096 - unat va mod 4096"
    using 2(2,5) unat_page_rest [of va] mod_less_divisor [of 4096 "unat va"]
    by (simp add: unat_sub_if')
  moreover have "unat va mod 4096 < 4096" by simp
  ultimately have "0 < unat n" by linarith
  with 2(1,6) have "n' \<le> len" "0 < unat n'" by (auto simp: word_less_nat_alt not_less word_le_nat_alt)
  then have "unat (len - n') < unat len" by (simp add: word_le_nat_alt unat_sub_if')
  then show ?case by simp
qed simp

declare copyout.simps [simp del]

section \<open>Indices and cells\<close>

definition cell :: "u32 \<Rightarrow> nat \<Rightarrow> u32" where
  "cell p k = p + of_nat (4 * k)"

lemma unat_PDX: "unat (PDX va) = unat va div 4194304"
proof -
  have "PDX va = take_bit 10 (drop_bit 22 va)"
    by (simp add: PDX_def take_bit_eq_mask mask_eq_exp_minus_1)
  also have "\<dots> = drop_bit 22 va"
    by (rule bit_word_eqI) (auto simp: bit_simps dest: bit_imp_le_length)
  finally show ?thesis by (simp add: drop_bit_eq_div unat_div_distrib)
qed

lemma unat_PTX: "unat (PTX va) = unat va div 4096 mod 1024"
proof -
  have "PTX va = take_bit 10 (drop_bit 12 va)"
    by (simp add: PTX_def take_bit_eq_mask mask_eq_exp_minus_1)
  then show ?thesis by (simp add: drop_bit_eq_div take_bit_eq_mod unat_div_distrib unat_mod_distrib)
qed

lemma unat_PDX_bound [simp]: "unat (PDX va) < 1024"
  using unsigned_less [of va, where ?'a = nat] by (simp add: unat_PDX less_mult_imp_div_less)

lemma unat_PTX_bound [simp]: "unat (PTX va) < 1024"
  by (simp add: unat_PTX)

lemma PDX_PTX_eq: "PDX va = PDX vb \<and> PTX va = PTX vb \<longleftrightarrow> pgno va = pgno vb"
proof -
  have d: "x div 4194304 = x div 4096 div 1024" for x :: nat by (simp flip: div_mult2_eq)
  have pd: "unat (PDX v) = pgno v div 1024" and pt: "unat (PTX v) = pgno v mod 1024" for v
    by (simp_all add: unat_PDX unat_PTX pgno_def d)
  have "PDX va = PDX vb \<and> PTX va = PTX vb \<longleftrightarrow>
      pgno va div 1024 = pgno vb div 1024 \<and> pgno va mod 1024 = pgno vb mod 1024"
    by (simp add: word_unat_eq_iff pd pt)
  then show ?thesis by (metis mult_div_mod_eq)
qed

lemma cell_PDX: "pgdir + 4 * PDX va = cell pgdir (unat (PDX va))"
  by (simp add: cell_def)

lemma cell_PTX: "pgtab + 4 * PTX va = cell pgtab (unat (PTX va))"
  by (simp add: cell_def)

lemma unat_cell: "pg_aligned p \<Longrightarrow> k < 1024 \<Longrightarrow> unat (cell p k) = unat p + 4 * k"
  unfolding cell_def by (rule unat_page_offset) auto

lemma word_aligned_cell [simp]: "pg_aligned p \<Longrightarrow> k < 1024 \<Longrightarrow> word_aligned (cell p k)"
  using pg_aligned_word_aligned [of p] by (simp add: word_aligned_def unat_cell)

lemma pgno_cell [simp]: "pg_aligned p \<Longrightarrow> k < 1024 \<Longrightarrow> pgno (cell p k) = pgno p"
  unfolding cell_def by (rule pgno_offset) auto

lemma cell_inj:
  assumes "pg_aligned p" "pg_aligned q" "k < 1024" "l < 1024"
  shows "cell p k = cell q l \<longleftrightarrow> p = q \<and> k = l"
proof
  assume eq: "cell p k = cell q l"
  then have "pgno p = pgno q" using assms pgno_cell by metis
  then have "p = q" using assms pg_aligned_eqI by blast
  then show "p = q \<and> k = l" using eq assms unat_cell by (metis add_left_imp_eq mult_left_cancel zero_neq_numeral)
qed simp

lemma cell_nonzero: "page_ok s p \<Longrightarrow> k < 1024 \<Longrightarrow> cell p k \<noteq> 0"
  using unat_cell [of p k] page_ok_nonzero [of s p] unat_eq_0 [of p]
  by (metis add_is_0 page_ok_aligned unat_0)

section \<open>What a page table maps\<close>

definition pde_of :: "memory \<Rightarrow> u32 \<Rightarrow> nat \<Rightarrow> u32" where
  "pde_of m pgdir k = ld32 m (cell pgdir k)"

definition has_table :: "memory \<Rightarrow> u32 \<Rightarrow> nat \<Rightarrow> bool" where
  "has_table m pgdir k \<longleftrightarrow> pde_of m pgdir k AND PTE_P \<noteq> 0"

definition table_of :: "memory \<Rightarrow> u32 \<Rightarrow> nat \<Rightarrow> u32" where
  "table_of m pgdir k = P2V (PTE_ADDR (pde_of m pgdir k))"

definition pte_at :: "memory \<Rightarrow> u32 \<Rightarrow> u32 \<Rightarrow> u32" where
  "pte_at m pgdir va = cell (table_of m pgdir (unat (PDX va))) (unat (PTX va))"

text \<open>
  The entry the hardware finds for \<open>va\<close>, zero when there is no page-table page for it.
\<close>

definition lookup :: "memory \<Rightarrow> u32 \<Rightarrow> u32 \<Rightarrow> u32" where
  "lookup m pgdir va =
     (if has_table m pgdir (unat (PDX va)) then ld32 m (pte_at m pgdir va) else 0)"

text \<open>
  A well-formed page directory: it and its page-table pages are allocator pages that are
  not free, and no page serves twice.
\<close>

definition wf_pgdir :: "'a kmem_state_scheme \<Rightarrow> u32 \<Rightarrow> u32 list \<Rightarrow> bool" where
  "wf_pgdir s pgdir ps \<longleftrightarrow>
     page_ok s pgdir \<and> pgdir \<notin> set ps \<and>
     (\<forall>k < 1024. has_table (mem s) pgdir k \<longrightarrow>
        page_ok s (table_of (mem s) pgdir k) \<and> table_of (mem s) pgdir k \<notin> set ps \<and>
        table_of (mem s) pgdir k \<noteq> pgdir) \<and>
     (\<forall>k < 1024. \<forall>l < 1024. has_table (mem s) pgdir k \<longrightarrow> has_table (mem s) pgdir l \<longrightarrow>
        table_of (mem s) pgdir k = table_of (mem s) pgdir l \<longrightarrow> k = l)"

lemma page_ok_pgno: "page_ok s p \<Longrightarrow> page_ok s q \<Longrightarrow> pgno p = pgno q \<longleftrightarrow> p = q"
  using pg_aligned_eqI page_ok_aligned by blast

lemma walkpgdir_False:
  "walkpgdir pgdir va False s =
     (if has_table (mem s) pgdir (unat (PDX va)) then pte_at (mem s) pgdir va else 0, s)"
  by (simp add: walkpgdir_def Let_def has_table_def pde_of_def table_of_def pte_at_def
      cell_PDX cell_PTX)

lemma pg_aligned_bit: "pg_aligned p \<Longrightarrow> n < 12 \<Longrightarrow> \<not> bit p n"
proof -
  assume "pg_aligned p" and n: "n < 12"
  then have "unat (p AND 0xFFF) = 0" by (simp add: unat_and_FFF pg_aligned_def)
  then have "take_bit 12 p = 0"
    by (simp add: take_bit_eq_mask mask_eq_exp_minus_1 unat_eq_0)
  then have "\<not> bit (take_bit 12 p) n" by simp
  with n show ?thesis by (simp add: bit_take_bit_iff)
qed

lemma small_bit: "f AND 0xFFF = f \<Longrightarrow> 12 \<le> n \<Longrightarrow> \<not> bit f n" for f :: u32
proof -
  assume f: "f AND 0xFFF = f" and n: "12 \<le> n"
  have "f AND 0xFFF = take_bit 12 f" by (simp add: take_bit_eq_mask mask_eq_exp_minus_1)
  with f have "bit f n = bit (take_bit 12 f) n" by simp
  with n show ?thesis by (simp add: bit_take_bit_iff)
qed

lemma PTE_ADDR_or: "pg_aligned p \<Longrightarrow> f AND 0xFFF = f \<Longrightarrow> PTE_ADDR (p OR f) = p"
proof (rule bit_word_eqI)
  fix n :: nat assume p: "pg_aligned p" and f: "f AND 0xFFF = f" and "n < LENGTH(32)"
  have m: "NOT 0xFFF = (NOT (mask 12) :: u32)" by (simp add: mask_eq_exp_minus_1)
  have "\<not> bit f n" if "12 \<le> n" using f that by (rule small_bit)
  with p \<open>n < _\<close> show "bit (PTE_ADDR (p OR f)) n = bit p n"
    unfolding PTE_ADDR_def m
    by (cases "n < 12") (auto simp: bit_simps pg_aligned_bit)
qed

lemma PTE_FLAGS_or: "pg_aligned p \<Longrightarrow> f AND 0xFFF = f \<Longrightarrow> PTE_FLAGS (p OR f) = f"
proof (rule bit_word_eqI)
  fix n :: nat assume p: "pg_aligned p" and f: "f AND 0xFFF = f" and "n < LENGTH(32)"
  have m: "0xFFF = (mask 12 :: u32)" by (simp add: mask_eq_exp_minus_1)
  have "\<not> bit f n" if "12 \<le> n" using f that by (rule small_bit)
  with p \<open>n < _\<close> show "bit (PTE_FLAGS (p OR f)) n = bit f n"
    unfolding PTE_FLAGS_def m
    by (cases "n < 12") (auto simp: bit_simps pg_aligned_bit)
qed

lemma pg_aligned_V2P: "pg_aligned p \<Longrightarrow> pg_aligned (V2P p)"
proof -
  assume "pg_aligned p"
  then obtain q where q: "unat p = 4096 * q" by (auto simp: pg_aligned_def)
  have "(2147483648 :: nat) = 4096 * 524288" "(4294967296 :: nat) = 4096 * 1048576" by simp_all
  then have "unat (V2P p) = 4096 * (q - 524288) \<or> unat (V2P p) = 4096 * (q + 1048576 - 524288)"
    unfolding V2P_def using q
    by (auto simp: unat_sub_if' diff_mult_distrib2 add_mult_distrib2)
  then show ?thesis unfolding pg_aligned_def by (metis mod_mult_self1_is_0)
qed

lemma odd_or_present: "(p OR f OR 1) AND 1 \<noteq> (0 :: u32)"
proof -
  have "bit ((p OR f OR 1) AND 1) 0" by (simp add: bit_simps)
  then show ?thesis by (metis bit_0_eq bot_apply bot_bool_def)
qed

text \<open>The entry that \<open>walkpgdir\<close> writes for a fresh page-table page.\<close>

lemma fresh_pde:
  assumes "page_ok s p"
  shows "(V2P p OR 1 OR 2 OR 4) AND 1 \<noteq> 0" "P2V (PTE_ADDR (V2P p OR 1 OR 2 OR 4)) = p"
proof -
  have seven: "V2P p OR 1 OR 2 OR 4 = V2P p OR 6 OR 1"
    by (simp add: or.assoc)
  show "(V2P p OR 1 OR 2 OR 4) AND 1 \<noteq> 0" unfolding seven by (rule odd_or_present)
  show "P2V (PTE_ADDR (V2P p OR 1 OR 2 OR 4)) = p"
    using PTE_ADDR_or [of "V2P p" 7] assms by (simp add: or.assoc page_ok_aligned pg_aligned_V2P)
qed

lemma wf_pgdirD:
  assumes "wf_pgdir s pgdir ps"
  shows "page_ok s pgdir" "pgdir \<notin> set ps"
    "\<And>k. k < 1024 \<Longrightarrow> has_table (mem s) pgdir k \<Longrightarrow> page_ok s (table_of (mem s) pgdir k)"
    "\<And>k. k < 1024 \<Longrightarrow> has_table (mem s) pgdir k \<Longrightarrow> table_of (mem s) pgdir k \<notin> set ps"
    "\<And>k. k < 1024 \<Longrightarrow> has_table (mem s) pgdir k \<Longrightarrow> table_of (mem s) pgdir k \<noteq> pgdir"
    "\<And>k l. k < 1024 \<Longrightarrow> l < 1024 \<Longrightarrow> has_table (mem s) pgdir k \<Longrightarrow> has_table (mem s) pgdir l \<Longrightarrow>
       table_of (mem s) pgdir k = table_of (mem s) pgdir l \<longleftrightarrow> k = l"
  using assms unfolding wf_pgdir_def by blast+

lemma pde_of_cong:
  assumes "page_ok s pgdir" "k < 1024" "\<And>x. pgno x = pgno pgdir \<Longrightarrow> m' x = m x"
  shows "pde_of m' pgdir k = pde_of m pgdir k"
  unfolding pde_of_def using assms by (intro ld32_page_cong) (auto simp: page_ok_aligned)

lemma wf_pgdir_cong:
  assumes wf: "wf_pgdir s pgdir ps" and m: "\<And>x. pgno x = pgno pgdir \<Longrightarrow> mem s' x = mem s x"
    and kend: "kend s' = kend s" and ps: "set ps' \<subseteq> set ps"
  shows "wf_pgdir s' pgdir ps'"
proof -
  have "pde_of (mem s') pgdir k = pde_of (mem s) pgdir k" if "k < 1024" for k
    using that m by (rule pde_of_cong [OF wf_pgdirD(1) [OF wf]])
  then have "has_table (mem s') pgdir k = has_table (mem s) pgdir k"
    "table_of (mem s') pgdir k = table_of (mem s) pgdir k" if "k < 1024" for k
    using that by (simp_all add: has_table_def table_of_def)
  moreover have "page_ok s' = page_ok s" using kend by (auto simp: page_ok_def fun_eq_iff)
  ultimately show ?thesis using wf ps unfolding wf_pgdir_def by auto
qed

lemma lookup_cong:
  assumes wf: "wf_pgdir s pgdir ps" and dir: "\<And>x. pgno x = pgno pgdir \<Longrightarrow> m' x = mem s x"
    and tab: "\<And>x. has_table (mem s) pgdir (unat (PDX va)) \<Longrightarrow>
      pgno x = pgno (table_of (mem s) pgdir (unat (PDX va))) \<Longrightarrow> m' x = mem s x"
  shows "lookup m' pgdir va = lookup (mem s) pgdir va"
proof -
  let ?k = "unat (PDX va)"
  have pde: "pde_of m' pgdir ?k = pde_of (mem s) pgdir ?k"
    using pde_of_cong [OF wf_pgdirD(1) [OF wf] _ dir] by simp
  show ?thesis
  proof (cases "has_table (mem s) pgdir ?k")
    case True
    then have ok: "page_ok s (table_of (mem s) pgdir ?k)" using wf_pgdirD(3) [OF wf] by simp
    have "ld32 m' (pte_at (mem s) pgdir va) = ld32 (mem s) (pte_at (mem s) pgdir va)"
      using tab [OF True] ok unfolding pte_at_def
      by (intro ld32_page_cong) (auto simp: page_ok_aligned)
    then show ?thesis
      using pde by (simp add: lookup_def has_table_def pte_at_def table_of_def)
  next
    case False
    then show ?thesis using pde by (simp add: lookup_def has_table_def)
  qed
qed

text \<open>
  A page-table page taken from the pool, cleared and entered in the directory: the map
  does not change, and the directory stays well formed.
\<close>

lemma fresh_table:
  assumes inv: "kmem_inv s (p # ps)" and wf: "wf_pgdir s pgdir (p # ps)"
    and none: "\<not> has_table (mem s) pgdir k" and k: "k < 1024"
  defines "m \<equiv> st32 (memset (mem s) p 0 4096) (cell pgdir k) (V2P p OR 1 OR 2 OR 4)"
  defines "s' \<equiv> s\<lparr>freelist := ld32 (mem s) p, mem := m\<rparr>"
  shows "kmem_inv s' ps" "wf_pgdir s' pgdir ps" "has_table m pgdir k" "table_of m pgdir k = p"
    "lookup m pgdir va = lookup (mem s) pgdir va"
    "pgno x \<noteq> pgno pgdir \<Longrightarrow> pgno x \<noteq> pgno p \<Longrightarrow> m x = mem s x"
proof -
  have okp: "page_ok s p" and pnew: "p \<notin> set ps"
    using inv by (auto simp: kmem_inv_def)
  have okd: "page_ok s pgdir" and dirp: "pgdir \<noteq> p" using wf_pgdirD(1,2) [OF wf] by auto
  have dir_p: "pgno pgdir \<noteq> pgno p" using okd okp dirp by (simp add: page_ok_pgno)
  have al: "word_aligned (cell pgdir k)" "pgno (cell pgdir k) = pgno pgdir"
    using okd k by (auto simp: page_ok_aligned)
  have off: "m x = (if pgno x = pgno p then 0 else mem s x)" if "pgno x \<noteq> pgno pgdir" for x
    using that al okp unfolding m_def
    by (simp add: st32_off_page memset_page page_ok_aligned)
  then have frame: "m x = mem s x" if "pgno x \<noteq> pgno pgdir" "pgno x \<noteq> pgno p" for x
    using that by simp
  then show "pgno x \<noteq> pgno pgdir \<Longrightarrow> pgno x \<noteq> pgno p \<Longrightarrow> m x = mem s x" by blast
  have pde: "pde_of m pgdir l = (if l = k then V2P p OR 1 OR 2 OR 4 else pde_of (mem s) pgdir l)"
    if l: "l < 1024" for l
  proof -
    have "ld32 (memset (mem s) p 0 4096) (cell pgdir l) = ld32 (mem s) (cell pgdir l)"
      using okd okp l dir_p
      by (intro ld32_page_cong) (auto simp: memset_page page_ok_aligned)
    then show ?thesis
      using okd l k al cell_inj [of pgdir pgdir k l] unfolding pde_of_def m_def
      by (auto simp: page_ok_aligned)
  qed
  show tk: "has_table m pgdir k" "table_of m pgdir k = p"
    using pde [OF k] fresh_pde [OF okp] by (simp_all add: has_table_def table_of_def)
  have tl: "has_table m pgdir l = has_table (mem s) pgdir l"
    "table_of m pgdir l = table_of (mem s) pgdir l" if "l < 1024" "l \<noteq> k" for l
    using that pde by (simp_all add: has_table_def table_of_def)
  have ok: "page_ok s' = page_ok s" by (auto simp: s'_def page_ok_def fun_eq_iff)
  have told: "page_ok s (table_of (mem s) pgdir l) \<and> table_of (mem s) pgdir l \<notin> set (p # ps) \<and>
      table_of (mem s) pgdir l \<noteq> pgdir" if "l < 1024" "has_table (mem s) pgdir l" for l
    using wf_pgdirD(3,4,5) [OF wf] that by blast
  show "wf_pgdir s' pgdir ps"
    unfolding wf_pgdir_def ok
  proof (intro conjI allI impI)
    fix l assume l: "l < 1024" and "has_table (mem s') pgdir l"
    then show "page_ok s (table_of (mem s') pgdir l)" "table_of (mem s') pgdir l \<notin> set ps"
      "table_of (mem s') pgdir l \<noteq> pgdir"
      using tk tl told okp pnew dirp by (cases "l = k"; simp add: s'_def)+
  next
    fix l l' assume l: "l < 1024" "l' < 1024"
      and "has_table (mem s') pgdir l" "has_table (mem s') pgdir l'"
      and "table_of (mem s') pgdir l = table_of (mem s') pgdir l'"
    then have h: "has_table m pgdir l" "has_table m pgdir l'"
      and eq: "table_of m pgdir l = table_of m pgdir l'" by (simp_all add: s'_def)
    have new: "table_of m pgdir j \<noteq> p" if "j < 1024" "has_table m pgdir j" "j \<noteq> k" for j
      using told [of j] tl [of j] that by simp
    show "l = l'"
    proof (cases "l = k \<or> l' = k")
      case True
      then show ?thesis using new [OF l(1) h(1)] new [OF l(2) h(2)] eq tk(2) by metis
    next
      case False
      then show ?thesis using wf_pgdirD(6) [OF wf l] h eq tl l by simp
    qed
  qed (use okd wf_pgdirD(2) [OF wf] in auto)
  have "kmem_inv (s\<lparr>freelist := ld32 (mem s) p\<rparr>) ps" using inv by (rule kalloc_Cons_inv)
  then show "kmem_inv s' ps"
    unfolding s'_def
  proof (rule kmem_inv_write)
    fix x assume "pgno x \<in> pgno ` set ps"
    then obtain q where q: "q \<in> set ps" "pgno x = pgno q" by auto
    have "page_ok s q" "q \<noteq> p" "q \<noteq> pgdir"
      using inv q wf_pgdirD(2) [OF wf] by (auto simp: kmem_inv_def)
    then have "pgno q \<noteq> pgno p" "pgno q \<noteq> pgno pgdir"
      using page_ok_pgno okp okd by blast+
    with q have "pgno x \<noteq> pgno p" "pgno x \<noteq> pgno pgdir" by simp_all
    then show "m x = mem (s\<lparr>freelist := ld32 (mem s) p\<rparr>) x" using frame by simp
  qed
  show "lookup m pgdir va = lookup (mem s) pgdir va"
  proof (cases "unat (PDX va) = k")
    case True
    have "ld32 m (cell p (unat (PTX va))) = ld32 (\<lambda>_. 0) (cell p (unat (PTX va)))"
      using off okp dir_p by (intro ld32_page_cong) (auto simp: page_ok_aligned)
    then show ?thesis using True none tk by (simp add: lookup_def pte_at_def ld32_def)
  next
    case False
    let ?l = "unat (PDX va)"
    have "ld32 m (pte_at (mem s) pgdir va) = ld32 (mem s) (pte_at (mem s) pgdir va)"
      if "has_table (mem s) pgdir ?l"
    proof -
      from told [OF _ that] have "page_ok s (table_of (mem s) pgdir ?l)"
        "table_of (mem s) pgdir ?l \<noteq> p" "table_of (mem s) pgdir ?l \<noteq> pgdir" by auto
      moreover from this have "pgno (table_of (mem s) pgdir ?l) \<noteq> pgno p"
        "pgno (table_of (mem s) pgdir ?l) \<noteq> pgno pgdir"
        using page_ok_pgno okp okd by blast+
      ultimately show ?thesis
        using frame unfolding pte_at_def by (intro ld32_page_cong) (auto simp: page_ok_aligned)
    qed
    then show ?thesis using tl [of ?l] False by (simp add: lookup_def pte_at_def)
  qed
qed

lemma walkpgdir_True:
  assumes inv: "kmem_inv s ps" and wf: "wf_pgdir s pgdir ps"
  obtains (full) "ps = []" "walkpgdir pgdir va True s = (0, s)"
  | (found) s' ps' where "walkpgdir pgdir va True s = (pte_at (mem s') pgdir va, s')"
      "has_table (mem s') pgdir (unat (PDX va))" "kmem_inv s' ps'" "wf_pgdir s' pgdir ps'"
      "\<exists>qs. ps = qs @ ps'" "kend s' = kend s" "\<And>v. lookup (mem s') pgdir v = lookup (mem s) pgdir v"
      "\<And>k. has_table (mem s) pgdir k \<Longrightarrow> k < 1024 \<Longrightarrow>
         has_table (mem s') pgdir k \<and> table_of (mem s') pgdir k = table_of (mem s) pgdir k"
      "\<And>x. pgno x \<noteq> pgno pgdir \<Longrightarrow> pgno x \<notin> pgno ` set ps \<Longrightarrow> mem s' x = mem s x"
      "\<And>k. k < 1024 \<Longrightarrow> has_table (mem s') pgdir k \<Longrightarrow>
         has_table (mem s) pgdir k \<or> table_of (mem s') pgdir k \<in> set ps"
proof -
  let ?k = "unat (PDX va)"
  show thesis
  proof (cases "has_table (mem s) pgdir ?k")
    case True
    then have "walkpgdir pgdir va True s = (pte_at (mem s) pgdir va, s)"
      by (simp add: walkpgdir_def Let_def has_table_def pde_of_def table_of_def pte_at_def
          cell_PDX cell_PTX)
    with True inv wf show thesis by (intro found [of s ps]) auto
  next
    case False
    show thesis
    proof (cases ps)
      case Nil
      with False inv have "walkpgdir pgdir va True s = (0, s)"
        by (simp add: walkpgdir_def Let_def has_table_def pde_of_def cell_PDX kalloc_Nil)
      with Nil show thesis by (rule full)
    next
      case (Cons p qs)
      let ?m = "st32 (memset (mem s) p 0 4096) (cell pgdir ?k) (V2P p OR 1 OR 2 OR 4)"
      let ?s = "s\<lparr>freelist := ld32 (mem s) p, mem := ?m\<rparr>"
      have inv': "kmem_inv s (p # qs)" and wf': "wf_pgdir s pgdir (p # qs)"
        using inv wf Cons by simp_all
      note fresh = fresh_table [OF inv' wf' False unat_PDX_bound]
      have "p \<noteq> 0" using inv' by (simp add: kmem_inv_def)
      then have "walkpgdir pgdir va True s = (cell p (unat (PTX va)), ?s)"
        using False inv'
        by (simp add: walkpgdir_def Let_def has_table_def pde_of_def cell_PDX cell_PTX kalloc_Cons)
      then have w: "walkpgdir pgdir va True s = (pte_at (mem ?s) pgdir va, ?s)"
        using fresh(4) by (simp add: pte_at_def)
      have tabs: "has_table ?m pgdir k \<longleftrightarrow> k = ?k \<or> has_table (mem s) pgdir k"
        "k \<noteq> ?k \<Longrightarrow> table_of ?m pgdir k = table_of (mem s) pgdir k" if "k < 1024" for k
      proof -
        have "pde_of ?m pgdir k = pde_of (mem s) pgdir k" if "k \<noteq> ?k"
        proof -
          have ok: "page_ok s pgdir" "page_ok s p" "pgdir \<noteq> p"
            using wf_pgdirD(1,2) [OF wf'] inv' by (auto simp: kmem_inv_def)
          then have "pgno pgdir \<noteq> pgno p" using page_ok_pgno by blast
          then have "ld32 (memset (mem s) p 0 4096) (cell pgdir k) = ld32 (mem s) (cell pgdir k)"
            using ok \<open>k < 1024\<close> by (intro ld32_page_cong) (auto simp: memset_page page_ok_aligned)
          then show ?thesis
            using ok that \<open>k < 1024\<close> cell_inj [of pgdir pgdir ?k k]
            by (simp add: pde_of_def page_ok_aligned)
        qed
        then show "has_table ?m pgdir k \<longleftrightarrow> k = ?k \<or> has_table (mem s) pgdir k"
          "k \<noteq> ?k \<Longrightarrow> table_of ?m pgdir k = table_of (mem s) pgdir k"
          using fresh(3) by (cases "k = ?k"; simp add: has_table_def table_of_def)+
      qed
      show thesis
      proof (rule found [OF w])
        show "\<And>k. has_table (mem s) pgdir k \<Longrightarrow> k < 1024 \<Longrightarrow> has_table (mem ?s) pgdir k \<and>
            table_of (mem ?s) pgdir k = table_of (mem s) pgdir k"
          using tabs False by auto
        show "\<And>k. k < 1024 \<Longrightarrow> has_table (mem ?s) pgdir k \<Longrightarrow>
            has_table (mem s) pgdir k \<or> table_of (mem ?s) pgdir k \<in> set ps"
          using tabs(1) fresh(4) Cons by auto
      qed (use fresh Cons in auto)
    qed
  qed
qed

text \<open>Storing into the entry for \<open>va\<close> changes the map at that page and nowhere else.\<close>

lemma pte_at_inj:
  assumes wf: "wf_pgdir s pgdir ps" and "has_table (mem s) pgdir (unat (PDX va))"
    "has_table (mem s) pgdir (unat (PDX vb))"
  shows "pte_at (mem s) pgdir va = pte_at (mem s) pgdir vb \<longleftrightarrow> pgno va = pgno vb"
proof -
  have "pte_at (mem s) pgdir va = pte_at (mem s) pgdir vb \<longleftrightarrow> PDX va = PDX vb \<and> PTX va = PTX vb"
  proof -
    have "page_ok s (table_of (mem s) pgdir (unat (PDX va)))"
      "page_ok s (table_of (mem s) pgdir (unat (PDX vb)))"
      using wf_pgdirD(3) [OF wf] assms(2,3) by simp_all
    then have "pg_aligned (table_of (mem s) pgdir (unat (PDX va)))"
      "pg_aligned (table_of (mem s) pgdir (unat (PDX vb)))" by (simp_all add: page_ok_aligned)
    then show ?thesis
      using wf_pgdirD(6) [OF wf _ _ assms(2,3)] unfolding pte_at_def
      by (simp add: cell_inj word_unat_eq_iff [of "PDX va"] word_unat_eq_iff [of "PTX va"])
  qed
  then show ?thesis by (simp add: PDX_PTX_eq)
qed

lemma set_pte:
  fixes w :: u32
  assumes inv: "kmem_inv s ps" and wf: "wf_pgdir s pgdir ps"
    and has: "has_table (mem s) pgdir (unat (PDX va))"
  defines "s' \<equiv> s\<lparr>mem := st32 (mem s) (pte_at (mem s) pgdir va) w\<rparr>"
  shows "kmem_inv s' ps" "wf_pgdir s' pgdir ps"
    "\<And>v. lookup (mem s') pgdir v = (if pgno v = pgno va then w else lookup (mem s) pgdir v)"
    "\<And>k. k < 1024 \<Longrightarrow> has_table (mem s') pgdir k = has_table (mem s) pgdir k"
    "\<And>k. k < 1024 \<Longrightarrow> table_of (mem s') pgdir k = table_of (mem s) pgdir k"
    "\<And>x. pgno x \<noteq> pgno (table_of (mem s) pgdir (unat (PDX va))) \<Longrightarrow> mem s' x = mem s x"
proof -
  let ?t = "table_of (mem s) pgdir (unat (PDX va))" and ?p = "pte_at (mem s) pgdir va"
  have ok: "page_ok s ?t" "?t \<notin> set ps" "?t \<noteq> pgdir" "page_ok s pgdir"
    using wf_pgdirD(1,3,4,5) [OF wf] has by auto
  then have al: "word_aligned ?p" "pgno ?p = pgno ?t"
    unfolding pte_at_def by (auto simp: page_ok_aligned)
  show off: "\<And>x. pgno x \<noteq> pgno ?t \<Longrightarrow> mem s' x = mem s x"
    using al by (simp add: s'_def st32_off_page)
  have dir: "pgno pgdir \<noteq> pgno ?t" using page_ok_pgno [OF ok(4,1)] ok(3) by simp
  have pde: "pde_of (mem s') pgdir k = pde_of (mem s) pgdir k" if "k < 1024" for k
    using ok(4) that by (rule pde_of_cong) (use off dir in auto)
  show tabs: "\<And>k. k < 1024 \<Longrightarrow> has_table (mem s') pgdir k = has_table (mem s) pgdir k"
    "\<And>k. k < 1024 \<Longrightarrow> table_of (mem s') pgdir k = table_of (mem s) pgdir k"
    using pde by (simp_all add: has_table_def table_of_def)
  show "wf_pgdir s' pgdir ps"
    using wf by (rule wf_pgdir_cong) (use off dir in \<open>auto simp: s'_def\<close>)
  show "kmem_inv s' ps"
    unfolding s'_def using inv
  proof (rule kmem_inv_write)
    fix x assume "pgno x \<in> pgno ` set ps"
    then obtain q where q: "q \<in> set ps" "pgno x = pgno q" by auto
    then have "page_ok s q" "q \<noteq> ?t" using inv ok(2) by (auto simp: kmem_inv_def)
    then have "pgno q \<noteq> pgno ?t" using ok(1) page_ok_pgno by blast
    then show "st32 (mem s) ?p w x = mem s x" using al q by (simp add: st32_off_page)
  qed
  fix v
  show "lookup (mem s') pgdir v = (if pgno v = pgno va then w else lookup (mem s) pgdir v)"
  proof (cases "has_table (mem s) pgdir (unat (PDX v))")
    case True
    have pv: "pte_at (mem s') pgdir v = pte_at (mem s) pgdir v"
      using tabs(2) by (simp add: pte_at_def)
    have "word_aligned (pte_at (mem s) pgdir v)"
      using wf_pgdirD(3) [OF wf _ True] unfolding pte_at_def by (simp add: page_ok_aligned)
    then show ?thesis
      using True tabs(1) pv pte_at_inj [OF wf has True] al(1)
      by (auto simp: lookup_def s'_def)
  next
    case False
    then have "pgno v \<noteq> pgno va" using has PDX_PTX_eq by metis
    with False show ?thesis using tabs(1) by (simp add: lookup_def)
  qed
qed

section \<open>Mapping a range of pages\<close>

lemma unat_diff_page:
  "unat (v - (a + 4096) :: u32) =
     (if unat (v - a) < 4096 then unat (v - a) + 4294963200 else unat (v - a) - 4096)"
proof -
  have "v - (a + 4096) = v - a - 4096" by simp
  then show ?thesis by (simp only: unat_sub_if') auto
qed

lemma in_range_pages:
  assumes "4096 * Suc j \<le> 2 ^ 32"
  shows "in_range a (4096 * Suc j) v \<longleftrightarrow> in_range a 4096 v \<or> in_range (a + 4096) (4096 * j) v"
    and "in_range (a + 4096) (4096 * j) v \<Longrightarrow> \<not> in_range a 4096 v"
  using assms by (auto simp: in_range_def unat_diff_page split: if_splits)

lemma PGROUNDDOWN_page: "pg_aligned a \<Longrightarrow> in_range a 4096 v \<Longrightarrow> PGROUNDDOWN v = a"
  by (auto simp: in_page_iff word_unat_eq_iff unat_PGROUNDDOWN pgno_def pg_aligned_def)

text \<open>
  The map after \<open>j\<close> pages from \<open>a\<close> on have been mapped to the physical pages from
  \<open>pa\<close> on, where the map was \<open>old\<close> before.
\<close>

definition mapped :: "u32 \<Rightarrow> u32 \<Rightarrow> u32 \<Rightarrow> nat \<Rightarrow> (u32 \<Rightarrow> u32) \<Rightarrow> u32 \<Rightarrow> u32" where
  "mapped a pa perm j old v =
     (if in_range a (4096 * j) v then (pa + (PGROUNDDOWN v - a)) OR perm OR PTE_P else old v)"

lemma mapped_0 [simp]: "mapped a pa perm 0 old = old"
  by (simp add: mapped_def fun_eq_iff)

lemma mapped_Suc:
  assumes "4096 * Suc j \<le> 2 ^ 32" "pg_aligned a"
  shows "mapped (a + 4096) (pa + 4096) perm j
      (\<lambda>v. if pgno v = pgno a then pa OR perm OR 1 else old v) = mapped a pa perm (Suc j) old"
proof
  fix v
  have "in_range a 4096 v \<longleftrightarrow> pgno v = pgno a" using assms(2) by (rule in_page_iff)
  moreover have "in_range a 4096 v \<Longrightarrow> PGROUNDDOWN v = a" using assms(2) by (rule PGROUNDDOWN_page)
  ultimately show "mapped (a + 4096) (pa + 4096) perm j
      (\<lambda>v. if pgno v = pgno a then pa OR perm OR 1 else old v) v = mapped a pa perm (Suc j) old v"
    using in_range_pages [OF assms(1), of a v]
    by (auto simp: mapped_def diff_diff_eq [symmetric] simp del: mult_Suc_right)
qed

text \<open>
  What a run of \<open>mappages\<close> keeps: the invariants, the pool up to the pages it took, and
  all memory but the directory, its tables and the pool.
\<close>

definition vm_step :: "u32 \<Rightarrow> 'a kmem_state_scheme \<Rightarrow> u32 list \<Rightarrow> 'a kmem_state_scheme \<Rightarrow> u32 list \<Rightarrow> bool"
where
  "vm_step pgdir s ps s' ps' \<longleftrightarrow>
     kmem_inv s' ps' \<and> wf_pgdir s' pgdir ps' \<and> (\<exists>qs. ps = qs @ ps') \<and> kend s' = kend s \<and>
     (\<forall>k < 1024. has_table (mem s) pgdir k \<longrightarrow>
        has_table (mem s') pgdir k \<and> table_of (mem s') pgdir k = table_of (mem s) pgdir k) \<and>
     (\<forall>k < 1024. has_table (mem s') pgdir k \<longrightarrow>
        has_table (mem s) pgdir k \<or> table_of (mem s') pgdir k \<in> set ps) \<and>
     (\<forall>x. pgno x \<noteq> pgno pgdir \<longrightarrow> pgno x \<notin> pgno ` set ps \<longrightarrow>
        (\<forall>k < 1024. has_table (mem s) pgdir k \<longrightarrow> pgno x \<noteq> pgno (table_of (mem s) pgdir k)) \<longrightarrow>
        mem s' x = mem s x)"

lemma vm_step_refl: "kmem_inv s ps \<Longrightarrow> wf_pgdir s pgdir ps \<Longrightarrow> vm_step pgdir s ps s ps"
  by (simp add: vm_step_def)

lemma vm_stepD:
  assumes "vm_step pgdir s ps s' ps'"
  shows "kmem_inv s' ps'" "wf_pgdir s' pgdir ps'" "\<exists>qs. ps = qs @ ps'" "kend s' = kend s"
    "\<And>k. k < 1024 \<Longrightarrow> has_table (mem s) pgdir k \<Longrightarrow> has_table (mem s') pgdir k"
    "\<And>k. k < 1024 \<Longrightarrow> has_table (mem s) pgdir k \<Longrightarrow>
       table_of (mem s') pgdir k = table_of (mem s) pgdir k"
    "\<And>k. k < 1024 \<Longrightarrow> has_table (mem s') pgdir k \<Longrightarrow>
       has_table (mem s) pgdir k \<or> table_of (mem s') pgdir k \<in> set ps"
    "\<And>x. pgno x \<noteq> pgno pgdir \<Longrightarrow> pgno x \<notin> pgno ` set ps \<Longrightarrow>
       (\<And>k. k < 1024 \<Longrightarrow> has_table (mem s) pgdir k \<Longrightarrow> pgno x \<noteq> pgno (table_of (mem s) pgdir k)) \<Longrightarrow>
       mem s' x = mem s x"
  using assms unfolding vm_step_def by blast+

lemma vm_step_trans:
  assumes 1: "vm_step pgdir s ps s1 ps1" and 2: "vm_step pgdir s1 ps1 s2 ps2"
  shows "vm_step pgdir s ps s2 ps2"
  unfolding vm_step_def
proof (intro conjI allI impI)
  have sub: "set ps1 \<subseteq> set ps" using vm_stepD(3) [OF 1] by auto
  show "kmem_inv s2 ps2" "wf_pgdir s2 pgdir ps2" "kend s2 = kend s"
    using vm_stepD(1,2,4) [OF 1] vm_stepD(1,2,4) [OF 2] by simp_all
  show "\<exists>qs. ps = qs @ ps2" using vm_stepD(3) [OF 1] vm_stepD(3) [OF 2] by auto
  fix k :: nat assume k: "k < 1024"
  show "has_table (mem s2) pgdir k" "table_of (mem s2) pgdir k = table_of (mem s) pgdir k"
    if "has_table (mem s) pgdir k"
    using vm_stepD(5,6) [OF 1 k that] vm_stepD(5,6) [OF 2 k] by simp_all
  show "has_table (mem s) pgdir k \<or> table_of (mem s2) pgdir k \<in> set ps" if "has_table (mem s2) pgdir k"
    using vm_stepD(7) [OF 2 k that] vm_stepD(7) [OF 1 k] vm_stepD(6) [OF 2 k] sub by auto
next
  fix x
  assume x: "pgno x \<noteq> pgno pgdir" "pgno x \<notin> pgno ` set ps"
    "\<forall>k < 1024. has_table (mem s) pgdir k \<longrightarrow> pgno x \<noteq> pgno (table_of (mem s) pgdir k)"
  have m1: "mem s1 x = mem s x" using x by (intro vm_stepD(8) [OF 1]) auto
  have t: "pgno x \<noteq> pgno (table_of (mem s1) pgdir k)"
    if k: "k < 1024" "has_table (mem s1) pgdir k" for k
    using vm_stepD(7) [OF 1 k] vm_stepD(6) [OF 1 k(1)] x k by auto
  have "pgno x \<notin> pgno ` set ps1" using x(2) vm_stepD(3) [OF 1] by auto
  then have "mem s2 x = mem s1 x" using x t by (intro vm_stepD(8) [OF 2]) auto
  with m1 show "mem s2 x = mem s x" by simp
qed

lemma walk_then_set:
  fixes e :: u32
  assumes inv: "kmem_inv s ps" and wf: "wf_pgdir s pgdir ps"
    and w: "walkpgdir pgdir va True s = (pte, s1)" "pte \<noteq> 0"
  shows "\<exists>ps'. vm_step pgdir s ps (s1\<lparr>mem := st32 (mem s1) pte e\<rparr>) ps' \<and>
    lookup (st32 (mem s1) pte e) pgdir =
      (\<lambda>v. if pgno v = pgno va then e else lookup (mem s) pgdir v) \<and>
    ld32 (mem s1) pte = lookup (mem s) pgdir va"
  using inv wf
proof (cases rule: walkpgdir_True [where va = va])
  case full
  with w show ?thesis by simp
next
  case (found s' ps')
  with w have s1: "s1 = s'" "pte = pte_at (mem s') pgdir va" by auto
  note sp = set_pte [OF found(3,4,2), where w = e]
  have "vm_step pgdir s ps (s1\<lparr>mem := st32 (mem s1) pte e\<rparr>) ps'"
    unfolding vm_step_def s1
  proof (intro conjI allI impI)
    fix x assume x: "pgno x \<noteq> pgno pgdir" "pgno x \<notin> pgno ` set ps"
      "\<forall>k < 1024. has_table (mem s) pgdir k \<longrightarrow> pgno x \<noteq> pgno (table_of (mem s) pgdir k)"
    have "pgno x \<noteq> pgno (table_of (mem s') pgdir (unat (PDX va)))"
      using found(10) [OF unat_PDX_bound found(2)] found(8) [OF _ unat_PDX_bound, of va]
        x(2) spec [OF x(3), of "unat (PDX va)"]
      by (auto simp: image_iff)
    then show "mem (s'\<lparr>mem := st32 (mem s') (pte_at (mem s') pgdir va) e\<rparr>) x = mem s x"
      using sp(6) found(9) x by simp
  qed (use sp(1,2,4,5) found(5,6,8,10) in simp_all)
  moreover have "ld32 (mem s1) pte = lookup (mem s) pgdir va"
    using found(2) s1 unfolding found(7) [symmetric] by (simp add: lookup_def)
  moreover have "lookup (st32 (mem s1) pte e) pgdir =
      (\<lambda>v. if pgno v = pgno va then e else lookup (mem s) pgdir v)"
    using sp(3) unfolding s1 found(7) by (simp add: fun_eq_iff)
  ultimately show ?thesis by blast
qed

lemma walk_True_zero:
  assumes "kmem_inv s ps" "wf_pgdir s pgdir ps" "walkpgdir pgdir va True s = (0, s1)"
  shows "s1 = s \<and> ps = []"
  using assms(1,2)
proof (cases rule: walkpgdir_True [where va = va])
  case (found s' ps')
  have "page_ok s' (table_of (mem s') pgdir (unat (PDX va)))"
    using wf_pgdirD(3) [OF found(4)] found(2) by simp
  then have "pte_at (mem s') pgdir va \<noteq> 0" unfolding pte_at_def by (rule cell_nonzero) simp
  with found(1) assms(3) show ?thesis by simp
qed (use assms(3) in auto)

lemma of_nat_4096_Suc_neq:
  assumes "4096 * Suc (Suc n) \<le> 2 ^ 32"
  shows "(a :: u32) \<noteq> a + of_nat (4096 * Suc n)"
proof
  assume "a = a + of_nat (4096 * Suc n)"
  then have "(of_nat (4096 * Suc n) :: u32) = 0" by (metis add_cancel_left_right)
  moreover have "unat (of_nat (4096 * Suc n) :: u32) = 4096 * Suc n"
    unfolding unat_of_nat using assms by (intro mod_less) simp
  ultimately show False by simp
qed

lemma mappages_loop_spec:
  assumes "n < fuel" "4096 * Suc n \<le> 2 ^ 32" "pg_aligned a" "end_a = a + of_nat (4096 * n)"
    "kmem_inv s ps" "wf_pgdir s pgdir ps"
    "\<And>v. in_range a (4096 * Suc n) v \<Longrightarrow> lookup (mem s) pgdir v AND 1 = 0"
  shows "\<exists>r s' ps' j. mappages_loop fuel pgdir a end_a pa perm s = Ret (r, s') \<and>
    vm_step pgdir s ps s' ps' \<and>
    lookup (mem s') pgdir = mapped a pa perm j (lookup (mem s) pgdir) \<and>
    (r = 0 \<and> j = Suc n \<or> r = -1 \<and> j \<le> n \<and> ps' = [])"
  using assms
proof (induction n arbitrary: fuel a pa s ps)
  case (0 fuel a pa s ps)
  then obtain f where f: "fuel = Suc f" by (cases fuel) auto
  obtain pte s1 where w: "walkpgdir pgdir a True s = (pte, s1)" by fastforce
  show ?case
  proof (cases "pte = 0")
    case True
    then have "s1 = s" "ps = []" using walk_True_zero 0(5,6) w by blast+
    with True w f show ?thesis
      using vm_step_refl [OF 0(5,6)] by (intro exI [of _ "-1"] exI [of _ s] exI [of _ ps] exI [of _ 0]) simp
  next
    case False
    from walk_then_set [OF 0(5,6) w False, of "pa OR perm OR 1"] obtain ps' where
      st: "vm_step pgdir s ps (s1\<lparr>mem := st32 (mem s1) pte (pa OR perm OR 1)\<rparr>) ps'"
        "lookup (st32 (mem s1) pte (pa OR perm OR 1)) pgdir =
          (\<lambda>v. if pgno v = pgno a then pa OR perm OR 1 else lookup (mem s) pgdir v)"
        "ld32 (mem s1) pte = lookup (mem s) pgdir a" by blast
    have "in_range a 4096 a" by (simp add: in_range_def)
    then have "lookup (mem s) pgdir a AND 1 = 0" using 0(7) by simp
    with w f False st show ?thesis
      using mapped_Suc [of 0 a pa perm "lookup (mem s) pgdir"] 0(3,4)
      by (intro exI [of _ 0] exI [of _ "s1\<lparr>mem := st32 (mem s1) pte (pa OR perm OR 1)\<rparr>"]
          exI [of _ ps'] exI [of _ "Suc 0"]) simp
  qed
next
  case (Suc n fuel a pa s ps)
  then obtain f where f: "fuel = Suc f" "n < f" by (cases fuel) auto
  obtain pte s1 where w: "walkpgdir pgdir a True s = (pte, s1)" by fastforce
  have ne: "a \<noteq> end_a" unfolding Suc.prems(4) by (rule of_nat_4096_Suc_neq) (rule Suc.prems(2))
  show ?case
  proof (cases "pte = 0")
    case True
    then have "s1 = s" "ps = []" using walk_True_zero Suc.prems(5,6) w by blast+
    with True w f show ?thesis
      using vm_step_refl [OF Suc.prems(5,6)]
      by (intro exI [of _ "-1"] exI [of _ s] exI [of _ ps] exI [of _ 0]) simp
  next
    case False
    let ?s2 = "s1\<lparr>mem := st32 (mem s1) pte (pa OR perm OR 1)\<rparr>"
    from walk_then_set [OF Suc.prems(5,6) w False, of "pa OR perm OR 1"] obtain ps1 where
      st: "vm_step pgdir s ps ?s2 ps1"
        "lookup (mem ?s2) pgdir =
          (\<lambda>v. if pgno v = pgno a then pa OR perm OR 1 else lookup (mem s) pgdir v)"
        "ld32 (mem s1) pte = lookup (mem s) pgdir a" by auto
    have "in_range a (4096 * Suc (Suc n)) a" by (simp add: in_range_def)
    then have "lookup (mem s) pgdir a AND 1 = 0" using Suc.prems(7) by simp
    then have run: "mappages_loop fuel pgdir a end_a pa perm s =
        mappages_loop f pgdir (a + 4096) end_a (pa + 4096) perm ?s2"
      using w f False st(3) ne by simp
    have b: "4096 * Suc n \<le> 2 ^ 32" using Suc.prems(2) by simp
    have un: "lookup (mem ?s2) pgdir v AND 1 = 0" if "in_range (a + 4096) (4096 * Suc n) v" for v
      using in_range_pages [OF Suc.prems(2), of a v] that Suc.prems(7) [of v]
        in_page_iff [OF Suc.prems(3), of v] st(2) by simp
    have al: "pg_aligned (a + 4096)" using Suc.prems(3) by (rule pg_aligned_add_page)
    have "\<exists>r s' ps' j. mappages_loop f pgdir (a + 4096) end_a (pa + 4096) perm ?s2 = Ret (r, s') \<and>
      vm_step pgdir ?s2 ps1 s' ps' \<and>
      lookup (mem s') pgdir = mapped (a + 4096) (pa + 4096) perm j (lookup (mem ?s2) pgdir) \<and>
      (r = 0 \<and> j = Suc n \<or> r = -1 \<and> j \<le> n \<and> ps' = [])"
      using f(2) b al _ vm_stepD(1,2) [OF st(1)]
      by (rule Suc.IH) (use un Suc.prems(4) in \<open>simp_all add: algebra_simps\<close>)
    then obtain r s' ps' j where r: "mappages_loop f pgdir (a + 4096) end_a (pa + 4096) perm ?s2 = Ret (r, s')"
      "vm_step pgdir ?s2 ps1 s' ps'"
      "lookup (mem s') pgdir = mapped (a + 4096) (pa + 4096) perm j (lookup (mem ?s2) pgdir)"
      "r = 0 \<and> j = Suc n \<or> r = -1 \<and> j \<le> n \<and> ps' = []" by blast
    have "4096 * Suc j \<le> 2 ^ 32" using r(4) Suc.prems(2) by auto
    then have "lookup (mem s') pgdir = mapped a pa perm (Suc j) (lookup (mem s) pgdir)"
      unfolding r(3) st(2) using Suc.prems(3) by (rule mapped_Suc)
    with run r vm_step_trans [OF st(1) r(2)] show ?thesis
      by (intro exI [of _ r] exI [of _ s'] exI [of _ ps'] exI [of _ "Suc j"]) auto
  qed
qed

end
