(* ===== verification/Uvm.thy ===== *)
theory Uvm
  imports Vm
begin

text \<open>
  User address spaces: what \<open>deallocuvm\<close>, \<open>allocuvm\<close>, \<open>copyout\<close> and \<open>clearpteu\<close> of
  \<^verbatim>\<open>vm.c\<close> do to the map of a process. The invariant says that every user page is backed
  by a page of its own, which is neither free nor part of the page table.
\<close>

section \<open>The address-space invariant\<close>

definition present :: "memory \<Rightarrow> u32 \<Rightarrow> u32 \<Rightarrow> bool" where
  "present m pgdir va \<longleftrightarrow> lookup m pgdir va AND PTE_P \<noteq> 0"

definition upage :: "memory \<Rightarrow> u32 \<Rightarrow> u32 \<Rightarrow> u32" where
  "upage m pgdir va = P2V (PTE_ADDR (lookup m pgdir va))"

text \<open>A page that is allocated but not (yet) part of the address space.\<close>

definition loose :: "'a kmem_state_scheme \<Rightarrow> u32 \<Rightarrow> u32 list \<Rightarrow> u32 \<Rightarrow> bool" where
  "loose s pgdir ps p \<longleftrightarrow>
     page_ok s p \<and> p \<notin> set ps \<and> p \<noteq> pgdir \<and>
     (\<forall>k < 1024. has_table (mem s) pgdir k \<longrightarrow> table_of (mem s) pgdir k \<noteq> p)"

definition uvm_inv :: "'a kmem_state_scheme \<Rightarrow> u32 \<Rightarrow> u32 list \<Rightarrow> bool" where
  "uvm_inv s pgdir ps \<longleftrightarrow>
     kmem_inv s ps \<and> wf_pgdir s pgdir ps \<and> KERNBASE < kend s \<and>
     (\<forall>v < KERNBASE. present (mem s) pgdir v \<longrightarrow> loose s pgdir ps (upage (mem s) pgdir v)) \<and>
     (\<forall>v < KERNBASE. \<forall>w < KERNBASE. present (mem s) pgdir v \<longrightarrow> present (mem s) pgdir w \<longrightarrow>
        upage (mem s) pgdir v = upage (mem s) pgdir w \<longrightarrow> pgno v = pgno w)"

lemma uvm_invD:
  assumes "uvm_inv s pgdir ps"
  shows "kmem_inv s ps" "wf_pgdir s pgdir ps" "KERNBASE < kend s"
    "\<And>v. v < KERNBASE \<Longrightarrow> present (mem s) pgdir v \<Longrightarrow> loose s pgdir ps (upage (mem s) pgdir v)"
    "\<And>v w. v < KERNBASE \<Longrightarrow> w < KERNBASE \<Longrightarrow> present (mem s) pgdir v \<Longrightarrow> present (mem s) pgdir w \<Longrightarrow>
       upage (mem s) pgdir v = upage (mem s) pgdir w \<Longrightarrow> pgno v = pgno w"
  using assms unfolding uvm_inv_def by blast+

lemma looseD:
  assumes "loose s pgdir ps p"
  shows "page_ok s p" "p \<notin> set ps" "p \<noteq> pgdir"
    "\<And>k. k < 1024 \<Longrightarrow> has_table (mem s) pgdir k \<Longrightarrow> table_of (mem s) pgdir k \<noteq> p"
  using assms unfolding loose_def by blast+

lemma lookup_page: "pgno v = pgno w \<Longrightarrow> lookup m pgdir v = lookup m pgdir w"
proof -
  assume "pgno v = pgno w"
  then have "PDX v = PDX w" "PTX v = PTX w" using PDX_PTX_eq by blast+
  then show ?thesis by (simp add: lookup_def pte_at_def)
qed

lemma page_ok_P2V_nonzero:
  assumes "page_ok s (P2V pa)" "KERNBASE < kend s"
  shows "pa \<noteq> 0"
  using assms by (auto simp: page_ok_def P2V_def)

lemma upage_map: "pg_aligned p \<Longrightarrow> P2V (PTE_ADDR (V2P p OR 6 OR 1)) = p"
  using PTE_ADDR_or [of "V2P p" 7] by (simp add: or.assoc pg_aligned_V2P)

text \<open>Writing to a loose page leaves the page table alone.\<close>

lemma loose_frame:
  assumes wf: "wf_pgdir s pgdir ps" and l: "loose s pgdir ps p"
    and m: "\<And>x. pgno x \<noteq> pgno p \<Longrightarrow> m x = mem s x"
  shows "lookup m pgdir v = lookup (mem s) pgdir v"
    "k < 1024 \<Longrightarrow> has_table m pgdir k = has_table (mem s) pgdir k"
    "k < 1024 \<Longrightarrow> table_of m pgdir k = table_of (mem s) pgdir k"
proof -
  have okd: "page_ok s pgdir" using wf by (rule wf_pgdirD)
  have dir: "pgno pgdir \<noteq> pgno p"
    using page_ok_pgno [OF okd looseD(1) [OF l]] looseD(3) [OF l] by simp
  show "lookup m pgdir v = lookup (mem s) pgdir v"
    using wf
  proof (rule lookup_cong)
    fix x assume has: "has_table (mem s) pgdir (unat (PDX v))"
      and x: "pgno x = pgno (table_of (mem s) pgdir (unat (PDX v)))"
    have "pgno (table_of (mem s) pgdir (unat (PDX v))) \<noteq> pgno p"
      using page_ok_pgno [OF wf_pgdirD(3) [OF wf _ has] looseD(1) [OF l]]
        looseD(4) [OF l _ has] by simp
    with x show "m x = mem s x" by (intro m) simp
  qed (use m dir in auto)
  assume "k < 1024"
  then have "pde_of m pgdir k = pde_of (mem s) pgdir k"
    by (rule pde_of_cong [OF okd]) (use m dir in auto)
  then show "has_table m pgdir k = has_table (mem s) pgdir k"
    "table_of m pgdir k = table_of (mem s) pgdir k"
    by (simp_all add: has_table_def table_of_def)
qed

lemma uvm_inv_step:
  assumes k: "kmem_inv s' ps'" and wf: "wf_pgdir s' pgdir ps'"
    and kend: "KERNBASE < kend s" "kend s' = kend s"
    and tab: "\<And>k. k < 1024 \<Longrightarrow> has_table (mem s') pgdir k \<Longrightarrow>
      has_table (mem s) pgdir k \<and> table_of (mem s') pgdir k = table_of (mem s) pgdir k \<or>
      table_of (mem s') pgdir k \<in> set ps"
    and look: "\<And>v. v < KERNBASE \<Longrightarrow> present (mem s') pgdir v \<Longrightarrow>
      loose s pgdir ps (upage (mem s') pgdir v) \<and> upage (mem s') pgdir v \<notin> set ps'"
    and inj: "\<And>v w. v < KERNBASE \<Longrightarrow> w < KERNBASE \<Longrightarrow> present (mem s') pgdir v \<Longrightarrow>
      present (mem s') pgdir w \<Longrightarrow> upage (mem s') pgdir v = upage (mem s') pgdir w \<Longrightarrow> pgno v = pgno w"
  shows "uvm_inv s' pgdir ps'"
proof -
  have ok: "page_ok s' = page_ok s" using kend by (auto simp: page_ok_def fun_eq_iff)
  have l: "loose s' pgdir ps' (upage (mem s') pgdir v)" if v: "v < KERNBASE" "present (mem s') pgdir v" for v
  proof -
    have ls: "loose s pgdir ps (upage (mem s') pgdir v)" using look [OF v] by blast
    have "table_of (mem s') pgdir k \<noteq> upage (mem s') pgdir v" if "k < 1024" "has_table (mem s') pgdir k" for k
      using tab [OF that] looseD(2) [OF ls] looseD(4) [OF ls that(1)] by auto
    then show ?thesis
      unfolding loose_def ok using looseD(1,3) [OF ls] look [OF v] by simp
  qed
  show ?thesis
    unfolding uvm_inv_def
  proof (intro conjI allI impI)
    fix v w assume "v < KERNBASE" "w < KERNBASE" "present (mem s') pgdir v" "present (mem s') pgdir w"
      "upage (mem s') pgdir v = upage (mem s') pgdir w"
    then show "pgno v = pgno w" by (rule inj)
  qed (use k wf kend l in simp_all)
qed

lemma uvm_inv_cong:
  assumes inv: "uvm_inv s pgdir ps" and k: "kmem_inv s' ps'" and wf: "wf_pgdir s' pgdir ps'"
    and kend: "kend s' = kend s"
    and tab: "\<And>k. k < 1024 \<Longrightarrow> has_table (mem s') pgdir k \<Longrightarrow>
      has_table (mem s) pgdir k \<and> table_of (mem s') pgdir k = table_of (mem s) pgdir k \<or>
      table_of (mem s') pgdir k \<in> set ps"
    and look: "\<And>v. v < KERNBASE \<Longrightarrow> present (mem s') pgdir v \<Longrightarrow>
      lookup (mem s') pgdir v = lookup (mem s) pgdir v \<and> upage (mem s) pgdir v \<notin> set ps'"
  shows "uvm_inv s' pgdir ps'"
proof -
  have pr: "present (mem s) pgdir v" "upage (mem s') pgdir v = upage (mem s) pgdir v"
    if "v < KERNBASE" "present (mem s') pgdir v" for v
    using look [OF that] that(2) by (simp_all add: present_def upage_def)
  show ?thesis
    using k wf uvm_invD(3) [OF inv] kend tab
  proof (rule uvm_inv_step)
    fix v assume v: "v < KERNBASE" "present (mem s') pgdir v"
    show "loose s pgdir ps (upage (mem s') pgdir v) \<and> upage (mem s') pgdir v \<notin> set ps'"
      using uvm_invD(4) [OF inv v(1) pr(1) [OF v]] look [OF v] pr(2) [OF v] by simp
  next
    fix v w assume "v < KERNBASE" "w < KERNBASE" "present (mem s') pgdir v" "present (mem s') pgdir w"
      "upage (mem s') pgdir v = upage (mem s') pgdir w"
    then show "pgno v = pgno w" using uvm_invD(5) [OF inv, of v w] pr by simp
  qed
qed

section \<open>Unmapping\<close>

lemma walkpgdir_False_pte:
  assumes "wf_pgdir s pgdir ps"
  shows "fst (walkpgdir pgdir va False s) = 0 \<longleftrightarrow> \<not> has_table (mem s) pgdir (unat (PDX va))"
proof -
  have "pte_at (mem s) pgdir va \<noteq> 0" if "has_table (mem s) pgdir (unat (PDX va))"
    unfolding pte_at_def using wf_pgdirD(3) [OF assms _ that] by (intro cell_nonzero [of s]) simp_all
  then show ?thesis by (auto simp: walkpgdir_False)
qed

lemma unmap_page:
  assumes inv: "uvm_inv s pgdir ps" and a: "a < KERNBASE" and pr: "present (mem s) pgdir a"
  defines "p \<equiv> upage (mem s) pgdir a"
  shows "\<exists>s1. kfree p s = Ret s1 \<and>
    (let s2 = s1\<lparr>mem := st32 (mem s1) (pte_at (mem s) pgdir a) 0\<rparr> in
      uvm_inv s2 pgdir (p # ps) \<and> kend s2 = kend s \<and>
      lookup (mem s2) pgdir = (\<lambda>v. if pgno v = pgno a then 0 else lookup (mem s) pgdir v) \<and>
      (\<forall>k < 1024. has_table (mem s2) pgdir k = has_table (mem s) pgdir k \<and>
        table_of (mem s2) pgdir k = table_of (mem s) pgdir k) \<and>
      (\<forall>x. loose s pgdir ps (PGROUNDDOWN x) \<longrightarrow> pgno x \<noteq> pgno p \<longrightarrow> mem s2 x = mem s x))"
proof -
  note ki = uvm_invD(1) [OF inv] and wf = uvm_invD(2) [OF inv]
  have l: "loose s pgdir ps p" unfolding p_def by (rule uvm_invD(4) [OF inv a pr])
  have has: "has_table (mem s) pgdir (unat (PDX a))"
    using pr by (auto simp: present_def lookup_def split: if_splits)
  from kfree_spec [OF ki looseD(1,2) [OF l]] obtain s1 where
    s1: "kfree p s = Ret s1" "kmem_inv s1 (p # ps)" "\<And>x. pgno x \<noteq> pgno p \<Longrightarrow> mem s1 x = mem s x"
    by blast
  have kend1: "kend s1 = kend s" using s1(1) looseD(1) [OF l] by (auto simp: kfree_page_ok)
  have ok: "page_ok s1 = page_ok s" using kend1 by (auto simp: page_ok_def fun_eq_iff)
  note fr = loose_frame [OF wf l s1(3)]
  have wf1: "wf_pgdir s1 pgdir (p # ps)"
    using wf looseD [OF l] unfolding wf_pgdir_def by (simp add: fr ok)
  have has1: "has_table (mem s1) pgdir (unat (PDX a))" using has fr(2) by simp
  have pte: "pte_at (mem s1) pgdir a = pte_at (mem s) pgdir a" by (simp add: pte_at_def fr)
  let ?s2 = "s1\<lparr>mem := st32 (mem s1) (pte_at (mem s1) pgdir a) 0\<rparr>"
  note sp = set_pte [OF s1(2) wf1 has1, where w = 0]
  have look: "lookup (mem ?s2) pgdir = (\<lambda>v. if pgno v = pgno a then 0 else lookup (mem s) pgdir v)"
    unfolding fun_eq_iff sp(3) using fr(1) by simp
  have tabs: "has_table (mem ?s2) pgdir k = has_table (mem s) pgdir k \<and>
      table_of (mem ?s2) pgdir k = table_of (mem s) pgdir k" if "k < 1024" for k
    using sp(4,5) fr(2,3) that by simp
  have inv2: "uvm_inv ?s2 pgdir (p # ps)"
    using inv sp(1,2)
  proof (rule uvm_inv_cong)
    fix v assume v: "v < KERNBASE" "present (mem ?s2) pgdir v"
    then have ne: "pgno v \<noteq> pgno a" and look_v: "lookup (mem ?s2) pgdir v = lookup (mem s) pgdir v"
      unfolding present_def look by (auto split: if_splits)
    then have prv: "present (mem s) pgdir v" using v by (simp add: present_def)
    have "upage (mem s) pgdir v \<notin> set (p # ps)"
      using looseD(2) [OF uvm_invD(4) [OF inv v(1) prv]] uvm_invD(5) [OF inv v(1) a prv pr] ne
      by (auto simp: p_def)
    with look_v show "lookup (mem ?s2) pgdir v = lookup (mem s) pgdir v \<and> upage (mem s) pgdir v \<notin> set (p # ps)"
      by blast
  qed (use tabs kend1 in auto)
  have mem2: "mem ?s2 x = mem s x" if x: "loose s pgdir ps (PGROUNDDOWN x)" "pgno x \<noteq> pgno p" for x
  proof -
    have "pgno (PGROUNDDOWN x) = pgno x" by (simp add: pgno_def unat_PGROUNDDOWN)
    moreover have "page_ok s (table_of (mem s) pgdir (unat (PDX a)))"
      using wf_pgdirD(3) [OF wf _ has] by simp
    ultimately have "pgno x \<noteq> pgno (table_of (mem s) pgdir (unat (PDX a)))"
      using page_ok_pgno looseD(1,4) [OF x(1)] has unat_PDX_bound by metis
    then show ?thesis using sp(6) s1(3) x(2) by (simp add: fr)
  qed
  show ?thesis
    using s1(1) inv2 look tabs mem2 kend1 unfolding pte Let_def by auto
qed

lemma unat_PGADDR_next:
  assumes "a < KERNBASE"
  shows "unat (PGADDR (PDX a + 1) 0 0) = 4194304 * (unat a div 4194304 + 1)"
proof -
  have q: "unat a div 4194304 < 512" using assms by (simp add: word_less_nat_alt less_mult_imp_div_less)
  have u: "unat (PDX a + 1) = unat a div 4194304 + 1"
    using q unat_add_lem [of "PDX a" 1] by (simp add: unat_PDX)
  have "PGADDR (PDX a + 1) 0 0 = 4194304 * (PDX a + 1)"
    by (simp add: PGADDR_def push_bit_eq_mult mult.commute)
  moreover have "unat (4194304 * (PDX a + 1)) = 4194304 * unat (PDX a + 1)"
    using q u unat_mult_lem [of 4194304 "PDX a + 1"] by simp
  ultimately show ?thesis unfolding u by simp
qed

text \<open>The entries from page \<open>a\<close> up to \<open>oldsz\<close> that are present are cleared.\<close>

definition unmapped :: "nat \<Rightarrow> u32 \<Rightarrow> (u32 \<Rightarrow> u32) \<Rightarrow> u32 \<Rightarrow> u32" where
  "unmapped n oldsz old v =
     (if n \<le> pgno v \<and> 4096 * pgno v < unat oldsz \<and> old v AND PTE_P \<noteq> 0 then 0 else old v)"

lemma present_page: "pgno v = pgno w \<Longrightarrow> present m pgdir v = present m pgdir w"
  using lookup_page [of v w m pgdir] by (simp add: present_def)

text \<open>
  What a range of unmappings does: the present pages of the range go to the pool, the
  others and the contents of all loose pages that are not freed stay.
\<close>

definition unmaps ::
  "'a kmem_state_scheme \<Rightarrow> u32 \<Rightarrow> u32 list \<Rightarrow> nat \<Rightarrow> u32 \<Rightarrow> 'a kmem_state_scheme \<Rightarrow> u32 list \<Rightarrow> bool"
where
  "unmaps s pgdir ps n oldsz s' fs \<longleftrightarrow>
     uvm_inv s' pgdir (fs @ ps) \<and> kend s' = kend s \<and>
     lookup (mem s') pgdir = unmapped n oldsz (lookup (mem s) pgdir) \<and>
     set fs = {upage (mem s) pgdir v |v. v < KERNBASE \<and> n \<le> pgno v \<and> 4096 * pgno v < unat oldsz \<and>
       present (mem s) pgdir v} \<and>
     (\<forall>k < 1024. has_table (mem s') pgdir k = has_table (mem s) pgdir k \<and>
        table_of (mem s') pgdir k = table_of (mem s) pgdir k) \<and>
     (\<forall>x. loose s pgdir ps (PGROUNDDOWN x) \<longrightarrow> pgno x \<notin> pgno ` set fs \<longrightarrow> mem s' x = mem s x)"

lemma unmaps_done:
  assumes "uvm_inv s pgdir ps" "\<And>v. n \<le> pgno v \<Longrightarrow> 4096 * pgno v < unat oldsz \<Longrightarrow> \<not> present (mem s) pgdir v"
  shows "unmaps s pgdir ps n oldsz s []"
  using assms by (auto simp: unmaps_def unmapped_def present_def fun_eq_iff)

lemma unmaps_skip:
  assumes u: "unmaps s pgdir ps n' oldsz s' fs" and le: "n \<le> n'"
    and none: "\<And>v. n \<le> pgno v \<Longrightarrow> pgno v < n' \<Longrightarrow> \<not> present (mem s) pgdir v"
  shows "unmaps s pgdir ps n oldsz s' fs"
proof -
  have eq: "n' \<le> pgno v \<and> Q \<and> present (mem s) pgdir v \<longleftrightarrow> n \<le> pgno v \<and> Q \<and> present (mem s) pgdir v" for v Q
    using le none [of v] by fastforce
  have "unmapped n' oldsz (lookup (mem s) pgdir) = unmapped n oldsz (lookup (mem s) pgdir)"
    using eq by (auto simp: unmapped_def present_def fun_eq_iff)
  with u show ?thesis unfolding unmaps_def eq by simp
qed

lemma unmaps_step:
  assumes inv: "uvm_inv s pgdir ps" and a: "a < KERNBASE" "unat a < unat oldsz" "pg_aligned a"
    and pr: "present (mem s) pgdir a" and p: "p = upage (mem s) pgdir a"
    and s2: "uvm_inv s2 pgdir (p # ps)" "kend s2 = kend s"
      "lookup (mem s2) pgdir = (\<lambda>v. if pgno v = pgno a then 0 else lookup (mem s) pgdir v)"
      "\<And>k. k < 1024 \<Longrightarrow> has_table (mem s2) pgdir k = has_table (mem s) pgdir k \<and>
        table_of (mem s2) pgdir k = table_of (mem s) pgdir k"
      "\<And>x. loose s pgdir ps (PGROUNDDOWN x) \<Longrightarrow> pgno x \<noteq> pgno p \<Longrightarrow> mem s2 x = mem s x"
    and u: "unmaps s2 pgdir (p # ps) (Suc (pgno a)) oldsz s' fs"
  shows "unmaps s pgdir ps (pgno a) oldsz s' (fs @ [p])"
  unfolding unmaps_def
proof (intro conjI allI impI)
  have pa: "4096 * pgno a = unat a" using a(3) by (auto simp: pgno_def pg_aligned_def)
  have pr2: "present (mem s2) pgdir v \<longleftrightarrow> pgno v \<noteq> pgno a \<and> present (mem s) pgdir v"
    "pgno v \<noteq> pgno a \<Longrightarrow> upage (mem s2) pgdir v = upage (mem s) pgdir v" for v
    by (auto simp: present_def upage_def s2(3))
  have pl: "pg_aligned (PGROUNDDOWN x)" for x by (simp add: pg_aligned_def unat_PGROUNDDOWN)
  show "uvm_inv s' pgdir ((fs @ [p]) @ ps)" "kend s' = kend s" using u s2(2) by (simp_all add: unmaps_def)
  show "lookup (mem s') pgdir = unmapped (pgno a) oldsz (lookup (mem s) pgdir)"
  proof
    fix v
    show "lookup (mem s') pgdir v = unmapped (pgno a) oldsz (lookup (mem s) pgdir) v"
      using u pr pa a(2) lookup_page [of v a "mem s" pgdir]
      by (cases "pgno v = pgno a") (auto simp: unmaps_def unmapped_def s2(3) present_def)
  qed
  have "{upage (mem s) pgdir v |v. v < KERNBASE \<and> pgno a \<le> pgno v \<and> 4096 * pgno v < unat oldsz \<and>
       present (mem s) pgdir v} = insert p {upage (mem s2) pgdir v |v. v < KERNBASE \<and> Suc (pgno a) \<le> pgno v \<and>
       4096 * pgno v < unat oldsz \<and> present (mem s2) pgdir v}" (is "?L = insert p ?R")
  proof (intro set_eqI iffI)
    fix q assume "q \<in> ?L"
    then obtain v where v: "q = upage (mem s) pgdir v" "v < KERNBASE" "pgno a \<le> pgno v"
      "4096 * pgno v < unat oldsz" "present (mem s) pgdir v" by blast
    show "q \<in> insert p ?R"
    proof (cases "pgno v = pgno a")
      case True
      then show ?thesis using v(1) p lookup_page [of v a "mem s" pgdir] by (simp add: upage_def)
    next
      case False
      then have "q \<in> ?R" using v pr2 [of v] by (intro CollectI exI [of _ v]) simp
      then show ?thesis by simp
    qed
  next
    fix q assume "q \<in> insert p ?R"
    then consider "q = p" | v where "q = upage (mem s2) pgdir v" "v < KERNBASE" "Suc (pgno a) \<le> pgno v"
       "4096 * pgno v < unat oldsz" "present (mem s2) pgdir v" by blast
    then show "q \<in> ?L"
    proof cases
      case 1
      then show ?thesis using a pr p pa by (intro CollectI exI [of _ a]) simp
    next
      case (2 v)
      then show ?thesis using pr2 [of v] by (intro CollectI exI [of _ v]) simp
    qed
  qed
  then show "set (fs @ [p]) = ?L" using u by (simp add: unmaps_def)
  show "has_table (mem s') pgdir k = has_table (mem s) pgdir k"
    "table_of (mem s') pgdir k = table_of (mem s) pgdir k" if "k < 1024" for k
    using u s2(4) that by (simp_all add: unmaps_def)
  fix x assume x: "loose s pgdir ps (PGROUNDDOWN x)" "pgno x \<notin> pgno ` set (fs @ [p])"
  have "pgno (PGROUNDDOWN x) = pgno x" by (simp add: pgno_def unat_PGROUNDDOWN)
  then have "PGROUNDDOWN x \<noteq> p" using x(2) by auto
  moreover have "page_ok s2 = page_ok s" using s2(2) by (auto simp: page_ok_def fun_eq_iff)
  ultimately have "loose s2 pgdir (p # ps) (PGROUNDDOWN x)" using x(1) s2(4) by (simp add: loose_def)
  with x u have "mem s' x = mem s2 x" by (simp add: unmaps_def)
  with s2(5) x show "mem s' x = mem s x" by simp
qed

lemma pgno_add_page: "pg_aligned a \<Longrightarrow> a < KERNBASE \<Longrightarrow> pgno (a + 4096) = Suc (pgno a)"
proof -
  assume "pg_aligned a" "a < KERNBASE"
  then have "unat (a + 4096) = unat a + 4096"
    using unat_add_lem [of a 4096] by (simp add: word_less_nat_alt)
  then show ?thesis by (simp add: pgno_def)
qed

lemma next_region:
  assumes "pg_aligned a" "unat b = 4194304 * (unat a div 4194304 + 1)"
  shows "pg_aligned b \<and> pgno a \<le> pgno b" "unat a + 4096 \<le> unat b"
    "pgno a \<le> pgno v \<Longrightarrow> pgno v < pgno b \<Longrightarrow> unat (PDX v) = unat (PDX a)"
proof -
  obtain q where q: "unat a = 4096 * q" using assms(1) by (auto simp: pg_aligned_def)
  have d: "4096 * x div 4194304 = x div 1024" for x :: nat
    using div_mult2_eq [of "4096 * x" 4096 1024] by simp
  have pq: "pgno a = q" using q by (simp add: pgno_def)
  have ub: "unat b = 4096 * (1024 * (q div 1024 + 1))" using assms(2) q d by simp
  then have pb: "pgno b = 1024 * (q div 1024 + 1)" unfolding pgno_def by simp
  have lt: "q < 1024 * (q div 1024 + 1)" by (metis Suc_eq_plus1 dividend_less_times_div mult.commute mult_Suc_right zero_less_numeral add.commute)
  show "pg_aligned b \<and> pgno a \<le> pgno b" using ub pb pq lt by (simp add: pg_aligned_def)
  show "unat a + 4096 \<le> unat b" using ub q lt by simp
  assume v: "pgno a \<le> pgno v" "pgno v < pgno b"
  have pd: "unat (PDX w) = pgno w div 1024" for w
    using div_mult2_eq [of "unat w" 4096 1024] by (simp add: unat_PDX pgno_def)
  have "pgno v div 1024 = q div 1024"
  proof (rule antisym)
    show "q div 1024 \<le> pgno v div 1024" using v pq by (simp add: div_le_mono)
    show "pgno v div 1024 \<le> q div 1024" using v(2) pb by (simp add: less_mult_imp_div_less less_Suc_eq_le [symmetric])
  qed
  then show "unat (PDX v) = unat (PDX a)" by (simp add: pd pq)
qed

lemma deallocuvm_loop_spec:
  assumes "uvm_inv s pgdir ps" "pg_aligned a" "oldsz \<le> KERNBASE" "unat oldsz \<le> unat a + 4096 * fuel"
  shows "\<exists>s' fs. deallocuvm_loop (Suc fuel) pgdir oldsz a s = Ret s' \<and>
    unmaps s pgdir ps (pgno a) oldsz s' fs"
  using assms
proof (induction fuel arbitrary: a s ps)
  case (0 a s ps)
  have "unat a = 4096 * pgno a" using 0(2) by (auto simp: pgno_def pg_aligned_def)
  then have "unmaps s pgdir ps (pgno a) oldsz s []" using 0 by (intro unmaps_done) auto
  moreover have "\<not> a < oldsz" using 0 by (simp add: word_less_nat_alt)
  ultimately show ?case by auto
next
  case (Suc fuel a s ps)
  note inv = Suc.prems(1)
  have pa: "unat a = 4096 * pgno a" using Suc.prems(2) by (auto simp: pgno_def pg_aligned_def)
  show ?case
  proof (cases "a < oldsz")
    case False
    then have "unmaps s pgdir ps (pgno a) oldsz s []"
      using pa inv by (intro unmaps_done) (auto simp: word_less_nat_alt)
    with False show ?thesis by auto
  next
    case True
    then have kb: "a < KERNBASE" and lt: "unat a < unat oldsz"
      using Suc.prems(3) by (auto simp: word_less_nat_alt word_le_nat_alt)
    have al: "pg_aligned (a + 4096)" using Suc.prems(2) by (rule pg_aligned_add_page)
    have ua: "unat (a + 4096) = unat a + 4096"
      using kb unat_add_lem [of a 4096] by (simp add: word_less_nat_alt)
    have next_pg: "pgno (a + 4096) = Suc (pgno a)" using Suc.prems(2) kb by (rule pgno_add_page)
    show ?thesis
    proof (cases "has_table (mem s) pgdir (unat (PDX a))")
      case no: False
      let ?b = "PGADDR (PDX a + 1) 0 0"
      have ub: "unat ?b = 4194304 * (unat a div 4194304 + 1)" using kb by (rule unat_PGADDR_next)
      have b: "pg_aligned ?b" "pgno a \<le> pgno ?b" "unat a + 4096 \<le> unat ?b"
        using next_region [OF Suc.prems(2) ub] by simp_all
      have none: "\<not> present (mem s) pgdir v" if "pgno a \<le> pgno v" "pgno v < pgno ?b" for v
      proof -
        have "unat (PDX v) = unat (PDX a)" using next_region(3) [OF Suc.prems(2) ub that] .
        with no show ?thesis by (simp add: present_def lookup_def)
      qed
      have f: "unat oldsz \<le> unat ?b + 4096 * fuel" using Suc.prems(4) b(3) by simp
      from Suc.IH [OF inv b(1) Suc.prems(3) f] obtain s' fs where
        r: "deallocuvm_loop (Suc fuel) pgdir oldsz ?b s = Ret s'" "unmaps s pgdir ps (pgno ?b) oldsz s' fs"
        by blast
      have "unmaps s pgdir ps (pgno a) oldsz s' fs" using r(2) b(2) none by (rule unmaps_skip)
      moreover have "fst (walkpgdir pgdir a False s) = 0"
        using no walkpgdir_False_pte [OF uvm_invD(2) [OF inv]] by simp
      ultimately show ?thesis using True r(1)
        by (subst deallocuvm_loop.simps) (auto simp del: deallocuvm_loop.simps)
    next
      case has: True
      then have pte: "fst (walkpgdir pgdir a False s) = pte_at (mem s) pgdir a"
        "pte_at (mem s) pgdir a \<noteq> 0" "ld32 (mem s) (pte_at (mem s) pgdir a) = lookup (mem s) pgdir a"
        using walkpgdir_False_pte [OF uvm_invD(2) [OF inv], of a] by (simp_all add: walkpgdir_False lookup_def)
      have f: "unat oldsz \<le> unat (a + 4096) + 4096 * fuel" using Suc.prems(4) ua by simp
      show ?thesis
      proof (cases "present (mem s) pgdir a")
        case pr: True
        let ?p = "upage (mem s) pgdir a"
        from unmap_page [OF inv kb pr] obtain s1 s2 where s1: "kfree ?p s = Ret s1"
            "s1\<lparr>mem := st32 (mem s1) (pte_at (mem s) pgdir a) 0\<rparr> = s2"
          and s2: "uvm_inv s2 pgdir (?p # ps)" "kend s2 = kend s"
            "lookup (mem s2) pgdir = (\<lambda>v. if pgno v = pgno a then 0 else lookup (mem s) pgdir v)"
            "\<And>k. k < 1024 \<Longrightarrow> has_table (mem s2) pgdir k = has_table (mem s) pgdir k \<and>
              table_of (mem s2) pgdir k = table_of (mem s) pgdir k"
            "\<And>x. loose s pgdir ps (PGROUNDDOWN x) \<Longrightarrow> pgno x \<noteq> pgno ?p \<Longrightarrow> mem s2 x = mem s x"
          unfolding Let_def by blast
        from Suc.IH [OF s2(1) al Suc.prems(3) f] obtain s' fs where
          r: "deallocuvm_loop (Suc fuel) pgdir oldsz (a + 4096) s2 = Ret s'"
            "unmaps s2 pgdir (?p # ps) (Suc (pgno a)) oldsz s' fs"
          unfolding next_pg by blast
        have "unmaps s pgdir ps (pgno a) oldsz s' (fs @ [?p])"
          by (rule unmaps_step [OF inv kb lt Suc.prems(2) pr refl s2 r(2)])
        moreover have "PTE_ADDR (lookup (mem s) pgdir a) \<noteq> 0"
          using page_ok_P2V_nonzero looseD(1) [OF uvm_invD(4) [OF inv kb pr]] uvm_invD(3) [OF inv]
          unfolding upage_def by blast
        ultimately show ?thesis using True r(1) s1 pr pte
          by (subst deallocuvm_loop.simps)
            (auto simp: present_def upage_def simp del: deallocuvm_loop.simps)
      next
        case np: False
        from Suc.IH [OF inv al Suc.prems(3) f] obtain s' fs where
          r: "deallocuvm_loop (Suc fuel) pgdir oldsz (a + 4096) s = Ret s'"
            "unmaps s pgdir ps (Suc (pgno a)) oldsz s' fs"
          unfolding next_pg by blast
        have "unmaps s pgdir ps (pgno a) oldsz s' fs"
          using r(2) np by (rule_tac unmaps_skip) (auto simp: less_Suc_eq_le dest: present_page)
        with True r(1) np pte show ?thesis
          by (subst deallocuvm_loop.simps) (auto simp: present_def simp del: deallocuvm_loop.simps)
      qed
    qed
  qed
qed

lemma PAGES_Suc: "PAGES = Suc 1048575"
  by (simp add: PAGES_def)

lemma PGROUNDUP_bounds:
  assumes "sz < KERNBASE"
  shows "pg_aligned (PGROUNDUP sz)" "unat sz \<le> unat (PGROUNDUP sz)" "unat (PGROUNDUP sz) < unat sz + 4096"
proof -
  have "PGROUNDUP sz = PGROUNDDOWN (sz + 4095)" by (simp add: PGROUNDUP_def PGROUNDDOWN_def add.commute)
  moreover have "unat (sz + 4095) = unat sz + 4095"
    using assms unat_add_lem [of sz 4095] by (simp add: word_less_nat_alt)
  ultimately have u: "unat (PGROUNDUP sz) = (unat sz + 4095) div 4096 * 4096"
    by (simp add: unat_PGROUNDDOWN)
  show "pg_aligned (PGROUNDUP sz)" by (simp add: pg_aligned_def u)
  show "unat sz \<le> unat (PGROUNDUP sz)" "unat (PGROUNDUP sz) < unat sz + 4096"
    unfolding u using div_mult_mod_eq [of "unat sz + 4095" 4096] mod_less_divisor [of 4096 "unat sz + 4095"]
    by linarith+
qed

lemma deallocuvm_spec:
  assumes "uvm_inv s pgdir ps" "newsz < oldsz" "oldsz \<le> KERNBASE"
  shows "\<exists>s' fs. deallocuvm pgdir oldsz newsz s = Ret (newsz, s') \<and>
    unmaps s pgdir ps (pgno (PGROUNDUP newsz)) oldsz s' fs"
proof -
  have "newsz < KERNBASE" using assms(2,3) by simp
  note up = PGROUNDUP_bounds [OF this]
  have "unat oldsz \<le> 0x80000000" using assms(3) by (simp add: word_le_nat_alt)
  then have "unat oldsz \<le> unat (PGROUNDUP newsz) + 4096 * 1048575" by simp
  from deallocuvm_loop_spec [OF assms(1) up(1) assms(3) this] show ?thesis
    using assms(2) by (auto simp: deallocuvm_def PAGES_Suc simp del: deallocuvm_loop.simps)
qed

section \<open>Growing\<close>

definition unused :: "'a kmem_state_scheme \<Rightarrow> u32 \<Rightarrow> u32 \<Rightarrow> bool" where
  "unused s pgdir p \<longleftrightarrow> (\<forall>v < KERNBASE. present (mem s) pgdir v \<longrightarrow> upage (mem s) pgdir v \<noteq> p)"

lemma free_loose:
  assumes inv: "uvm_inv s pgdir ps" and l: "loose s pgdir ps p" and u: "unused s pgdir p"
  shows "\<exists>s'. kfree p s = Ret s' \<and> uvm_inv s' pgdir (p # ps) \<and> kend s' = kend s \<and>
    lookup (mem s') pgdir = lookup (mem s) pgdir \<and> (\<forall>x. pgno x \<noteq> pgno p \<longrightarrow> mem s' x = mem s x)"
proof -
  note wf = uvm_invD(2) [OF inv]
  from kfree_spec [OF uvm_invD(1) [OF inv] looseD(1,2) [OF l]] obtain s1 where
    s1: "kfree p s = Ret s1" "kmem_inv s1 (p # ps)" "\<And>x. pgno x \<noteq> pgno p \<Longrightarrow> mem s1 x = mem s x"
    by blast
  have kend1: "kend s1 = kend s" using s1(1) looseD(1) [OF l] by (auto simp: kfree_page_ok)
  have ok: "page_ok s1 = page_ok s" using kend1 by (auto simp: page_ok_def fun_eq_iff)
  note fr = loose_frame [OF wf l s1(3)]
  have wf1: "wf_pgdir s1 pgdir (p # ps)"
    using wf looseD [OF l] unfolding wf_pgdir_def by (simp add: fr ok)
  have "uvm_inv s1 pgdir (p # ps)"
    using inv s1(2) wf1 kend1
  proof (rule uvm_inv_cong)
    fix v assume v: "v < KERNBASE" "present (mem s1) pgdir v"
    then have "present (mem s) pgdir v" by (simp add: present_def fr)
    with v u looseD(2) [OF uvm_invD(4) [OF inv v(1)]]
    show "lookup (mem s1) pgdir v = lookup (mem s) pgdir v \<and> upage (mem s) pgdir v \<notin> set (p # ps)"
      by (auto simp: fr unused_def)
  qed (use fr in simp_all)
  then show ?thesis using s1 kend1 fr(1) by (auto simp: fun_eq_iff)
qed

lemma take_page:
  assumes inv: "uvm_inv s pgdir (p # ps)"
  defines "s' \<equiv> s\<lparr>freelist := ld32 (mem s) p, mem := memset (mem s) p 0 4096\<rparr>"
  shows "uvm_inv s' pgdir ps" "loose s' pgdir ps p" "unused s' pgdir p"
    "lookup (mem s') pgdir = lookup (mem s) pgdir"
    "\<And>x. pgno x \<noteq> pgno p \<Longrightarrow> mem s' x = mem s x" "\<And>x. pgno x = pgno p \<Longrightarrow> mem s' x = 0"
    "\<And>k. k < 1024 \<Longrightarrow> has_table (mem s') pgdir k = has_table (mem s) pgdir k"
    "\<And>k. k < 1024 \<Longrightarrow> table_of (mem s') pgdir k = table_of (mem s) pgdir k"
proof -
  note ki = uvm_invD(1) [OF inv] and wf = uvm_invD(2) [OF inv]
  have p: "page_ok s p" "p \<notin> set ps" using ki by (auto simp: kmem_inv_def)
  have wf0: "wf_pgdir s pgdir ps" using wf by (auto simp: wf_pgdir_def)
  have l0: "loose s pgdir ps p" using p wf unfolding loose_def wf_pgdir_def by auto
  show off: "\<And>x. pgno x \<noteq> pgno p \<Longrightarrow> mem s' x = mem s x" and "\<And>x. pgno x = pgno p \<Longrightarrow> mem s' x = 0"
    using p by (simp_all add: s'_def memset_page page_ok_aligned)
  note fr = loose_frame [OF wf0 l0 off]
  show look: "lookup (mem s') pgdir = lookup (mem s) pgdir" using fr(1) by (simp add: fun_eq_iff)
  show tabs: "\<And>k. k < 1024 \<Longrightarrow> has_table (mem s') pgdir k = has_table (mem s) pgdir k"
    "\<And>k. k < 1024 \<Longrightarrow> table_of (mem s') pgdir k = table_of (mem s) pgdir k"
    using fr(2,3) by simp_all
  have ok: "page_ok s' = page_ok s" by (auto simp: page_ok_def s'_def fun_eq_iff)
  show "loose s' pgdir ps p" using l0 by (simp add: loose_def ok tabs)
  show "unused s' pgdir p"
    using uvm_invD(4) [OF inv] looseD(2) look by (fastforce simp: unused_def present_def upage_def)
  have "kmem_inv s' ps"
    unfolding s'_def using kalloc_Cons_inv [OF ki]
  proof (rule kmem_inv_write)
    fix x assume "pgno x \<in> pgno ` set ps"
    then have "pgno x \<noteq> pgno p" using p ki page_ok_pgno by (fastforce simp: kmem_inv_def)
    then show "memset (mem s) p 0 4096 x = mem (s\<lparr>freelist := ld32 (mem s) p\<rparr>) x"
      using off by (simp add: s'_def)
  qed
  moreover have "wf_pgdir s' pgdir ps" using wf0 by (simp add: wf_pgdir_def ok tabs)
  ultimately show "uvm_inv s' pgdir ps"
    using inv by (rule_tac uvm_inv_cong)
      (use tabs look looseD(2) [OF uvm_invD(4) [OF inv]] in \<open>auto simp: s'_def present_def\<close>)
qed

lemma loose_vm_step:
  assumes l: "loose s pgdir ps p" and st: "vm_step pgdir s ps s' ps'"
  shows "loose s' pgdir ps' p"
proof -
  have "page_ok s' = page_ok s" using vm_stepD(4) [OF st] by (auto simp: page_ok_def fun_eq_iff)
  moreover have "table_of (mem s') pgdir k \<noteq> p" if k: "k < 1024" "has_table (mem s') pgdir k" for k
    using vm_stepD(7) [OF st k] vm_stepD(6) [OF st k(1)] looseD(2) [OF l] looseD(4) [OF l k(1)] by auto
  ultimately show ?thesis using looseD [OF l] vm_stepD(3) [OF st] by (auto simp: loose_def)
qed

lemma loose_mem_step:
  assumes inv: "uvm_inv s pgdir ps" and l: "loose s pgdir ps (PGROUNDDOWN x)"
    and st: "vm_step pgdir s ps s' ps'"
  shows "mem s' x = mem s x"
proof -
  let ?p = "PGROUNDDOWN x"
  have pg: "pgno x = pgno ?p" by (simp add: pgno_def unat_PGROUNDDOWN)
  note wf = uvm_invD(2) [OF inv]
  show ?thesis
    using st
  proof (rule vm_stepD(8))
    show "pgno x \<noteq> pgno pgdir"
      using page_ok_pgno [OF looseD(1) [OF l] wf_pgdirD(1) [OF wf]] looseD(3) [OF l] pg by simp
    show "pgno x \<notin> pgno ` set ps"
      using page_ok_pgno [OF looseD(1) [OF l]] uvm_invD(1) [OF inv] looseD(2) [OF l] pg
      by (auto simp: kmem_inv_def)
    fix k assume k: "k < 1024" "has_table (mem s) pgdir k"
    show "pgno x \<noteq> pgno (table_of (mem s) pgdir k)"
      using page_ok_pgno [OF looseD(1) [OF l] wf_pgdirD(3) [OF wf k]] looseD(4) [OF l k] pg by auto
  qed
qed

lemma uvm_inv_vm_step:
  assumes inv: "uvm_inv s pgdir ps" and st: "vm_step pgdir s ps s' ps'"
    and look: "\<And>v. v < KERNBASE \<Longrightarrow> present (mem s') pgdir v \<Longrightarrow>
      loose s pgdir ps (upage (mem s') pgdir v)"
    and inj: "\<And>v w. v < KERNBASE \<Longrightarrow> w < KERNBASE \<Longrightarrow> present (mem s') pgdir v \<Longrightarrow>
      present (mem s') pgdir w \<Longrightarrow> upage (mem s') pgdir v = upage (mem s') pgdir w \<Longrightarrow> pgno v = pgno w"
  shows "uvm_inv s' pgdir ps'"
  using vm_stepD(1,2) [OF st] uvm_invD(3) [OF inv] vm_stepD(4) [OF st]
proof (rule uvm_inv_step)
  fix k assume k: "k < 1024" "has_table (mem s') pgdir k"
  show "has_table (mem s) pgdir k \<and> table_of (mem s') pgdir k = table_of (mem s) pgdir k \<or>
      table_of (mem s') pgdir k \<in> set ps"
    using vm_stepD(7) [OF st k] vm_stepD(6) [OF st k(1)] by auto
next
  fix v assume v: "v < KERNBASE" "present (mem s') pgdir v"
  show "loose s pgdir ps (upage (mem s') pgdir v) \<and> upage (mem s') pgdir v \<notin> set ps'"
    using look [OF v] looseD(2) [OF look [OF v]] vm_stepD(3) [OF st] by auto
qed (rule inj)

lemma mappages_one:
  assumes inv: "uvm_inv s pgdir ps" and a: "pg_aligned a" "lookup (mem s) pgdir a AND 1 = 0"
  shows "\<exists>r s' ps'. mappages pgdir a 4096 pa perm s = Ret (r, s') \<and> vm_step pgdir s ps s' ps' \<and>
    (r = 0 \<and> lookup (mem s') pgdir = (\<lambda>v. if pgno v = pgno a then pa OR perm OR 1 else lookup (mem s) pgdir v)
     \<or> r = -1 \<and> ps = [] \<and> lookup (mem s') pgdir = lookup (mem s) pgdir)"
proof -
  note ki = uvm_invD(1) [OF inv] and wf = uvm_invD(2) [OF inv]
  have d: "PGROUNDDOWN a = a" using a(1) by simp
  have "in_range a 4096 (a + 4096 - 1)" by (simp add: in_range_def)
  with a(1) have e: "PGROUNDDOWN (a + 4096 - 1) = a" by (rule PGROUNDDOWN_page)
  obtain pte s1 where w: "walkpgdir pgdir a True s = (pte, s1)" by fastforce
  have run: "mappages pgdir a 4096 pa perm s =
      (if pte = 0 then Ret (-1, s1)
       else if ld32 (mem s1) pte AND 1 \<noteq> 0 then Panic ''remap''
       else Ret (0, s1\<lparr>mem := st32 (mem s1) pte (pa OR perm OR 1)\<rparr>))"
    unfolding mappages_def Let_def d e PAGES_Suc mappages_loop.simps w by simp
  show ?thesis
  proof (cases "pte = 0")
    case True
    then show ?thesis using walk_True_zero [OF ki wf] w vm_step_refl [OF ki wf] run by auto
  next
    case False
    from walk_then_set [OF ki wf w False, of "pa OR perm OR 1"] a(2) run False show ?thesis by auto
  qed
qed

lemma map_page:
  assumes inv: "uvm_inv s pgdir ps" and l: "loose s pgdir ps p" and u: "unused s pgdir p"
    and a: "pg_aligned a" "lookup (mem s) pgdir a AND 1 = 0"
  shows "\<exists>r s' ps'. mappages pgdir a 4096 (V2P p) 6 s = Ret (r, s') \<and> vm_step pgdir s ps s' ps' \<and>
    uvm_inv s' pgdir ps' \<and>
    (r = 0 \<and> lookup (mem s') pgdir = (\<lambda>v. if pgno v = pgno a then V2P p OR 6 OR 1 else lookup (mem s) pgdir v)
     \<or> r = -1 \<and> ps = [] \<and> lookup (mem s') pgdir = lookup (mem s) pgdir \<and> loose s' pgdir ps' p \<and> unused s' pgdir p)"
proof -
  from mappages_one [OF inv a] obtain r s' ps' where
    r: "mappages pgdir a 4096 (V2P p) 6 s = Ret (r, s')" and st: "vm_step pgdir s ps s' ps'" and
    look: "r = 0 \<and> lookup (mem s') pgdir = (\<lambda>v. if pgno v = pgno a then V2P p OR 6 OR 1 else lookup (mem s) pgdir v)
     \<or> r = -1 \<and> ps = [] \<and> lookup (mem s') pgdir = lookup (mem s) pgdir" by blast
  have new: "upage (mem s') pgdir v = p" if "r = 0" "pgno v = pgno a" for v
    using look upage_map [OF page_ok_aligned [OF looseD(1) [OF l]]] that by (auto simp: upage_def)
  have old: "present (mem s') pgdir v = present (mem s) pgdir v"
    "upage (mem s') pgdir v = upage (mem s) pgdir v" if "\<not> (r = 0 \<and> pgno v = pgno a)" for v
    using look that by (auto simp: present_def upage_def)
  have "uvm_inv s' pgdir ps'"
    using inv st
  proof (rule uvm_inv_vm_step)
    fix v assume v: "v < KERNBASE" "present (mem s') pgdir v"
    show "loose s pgdir ps (upage (mem s') pgdir v)"
      using new [of v] old [of v] v l uvm_invD(4) [OF inv v(1)]
      by (cases "r = 0 \<and> pgno v = pgno a") simp_all
  next
    fix v w assume v: "v < KERNBASE" "w < KERNBASE" "present (mem s') pgdir v" "present (mem s') pgdir w"
      "upage (mem s') pgdir v = upage (mem s') pgdir w"
    then show "pgno v = pgno w"
      using new [of v] old [of v] new [of w] old [of w] u [unfolded unused_def] uvm_invD(5) [OF inv v(1,2)]
      by (cases "r = 0 \<and> pgno v = pgno a"; cases "r = 0 \<and> pgno w = pgno a") metis+
  qed
  moreover have "unused s' pgdir p" if "r = -1"
    using u old that by (simp add: unused_def)
  ultimately show ?thesis
    using r st look loose_vm_step [OF l st] by blast
qed

text \<open>
  The effect of \<open>allocuvm\<close> from page \<open>a\<close> on, when it may have to undo the pages from
  \<open>n\<close> on: with \<open>ok\<close>, every page up to \<open>newsz\<close> is backed by a zeroed page that was
  free; otherwise the present pages from \<open>n\<close> on are gone.
\<close>

definition grows ::
  "'a kmem_state_scheme \<Rightarrow> u32 \<Rightarrow> u32 list \<Rightarrow> nat \<Rightarrow> nat \<Rightarrow> u32 \<Rightarrow> bool \<Rightarrow> 'a kmem_state_scheme \<Rightarrow> u32 list \<Rightarrow> bool"
where
  "grows s pgdir ps n a newsz ok s' ps' \<longleftrightarrow>
     uvm_inv s' pgdir ps' \<and> kend s' = kend s \<and>
     (if ok
      then (\<forall>v. if a \<le> pgno v \<and> 4096 * pgno v < unat newsz
             then upage (mem s') pgdir v \<in> set ps \<and>
               lookup (mem s') pgdir v = V2P (upage (mem s') pgdir v) OR 6 OR 1 \<and>
               (\<forall>x. pgno x = pgno (upage (mem s') pgdir v) \<longrightarrow> mem s' x = 0)
             else lookup (mem s') pgdir v = lookup (mem s) pgdir v)
      else lookup (mem s') pgdir = unmapped n newsz (lookup (mem s) pgdir)) \<and>
     (\<forall>x. loose s pgdir ps (PGROUNDDOWN x) \<longrightarrow>
        ok \<or> (\<forall>v < KERNBASE. n \<le> pgno v \<longrightarrow> 4096 * pgno v < unat newsz \<longrightarrow> present (mem s) pgdir v \<longrightarrow>
          PGROUNDDOWN x \<noteq> upage (mem s) pgdir v) \<longrightarrow> mem s' x = mem s x)"

lemma PGROUNDDOWN_pgno: "page_ok s p \<Longrightarrow> pgno x = pgno p \<longleftrightarrow> PGROUNDDOWN x = p"
proof
  assume p: "page_ok s p"
  show "PGROUNDDOWN x = p" if "pgno x = pgno p"
    using that page_ok_aligned [OF p] by (auto simp: word_unat_eq_iff unat_PGROUNDDOWN pgno_def pg_aligned_def)
  show "pgno x = pgno p" if "PGROUNDDOWN x = p" using that by (auto simp: pgno_def unat_PGROUNDDOWN)
qed

lemma grows_done:
  assumes "uvm_inv s pgdir ps" "\<And>v. a \<le> pgno v \<Longrightarrow> \<not> 4096 * pgno v < unat newsz"
  shows "grows s pgdir ps n a newsz True s ps"
  using assms by (auto simp: grows_def)

lemma grows_full:
  assumes inv: "uvm_inv s pgdir ps" and "unmaps s pgdir ps n newsz s' fs"
  shows "grows s pgdir ps n a newsz False s' (fs @ ps)"
proof -
  have "mem s' x = mem s x" if x: "loose s pgdir ps (PGROUNDDOWN x)"
    "\<And>v. v < KERNBASE \<Longrightarrow> n \<le> pgno v \<Longrightarrow> 4096 * pgno v < unat newsz \<Longrightarrow> present (mem s) pgdir v \<Longrightarrow>
      PGROUNDDOWN x \<noteq> upage (mem s) pgdir v" for x
  proof -
    have fs: "\<exists>v. p = upage (mem s) pgdir v \<and> v < KERNBASE \<and> n \<le> pgno v \<and> 4096 * pgno v < unat newsz \<and>
       present (mem s) pgdir v" if "p \<in> set fs" for p using assms(2) that unfolding unmaps_def by auto
    have "pgno x \<notin> pgno ` set fs"
    proof
      assume "pgno x \<in> pgno ` set fs"
      then obtain p where p: "p \<in> set fs" "pgno x = pgno p" by auto
      from fs [OF p(1)] obtain v where v: "p = upage (mem s) pgdir v" "v < KERNBASE" "n \<le> pgno v"
        "4096 * pgno v < unat newsz" "present (mem s) pgdir v" by blast
      then have "page_ok s p" using looseD(1) uvm_invD(4) [OF inv] by blast
      then show False using PGROUNDDOWN_pgno p(2) v x(2) by metis
    qed
    with x(1) assms(2) show ?thesis by (simp add: unmaps_def)
  qed
  with assms(2) show ?thesis by (auto simp: unmaps_def grows_def)
qed

lemma growsD:
  assumes "grows s pgdir ps n a newsz ok s' ps'"
  shows "uvm_inv s' pgdir ps'" "kend s' = kend s"
    "\<And>v. ok \<Longrightarrow> \<not> (a \<le> pgno v \<and> 4096 * pgno v < unat newsz) \<Longrightarrow> lookup (mem s') pgdir v = lookup (mem s) pgdir v"
    "\<And>v. ok \<Longrightarrow> a \<le> pgno v \<Longrightarrow> 4096 * pgno v < unat newsz \<Longrightarrow> upage (mem s') pgdir v \<in> set ps \<and>
       lookup (mem s') pgdir v = V2P (upage (mem s') pgdir v) OR 6 OR 1 \<and>
       (\<forall>x. pgno x = pgno (upage (mem s') pgdir v) \<longrightarrow> mem s' x = 0)"
    "\<not> ok \<Longrightarrow> lookup (mem s') pgdir = unmapped n newsz (lookup (mem s) pgdir)"
    "\<And>x. loose s pgdir ps (PGROUNDDOWN x) \<Longrightarrow>
       ok \<or> (\<forall>v < KERNBASE. n \<le> pgno v \<longrightarrow> 4096 * pgno v < unat newsz \<longrightarrow> present (mem s) pgdir v \<longrightarrow>
          PGROUNDDOWN x \<noteq> upage (mem s) pgdir v) \<Longrightarrow> mem s' x = mem s x"
  using assms unfolding grows_def by (auto split: if_splits)

lemma take_page_loose:
  assumes inv: "uvm_inv s pgdir (p # ps)" and l: "loose s pgdir (p # ps) q"
  shows "loose (s\<lparr>freelist := ld32 (mem s) p, mem := memset (mem s) p 0 4096\<rparr>) pgdir ps q" "q \<noteq> p"
  using l take_page(7,8) [OF inv] by (auto simp: loose_def page_ok_def)

lemma grow_step:
  assumes inv: "uvm_inv s pgdir (p # qs)" and a: "lookup (mem s) pgdir a = 0" "n \<le> pgno a"
    "4096 * pgno a < unat newsz"
    and s1: "s1 = s\<lparr>freelist := ld32 (mem s) p, mem := memset (mem s) p 0 4096\<rparr>"
    and st: "vm_step pgdir s1 qs s2 ps2"
    and look: "lookup (mem s2) pgdir = (\<lambda>v. if pgno v = pgno a then V2P p OR 6 OR 1 else lookup (mem s1) pgdir v)"
    and g: "grows s2 pgdir ps2 n (Suc (pgno a)) newsz ok s' ps'"
  shows "grows s pgdir (p # qs) n (pgno a) newsz ok s' ps'"
proof -
  note tp = take_page [OF inv, folded s1]
  have p: "page_ok s p" using uvm_invD(1) [OF inv] by (simp add: kmem_inv_def)
  have look2: "lookup (mem s2) pgdir v = (if pgno v = pgno a then V2P p OR 6 OR 1 else lookup (mem s) pgdir v)" for v
    using look tp(4) by simp
  have up2: "upage (mem s2) pgdir v = (if pgno v = pgno a then p else upage (mem s) pgdir v)" for v
    using look2 upage_map [OF page_ok_aligned [OF p]] by (simp add: upage_def)
  have ps2: "set ps2 \<subseteq> set qs" using vm_stepD(3) [OF st] by auto
  have frame: "loose s2 pgdir ps2 (PGROUNDDOWN x)" "mem s2 x = mem s x" "PGROUNDDOWN x \<noteq> p"
    if "loose s pgdir (p # qs) (PGROUNDDOWN x)" for x
  proof -
    note l = take_page_loose [OF inv that, folded s1]
    show "loose s2 pgdir ps2 (PGROUNDDOWN x)" using l(1) st by (rule loose_vm_step)
    show "PGROUNDDOWN x \<noteq> p" by (rule l(2))
    then have "pgno x \<noteq> pgno p" using PGROUNDDOWN_pgno [OF p] by simp
    then show "mem s2 x = mem s x" using loose_mem_step [OF tp(1) l(1) st] tp(5) by simp
  qed
  have zero: "mem s' x = 0" if ok "pgno x = pgno p" for x
  proof -
    have x: "PGROUNDDOWN x = p" using that PGROUNDDOWN_pgno [OF p] by simp
    have "loose s2 pgdir ps2 p" using tp(2) st by (rule loose_vm_step)
    then have "mem s' x = mem s2 x" using growsD(6) [OF g, of x] x \<open>ok\<close> by simp
    also have "\<dots> = mem s1 x" using loose_mem_step [OF tp(1) _ st, of x] x tp(2) by simp
    finally show ?thesis using tp(6) that by simp
  qed
  have pp: "V2P p OR 6 OR 1 = lookup (mem s') pgdir v \<and> upage (mem s') pgdir v = p"
    if ok "pgno v = pgno a" for v
    using growsD(3) [OF g, of v] look2 [of v] up2 [of v] that by (simp add: upage_def)
  have "unmapped n newsz (lookup (mem s2) pgdir) v = unmapped n newsz (lookup (mem s) pgdir) v" for v
    using look2 [of v] a odd_or_present [of "V2P p" 6] lookup_page [of v a "mem s" pgdir]
    by (auto simp: unmapped_def)
  then have un: "lookup (mem s') pgdir = unmapped n newsz (lookup (mem s) pgdir)" if "\<not> ok"
    using growsD(5) [OF g that] by (simp add: fun_eq_iff)
  have kend2: "kend s2 = kend s" using vm_stepD(4) [OF st] s1 by simp
  show ?thesis
    unfolding grows_def
  proof (intro conjI)
    show "uvm_inv s' pgdir ps'" "kend s' = kend s" using growsD(1,2) [OF g] kend2 by simp_all
    show "if ok then (\<forall>v. if pgno a \<le> pgno v \<and> 4096 * pgno v < unat newsz
             then upage (mem s') pgdir v \<in> set (p # qs) \<and>
               lookup (mem s') pgdir v = V2P (upage (mem s') pgdir v) OR 6 OR 1 \<and>
               (\<forall>x. pgno x = pgno (upage (mem s') pgdir v) \<longrightarrow> mem s' x = 0)
             else lookup (mem s') pgdir v = lookup (mem s) pgdir v)
      else lookup (mem s') pgdir = unmapped n newsz (lookup (mem s) pgdir)"
    proof (cases ok)
      case ok: True
      have "if pgno a \<le> pgno v \<and> 4096 * pgno v < unat newsz
             then upage (mem s') pgdir v \<in> set (p # qs) \<and>
               lookup (mem s') pgdir v = V2P (upage (mem s') pgdir v) OR 6 OR 1 \<and>
               (\<forall>x. pgno x = pgno (upage (mem s') pgdir v) \<longrightarrow> mem s' x = 0)
             else lookup (mem s') pgdir v = lookup (mem s) pgdir v" for v
      proof (cases "pgno v = pgno a")
        case True
        with pp [OF ok True] zero [OF ok] a(3) show ?thesis by simp
      next
        case False
        with growsD(3,4) [OF g ok, of v] ps2 look2 [of v] show ?thesis by auto
      qed
      then show ?thesis unfolding if_P [OF ok] by (rule allI)
    qed (use un in simp)
    show "\<forall>x. loose s pgdir (p # qs) (PGROUNDDOWN x) \<longrightarrow>
        ok \<or> (\<forall>v < KERNBASE. n \<le> pgno v \<longrightarrow> 4096 * pgno v < unat newsz \<longrightarrow> present (mem s) pgdir v \<longrightarrow>
          PGROUNDDOWN x \<noteq> upage (mem s) pgdir v) \<longrightarrow> mem s' x = mem s x"
    proof (intro allI impI)
      fix x assume x: "loose s pgdir (p # qs) (PGROUNDDOWN x)"
        "ok \<or> (\<forall>v < KERNBASE. n \<le> pgno v \<longrightarrow> 4096 * pgno v < unat newsz \<longrightarrow> present (mem s) pgdir v \<longrightarrow>
          PGROUNDDOWN x \<noteq> upage (mem s) pgdir v)"
      have "mem s' x = mem s2 x"
        using frame(1) [OF x(1)]
        by (rule growsD(6) [OF g]) (use x(2) frame(3) [OF x(1)] look2 up2 in \<open>auto simp: present_def\<close>)
      with frame(2) [OF x(1)] show "mem s' x = mem s x" by simp
    qed
  qed
qed

lemma grow_fail:
  assumes inv: "uvm_inv s pgdir (p # qs)" and u: "unmaps s2 pgdir ps2 n newsz s3 fs"
    and s1: "s1 = s\<lparr>freelist := ld32 (mem s) p, mem := memset (mem s) p 0 4096\<rparr>"
    and st: "vm_step pgdir s1 qs s2 ps2" and look: "lookup (mem s2) pgdir = lookup (mem s1) pgdir"
    and s2: "uvm_inv s2 pgdir ps2" "loose s2 pgdir ps2 p" "unused s2 pgdir p"
  shows "\<exists>s'. kfree p s3 = Ret s' \<and> grows s pgdir (p # qs) n a newsz False s' (p # fs @ ps2)"
proof -
  note tp = take_page [OF inv, folded s1]
  have p: "page_ok s p" using uvm_invD(1) [OF inv] by (simp add: kmem_inv_def)
  have fs: "p \<notin> set fs" using u s2(3) by (auto simp: unmaps_def unused_def)
  have inv3: "uvm_inv s3 pgdir (fs @ ps2)" and kend3: "kend s3 = kend s2"
    and look3: "lookup (mem s3) pgdir = unmapped n newsz (lookup (mem s2) pgdir)"
    using u by (simp_all add: unmaps_def)
  have ok3: "page_ok s3 = page_ok s2" using kend3 by (auto simp: page_ok_def fun_eq_iff)
  have "loose s3 pgdir (fs @ ps2) p" using s2(2) fs u by (simp add: loose_def unmaps_def ok3)
  moreover have "unused s3 pgdir p"
    using s2(3) look3 by (auto simp: unused_def present_def upage_def unmapped_def)
  ultimately obtain s4 where s4: "kfree p s3 = Ret s4" "uvm_inv s4 pgdir (p # fs @ ps2)" "kend s4 = kend s3"
    "lookup (mem s4) pgdir = lookup (mem s3) pgdir" "\<And>x. pgno x \<noteq> pgno p \<Longrightarrow> mem s4 x = mem s3 x"
    using free_loose [OF inv3] by blast
  have g: "grows s2 pgdir ps2 n a newsz False s3 (fs @ ps2)" using s2(1) u by (rule grows_full)
  have fr: "mem s4 x = mem s x" if x: "loose s pgdir (p # qs) (PGROUNDDOWN x)"
      "\<forall>v < KERNBASE. n \<le> pgno v \<longrightarrow> 4096 * pgno v < unat newsz \<longrightarrow> present (mem s) pgdir v \<longrightarrow>
          PGROUNDDOWN x \<noteq> upage (mem s) pgdir v" for x
  proof -
    note l = take_page_loose [OF inv x(1), folded s1]
    have ne: "pgno x \<noteq> pgno p" using l(2) PGROUNDDOWN_pgno [OF p] by simp
    have "mem s3 x = mem s2 x"
      using loose_vm_step [OF l(1) st]
      by (rule growsD(6) [OF g]) (use x(2) look tp(4) in \<open>simp add: present_def upage_def\<close>)
    then show ?thesis using s4(5) [OF ne] loose_mem_step [OF tp(1) l(1) st] tp(5) [OF ne] by simp
  qed
  have "kend s2 = kend s" using vm_stepD(4) [OF st] s1 by simp
  then have "grows s pgdir (p # qs) n a newsz False s4 (p # fs @ ps2)"
    using s4 look3 look tp(4) fr kend3 by (simp add: grows_def)
  with s4(1) show ?thesis by blast
qed

lemma allocuvm_loop_spec:
  assumes "uvm_inv s pgdir ps" "pg_aligned a" "newsz < KERNBASE" "unat newsz \<le> unat a + 4096 * fuel"
    "oldsz \<le> newsz" "pgno (PGROUNDUP oldsz) \<le> pgno a"
    "\<And>v. pgno a \<le> pgno v \<Longrightarrow> 4096 * pgno v < unat newsz \<Longrightarrow> lookup (mem s) pgdir v = 0"
  shows "\<exists>ok s' ps'. allocuvm_loop (Suc fuel) pgdir oldsz newsz a s = Ret (if ok then newsz else 0, s') \<and>
    grows s pgdir ps (pgno (PGROUNDUP oldsz)) (pgno a) newsz ok s' ps'"
  using assms
proof (induction fuel arbitrary: a s ps)
  case (0 a s ps)
  have pa: "unat a = 4096 * pgno a" using 0(2) by (auto simp: pgno_def pg_aligned_def)
  have "grows s pgdir ps (pgno (PGROUNDUP oldsz)) (pgno a) newsz True s ps"
    using 0(1,4) pa by (intro grows_done) auto
  moreover have "\<not> a < newsz" using 0(4) by (simp add: word_less_nat_alt)
  ultimately show ?case by (intro exI [of _ True]) auto
next
  case (Suc fuel a s ps)
  note inv = Suc.prems(1) and al = Suc.prems(2)
  let ?n = "pgno (PGROUNDUP oldsz)"
  have pa: "unat a = 4096 * pgno a" using al by (auto simp: pgno_def pg_aligned_def)
  show ?case
  proof (cases "a < newsz")
    case False
    then have "grows s pgdir ps ?n (pgno a) newsz True s ps"
      using inv pa by (intro grows_done) (auto simp: word_less_nat_alt)
    with False show ?thesis by (intro exI [of _ True]) auto
  next
    case lt: True
    then have kb: "a < KERNBASE" "4096 * pgno a < unat newsz" using Suc.prems(3) pa
      by (auto simp: word_less_nat_alt)
    have "oldsz < KERNBASE" using Suc.prems(3,5) by simp
    note up = PGROUNDUP_bounds [OF this]
    have "unat (PGROUNDUP oldsz) = 4096 * ?n" using up(1) by (auto simp: pgno_def pg_aligned_def)
    then have "unat oldsz \<le> unat a" using up(2) Suc.prems(6) pa by simp
    then have old: "oldsz < newsz" "newsz \<le> KERNBASE" using lt Suc.prems(3) by (auto simp: word_less_nat_alt word_le_nat_alt)
    have zero: "lookup (mem s) pgdir a = 0" using Suc.prems(7) [of a] kb(2) by simp
    show ?thesis
    proof (cases ps)
      case Nil
      with inv have k: "kalloc s = (0, s)" using uvm_invD(1) kalloc_Nil by blast
      from deallocuvm_spec [OF inv old] obtain s' fs where
        d: "deallocuvm pgdir newsz oldsz s = Ret (oldsz, s')" "unmaps s pgdir ps ?n newsz s' fs" by blast
      with k lt show ?thesis using grows_full [OF inv d(2)]
        by (intro exI [of _ False] exI [of _ s'] exI [of _ "fs @ ps"]) simp
    next
      case (Cons p qs)
      define s1 where "s1 = s\<lparr>freelist := ld32 (mem s) p, mem := memset (mem s) p 0 4096\<rparr>"
      have inv': "uvm_inv s pgdir (p # qs)" using inv Cons by simp
      note tp = take_page [OF inv', folded s1_def]
      have k: "kalloc s = (p, s\<lparr>freelist := ld32 (mem s) p\<rparr>)" "p \<noteq> 0"
        using uvm_invD(1) [OF inv'] by (auto simp: kalloc_Cons kmem_inv_def)
      have "lookup (mem s1) pgdir a AND 1 = 0" using zero tp(4) by simp
      from map_page [OF tp(1-3) al this] obtain r s2 ps2 where
        m: "mappages pgdir a 4096 (V2P p) 6 s1 = Ret (r, s2)" and st: "vm_step pgdir s1 qs s2 ps2"
        and inv2: "uvm_inv s2 pgdir ps2" and
        r: "r = 0 \<and> lookup (mem s2) pgdir = (\<lambda>v. if pgno v = pgno a then V2P p OR 6 OR 1 else lookup (mem s1) pgdir v)
          \<or> r = -1 \<and> lookup (mem s2) pgdir = lookup (mem s1) pgdir \<and> loose s2 pgdir ps2 p \<and> unused s2 pgdir p"
        by blast
      have run: "allocuvm_loop (Suc (Suc fuel)) pgdir oldsz newsz a s =
          (if r < 0 then obind (deallocuvm pgdir newsz oldsz s2) (\<lambda>(_, s). obind (kfree p s) (\<lambda>s. Ret (0, s)))
           else allocuvm_loop (Suc fuel) pgdir oldsz newsz (a + 4096) s2)"
        using lt k m by (subst allocuvm_loop.simps) (simp add: s1_def del: allocuvm_loop.simps)
      show ?thesis
        using r
      proof (elim disjE conjE)
        assume r0: "r = 0" and look: "lookup (mem s2) pgdir =
          (\<lambda>v. if pgno v = pgno a then V2P p OR 6 OR 1 else lookup (mem s1) pgdir v)"
        have ua: "unat (a + 4096) = unat a + 4096"
          using kb(1) unat_add_lem [of a 4096] by (simp add: word_less_nat_alt)
        have next_pg: "pgno (a + 4096) = Suc (pgno a)" using al kb(1) by (rule pgno_add_page)
        have "lookup (mem s2) pgdir v = 0" if "Suc (pgno a) \<le> pgno v" "4096 * pgno v < unat newsz" for v
          using Suc.prems(7) [of v] that look tp(4) by simp
        then have "\<exists>ok s' ps'. allocuvm_loop (Suc fuel) pgdir oldsz newsz (a + 4096) s2 =
            Ret (if ok then newsz else 0, s') \<and> grows s2 pgdir ps2 ?n (pgno (a + 4096)) newsz ok s' ps'"
          using inv2 pg_aligned_add_page [OF al] Suc.prems(3-6) ua next_pg by (intro Suc.IH) simp_all
        then obtain ok s' ps' where
          IH: "allocuvm_loop (Suc fuel) pgdir oldsz newsz (a + 4096) s2 = Ret (if ok then newsz else 0, s')"
            "grows s2 pgdir ps2 ?n (Suc (pgno a)) newsz ok s' ps'" unfolding next_pg by blast
        have "grows s pgdir (p # qs) ?n (pgno a) newsz ok s' ps'"
          by (rule grow_step [OF inv' zero Suc.prems(6) kb(2) s1_def st look IH(2)])
        moreover have "allocuvm_loop (Suc (Suc fuel)) pgdir oldsz newsz a s = Ret (if ok then newsz else 0, s')"
          unfolding run r0 IH(1) by simp
        ultimately show ?thesis unfolding Cons by blast
      next
        assume r1: "r = -1" and f: "lookup (mem s2) pgdir = lookup (mem s1) pgdir"
          "loose s2 pgdir ps2 p" "unused s2 pgdir p"
        from deallocuvm_spec [OF inv2 old] obtain s3 fs where
          d: "deallocuvm pgdir newsz oldsz s2 = Ret (oldsz, s3)" "unmaps s2 pgdir ps2 ?n newsz s3 fs" by blast
        from grow_fail [OF inv' d(2) s1_def st f(1) inv2 f(2,3)] obtain s' where
          "kfree p s3 = Ret s'" "grows s pgdir (p # qs) ?n (pgno a) newsz False s' (p # fs @ ps2)" by blast
        moreover from this have "allocuvm_loop (Suc (Suc fuel)) pgdir oldsz newsz a s = Ret (if False then newsz else 0, s')"
          unfolding run r1 d(1) by simp
        ultimately show ?thesis unfolding Cons by blast
      qed
    qed
  qed
qed

end
