(* ===== verification/Ucopy.thy ===== *)
theory Ucopy
  imports Uvm
begin

text \<open>
  Copying to user space and hiding pages from it: \<open>uva2ka\<close>, \<open>copyout\<close> and \<open>clearpteu\<close>
  of \<^verbatim>\<open>vm.c\<close>, seen through the map of the process.
\<close>

definition uaddr :: "memory \<Rightarrow> u32 \<Rightarrow> u32 \<Rightarrow> u32" where
  "uaddr m pgdir va = upage m pgdir va + (va - PGROUNDDOWN va)"

definition user_ok :: "memory \<Rightarrow> u32 \<Rightarrow> u32 \<Rightarrow> bool" where
  "user_ok m pgdir va \<longleftrightarrow> present m pgdir va \<and> lookup m pgdir va AND PTE_U \<noteq> 0"

lemma loose_write:
  assumes inv: "uvm_inv s pgdir ps" and l: "loose s pgdir ps p"
    and m: "\<And>x. pgno x \<noteq> pgno p \<Longrightarrow> m x = mem s x"
  shows "uvm_inv (s\<lparr>mem := m\<rparr>) pgdir ps" "lookup m pgdir = lookup (mem s) pgdir"
proof -
  note ki = uvm_invD(1) [OF inv] and wf = uvm_invD(2) [OF inv]
  note fr = loose_frame [OF wf l m]
  show look: "lookup m pgdir = lookup (mem s) pgdir" using fr(1) by (simp add: fun_eq_iff)
  have ok: "page_ok (s\<lparr>mem := m\<rparr>) = page_ok s" by (auto simp: page_ok_def fun_eq_iff)
  have k: "kmem_inv (s\<lparr>mem := m\<rparr>) ps"
    using ki
  proof (rule kmem_inv_write)
    fix x assume "pgno x \<in> pgno ` set ps"
    then obtain q where q: "q \<in> set ps" "pgno x = pgno q" by auto
    then have "page_ok s q" "q \<noteq> p" using ki looseD(2) [OF l] by (auto simp: kmem_inv_def)
    then have "pgno q \<noteq> pgno p" using page_ok_pgno looseD(1) [OF l] by blast
    with q m show "m x = mem s x" by simp
  qed
  have w: "wf_pgdir (s\<lparr>mem := m\<rparr>) pgdir ps"
    using wf unfolding wf_pgdir_def by (simp add: ok fr)
  show "uvm_inv (s\<lparr>mem := m\<rparr>) pgdir ps"
    using inv k w
    by (rule uvm_inv_cong)
      (use look looseD(2) [OF uvm_invD(4) [OF inv]] fr in \<open>auto simp: present_def\<close>)
qed

lemma uva2ka_user_ok:
  assumes "wf_pgdir s pgdir ps"
  shows "user_ok (mem s) pgdir va \<Longrightarrow> uva2ka pgdir va s = upage (mem s) pgdir va"
    "has_table (mem s) pgdir (unat (PDX va)) \<Longrightarrow> \<not> user_ok (mem s) pgdir va \<Longrightarrow> uva2ka pgdir va s = 0"
proof -
  have "ld32 (mem s) (fst (walkpgdir pgdir va False s)) = lookup (mem s) pgdir va"
    if "has_table (mem s) pgdir (unat (PDX va))" using that by (simp add: walkpgdir_False lookup_def)
  moreover have "has_table (mem s) pgdir (unat (PDX va))" if "user_ok (mem s) pgdir va"
    using that by (auto simp: user_ok_def present_def lookup_def split: if_splits)
  ultimately show "user_ok (mem s) pgdir va \<Longrightarrow> uva2ka pgdir va s = upage (mem s) pgdir va"
    "has_table (mem s) pgdir (unat (PDX va)) \<Longrightarrow> \<not> user_ok (mem s) pgdir va \<Longrightarrow> uva2ka pgdir va s = 0"
    by (auto simp: uva2ka_def Let_def user_ok_def present_def upage_def)
qed

lemma in_range_unat: "in_range a n x \<Longrightarrow> unat a + n \<le> 2 ^ 32 \<Longrightarrow> unat x = unat a + unat (x - a)"
proof -
  assume r: "in_range a n x" "unat a + n \<le> 2 ^ 32"
  then have "unat a + unat (x - a) < 2 ^ 32" by (simp add: in_range_def)
  from unat_add_of_nat [OF this] show ?thesis by simp
qed

lemma page_div_same: "(a + k) div 4096 = a div 4096" if "a mod 4096 + k < 4096" for a k :: nat
proof -
  have "a + k = (a mod 4096 + k) + a div 4096 * 4096" by simp
  then have "(a + k) div 4096 = (a mod 4096 + k) div 4096 + a div 4096"
    by (metis div_mult_self1 add.commute zero_neq_numeral)
  with that show ?thesis by simp
qed

lemma unat_uaddr:
  assumes "pg_aligned (upage m pgdir va)"
  shows "unat (uaddr m pgdir va) = unat (upage m pgdir va) + unat va mod 4096"
    "pgno (uaddr m pgdir va) = pgno (upage m pgdir va)"
proof -
  let ?k = "unat (va - PGROUNDDOWN va)"
  have k: "?k < 4096" using unat_page_rest [of va] by simp
  show "unat (uaddr m pgdir va) = unat (upage m pgdir va) + unat va mod 4096"
    "pgno (uaddr m pgdir va) = pgno (upage m pgdir va)"
    unfolding unat_page_rest [symmetric]
    using unat_page_offset [OF assms k] pgno_offset [OF assms k] by (simp_all add: uaddr_def)
qed

lemma same_page_iff: "PGROUNDDOWN v = PGROUNDDOWN w \<longleftrightarrow> pgno v = pgno w"
  by (simp add: word_unat_eq_iff unat_PGROUNDDOWN pgno_def)

text \<open>One round of \<open>copyout\<close>: up to the end of the page of \<open>va\<close>.\<close>

lemma copyout_page:
  assumes inv: "uvm_inv s pgdir ps" and va: "va < KERNBASE" "present (mem s) pgdir va"
    and n: "unat va mod 4096 + unat n \<le> 4096" and src: "unat buf + unat n < 2 ^ 32"
  defines "m \<equiv> memmove (mem s) (uaddr (mem s) pgdir va) buf n"
  shows "uvm_inv (s\<lparr>mem := m\<rparr>) pgdir ps" "lookup m pgdir = lookup (mem s) pgdir"
    "\<And>x. pgno x \<noteq> pgno (upage (mem s) pgdir va) \<Longrightarrow> m x = mem s x"
    "\<And>v. v < KERNBASE \<Longrightarrow> present (mem s) pgdir v \<Longrightarrow> m (uaddr (mem s) pgdir v) =
       (if in_range va (unat n) v then mem s (buf + (v - va)) else mem s (uaddr (mem s) pgdir v))"
proof -
  let ?u = "\<lambda>v. uaddr (mem s) pgdir v" and ?p = "\<lambda>v. upage (mem s) pgdir v"
  have l: "loose s pgdir ps (?p va)" using uvm_invD(4) [OF inv va] .
  have al: "pg_aligned (?p v)" if "v < KERNBASE" "present (mem s) pgdir v" for v
    using uvm_invD(4) [OF inv that] looseD(1) page_ok_aligned by blast
  note ua = unat_uaddr [OF al [OF va]]
  have top: "unat (?p va) + 4096 \<le> 2 ^ 32"
    using unat_page_offset [OF al [OF va], of 4095] unsigned_less [of "?p va + of_nat 4095", where ?'a = nat] by simp
  have dst: "unat (?u va) + unat n \<le> 2 ^ 32" using ua(1) n top by simp
  have mm: "m x = (if in_range (?u va) (unat n) x then mem s (buf + (x - ?u va)) else mem s x)" for x
    unfolding m_def memmove_eq [OF src dst] by simp
  have inr: "pgno x = pgno (?p va)" if "in_range (?u va) (unat n) x" for x
  proof -
    have "unat x = unat (?u va) + unat (x - ?u va)" "unat (x - ?u va) < unat n"
      using in_range_unat [OF that dst] that by (simp_all add: in_range_def)
    then have "unat x = unat (?p va) + (unat va mod 4096 + unat (x - ?u va))" using ua(1) by simp
    moreover have "unat va mod 4096 + unat (x - ?u va) < 4096" using n \<open>unat (x - ?u va) < unat n\<close> by simp
    ultimately show ?thesis using al [OF va] by (auto simp: pgno_def pg_aligned_def)
  qed
  show off: "\<And>x. pgno x \<noteq> pgno (?p va) \<Longrightarrow> m x = mem s x" using mm inr by auto
  show "uvm_inv (s\<lparr>mem := m\<rparr>) pgdir ps" "lookup m pgdir = lookup (mem s) pgdir"
    using loose_write [OF inv l off] by simp_all
  fix v assume v: "v < KERNBASE" "present (mem s) pgdir v"
  show "m (?u v) = (if in_range va (unat n) v then mem s (buf + (v - va)) else mem s (?u v))"
  proof (cases "pgno v = pgno va")
    case True
    then have "?p v = ?p va" "PGROUNDDOWN v = PGROUNDDOWN va"
      using lookup_page [of v va] by (simp_all add: upage_def same_page_iff)
    then have "?u v - ?u va = v - va" by (simp add: uaddr_def)
    then show ?thesis unfolding mm by (simp add: in_range_def)
  next
    case False
    have ne: "pgno (?u v) \<noteq> pgno (?p va)"
    proof
      assume "pgno (?u v) = pgno (?p va)"
      then have "pgno (?p v) = pgno (?p va)" using unat_uaddr(2) [OF al [OF v]] by simp
      then have "?p v = ?p va" using pg_aligned_eqI al va v by blast
      with False show False using uvm_invD(5) [OF inv v(1) va(1) v(2) va(2)] by simp
    qed
    have "\<not> in_range va (unat n) v"
    proof
      assume r: "in_range va (unat n) v"
      have "unat va div 4096 * 4096 + unat va mod 4096 = unat va" by simp
      moreover have "unat va < 0x80000000" using va(1) by (simp add: word_less_nat_alt)
      ultimately have "unat v = unat va + unat (v - va)"
        using in_range_unat [OF r] n by simp
      then have "unat v div 4096 = unat va div 4096"
        using r n page_div_same [of "unat va" "unat (v - va)"] by (simp add: in_range_def)
      with False show False by (simp add: pgno_def)
    qed
    then show ?thesis using off [OF ne] by simp
  qed
qed

lemma copyout_spec:
  assumes "uvm_inv s pgdir ps" "unat va + unat len \<le> 0x80000000" "unat buf + unat len < 2 ^ 32"
    and "\<And>v. in_range va (unat len) v \<Longrightarrow> user_ok (mem s) pgdir v"
    and "\<And>i v. i < unat len \<Longrightarrow> v < KERNBASE \<Longrightarrow> present (mem s) pgdir v \<Longrightarrow>
      pgno (buf + of_nat i) \<noteq> pgno (upage (mem s) pgdir v)"
  shows "\<exists>m. copyout pgdir va buf len s = (0, s\<lparr>mem := m\<rparr>) \<and> uvm_inv (s\<lparr>mem := m\<rparr>) pgdir ps \<and>
    lookup m pgdir = lookup (mem s) pgdir \<and>
    (\<forall>v. v < KERNBASE \<longrightarrow> present (mem s) pgdir v \<longrightarrow> m (uaddr (mem s) pgdir v) =
       (if in_range va (unat len) v then mem s (buf + (v - va)) else mem s (uaddr (mem s) pgdir v)))"
  using assms
proof (induction "unat len" arbitrary: va buf len s rule: less_induct)
  case (less len va buf s)
  show ?case
  proof (cases "len = 0")
    case True
    with less.prems(1) show ?thesis by (intro exI [of _ "mem s"]) (simp add: copyout.simps)
  next
    case False
    then have len: "0 < unat len" by (simp add: unat_gt_0)
    then have pos: "0 < len" by (simp add: word_less_nat_alt)
    let ?va0 = "PGROUNDDOWN va" and ?m0 = "mem s"
    have kb: "va < KERNBASE" using less.prems(2) len by (simp add: word_less_nat_alt)
    have ok: "user_ok ?m0 pgdir va" using less.prems(4) [of va] len by (simp add: in_range_def)
    have "user_ok ?m0 pgdir ?va0" "upage ?m0 pgdir ?va0 = upage ?m0 pgdir va"
      using ok lookup_page [of "?va0" va ?m0 pgdir]
      by (simp_all add: user_ok_def present_def upage_def pgno_def unat_PGROUNDDOWN)
    then have ka: "uva2ka pgdir ?va0 s = upage ?m0 pgdir va"
      using uva2ka_user_ok(1) [OF uvm_invD(2) [OF less.prems(1)]] by simp
    have pr: "present ?m0 pgdir va" using ok by (simp add: user_ok_def)
    have ne: "upage ?m0 pgdir va \<noteq> 0"
      using page_ok_nonzero looseD(1) uvm_invD(4) [OF less.prems(1) kb pr] by blast
    define n where "n = (if 4096 - (va - ?va0) > len then len else 4096 - (va - ?va0))"
    have rest: "unat (4096 - (va - ?va0)) = 4096 - unat va mod 4096"
      using unat_page_rest [of va] mod_less_divisor [of 4096 "unat va"]
      by (simp add: unat_sub_if')
    have un: "unat n = min (unat len) (4096 - unat va mod 4096)"
      using rest by (auto simp: n_def word_less_nat_alt)
    have off: "unat va mod 4096 < 4096" by simp
    have n: "unat va mod 4096 + unat n \<le> 4096" "0 < unat n" "unat n \<le> unat len"
      using un off len by (auto simp: min_def)
    have src: "unat buf + unat n < 2 ^ 32" using less.prems(3) n(3) by linarith
    define m where "m = memmove ?m0 (uaddr ?m0 pgdir va) buf n"
    note cp = copyout_page [OF less.prems(1) kb pr n(1) src, folded m_def]
    have run: "copyout pgdir va buf len s = copyout pgdir (?va0 + 4096) (buf + n) (len - n) (s\<lparr>mem := m\<rparr>)"
      using pos ka ne
      by (subst copyout.simps) (simp only: Let_def n_def m_def uaddr_def if_True if_False simp_thms)
    have ul: "unat (len - n) = unat len - unat n" using n(3) by (simp add: unat_sub_if' word_le_nat_alt)
    have ub: "unat (buf + n) = unat buf + unat n" using src unat_add_lem [of buf n] by simp
    have ua0: "unat ?va0 + unat va mod 4096 = unat va" by (simp add: unat_PGROUNDDOWN)
    have ua1: "unat (?va0 + 4096) = unat ?va0 + 4096"
      using ua0 kb unat_add_lem [of "?va0" 4096] by (simp add: word_less_nat_alt)
    have top: "unat (?va0 + 4096) + unat (len - n) \<le> 0x80000000"
    proof (cases "unat len = unat n")
      case True
      obtain q where q: "unat ?va0 = 4096 * q" using unat_PGROUNDDOWN [of va] by auto
      have "unat ?va0 < 0x80000000" using kb ua0 by (simp add: word_less_nat_alt)
      with q have "4096 * q + 4096 \<le> 0x80000000" by simp
      then show ?thesis using ul ua1 True q by simp
    qed (use ul ua0 ua1 un less.prems(2) in \<open>auto simp: min_def\<close>)
    have split: "in_range va (unat len) v \<longleftrightarrow>
        in_range va (unat n) v \<or> in_range (?va0 + 4096) (unat (len - n)) v"
      and later: "in_range (?va0 + 4096) (unat (len - n)) v \<Longrightarrow>
        \<not> in_range va (unat n) v \<and> buf + n + (v - (?va0 + 4096)) = buf + (v - va)" for v
    proof -
      have vn: "?va0 + 4096 = va + n" if "unat len \<noteq> unat n"
        using that un ua0 ua1 off unat_add_lem [of va n] less.prems(2) n(3)
        by (auto simp: word_unat_eq_iff min_def split: if_splits)
      have "unat (v - (va + n)) = (if unat n \<le> unat (v - va) then unat (v - va) - unat n
          else unat (v - va) + 2 ^ 32 - unat n)"
        by (simp add: diff_diff_eq [symmetric] unat_sub_if')
      then show "in_range va (unat len) v \<longleftrightarrow>
          in_range va (unat n) v \<or> in_range (?va0 + 4096) (unat (len - n)) v"
        "in_range (?va0 + 4096) (unat (len - n)) v \<Longrightarrow>
          \<not> in_range va (unat n) v \<and> buf + n + (v - (?va0 + 4096)) = buf + (v - va)"
        using vn ul n(3) less.prems(2) by (cases "unat len = unat n"; auto simp: in_range_def split: if_splits)+
    qed
    have same: "present m pgdir = present ?m0 pgdir" "upage m pgdir = upage ?m0 pgdir"
      "user_ok m pgdir = user_ok ?m0 pgdir" "uaddr m pgdir = uaddr ?m0 pgdir"
      using cp(2) by (simp_all add: present_def upage_def user_ok_def uaddr_def fun_eq_iff)
    have src': "pgno (buf + n + of_nat i) \<noteq> pgno (upage (mem (s\<lparr>mem := m\<rparr>)) pgdir v)"
      if "i < unat (len - n)" "v < KERNBASE" "present (mem (s\<lparr>mem := m\<rparr>)) pgdir v" for i v
      using less.prems(5) [of "unat n + i" v] that ul by (simp add: same add.assoc)
    have "\<exists>m'. copyout pgdir (?va0 + 4096) (buf + n) (len - n) (s\<lparr>mem := m\<rparr>) = (0, s\<lparr>mem := m\<rparr>\<lparr>mem := m'\<rparr>) \<and>
        uvm_inv (s\<lparr>mem := m\<rparr>\<lparr>mem := m'\<rparr>) pgdir ps \<and> lookup m' pgdir = lookup (mem (s\<lparr>mem := m\<rparr>)) pgdir \<and>
        (\<forall>v. v < KERNBASE \<longrightarrow> present (mem (s\<lparr>mem := m\<rparr>)) pgdir v \<longrightarrow> m' (uaddr (mem (s\<lparr>mem := m\<rparr>)) pgdir v) =
          (if in_range (?va0 + 4096) (unat (len - n)) v then mem (s\<lparr>mem := m\<rparr>) (buf + n + (v - (?va0 + 4096)))
           else mem (s\<lparr>mem := m\<rparr>) (uaddr (mem (s\<lparr>mem := m\<rparr>)) pgdir v)))"
      using ul n(2,3) cp(1) top ub less.prems(3,4) split src'
      by (intro less.hyps) (auto simp: same)
    then obtain m' where m': "copyout pgdir (?va0 + 4096) (buf + n) (len - n) (s\<lparr>mem := m\<rparr>) = (0, s\<lparr>mem := m'\<rparr>)"
      "uvm_inv (s\<lparr>mem := m'\<rparr>) pgdir ps" "lookup m' pgdir = lookup ?m0 pgdir"
      "\<And>v. v < KERNBASE \<Longrightarrow> present ?m0 pgdir v \<Longrightarrow> m' (uaddr ?m0 pgdir v) =
          (if in_range (?va0 + 4096) (unat (len - n)) v then m (buf + n + (v - (?va0 + 4096)))
           else m (uaddr ?m0 pgdir v))"
      using cp(2) by (auto simp: same)
    have "m' (uaddr ?m0 pgdir v) = (if in_range va (unat len) v then ?m0 (buf + (v - va)) else ?m0 (uaddr ?m0 pgdir v))"
      if v: "v < KERNBASE" "present ?m0 pgdir v" for v
    proof (cases "in_range (?va0 + 4096) (unat (len - n)) v")
      case True
      have "in_range va (unat len) v" using True split by simp
      then have "pgno (buf + of_nat (unat (v - va))) \<noteq> pgno (upage ?m0 pgdir va)"
        using less.prems(5) [OF _ kb pr, of "unat (v - va)"] by (simp add: in_range_def)
      then have "m (buf + (v - va)) = ?m0 (buf + (v - va))" using cp(3) by simp
      then show ?thesis
        unfolding m'(4) [OF v] if_P [OF True] later [OF True, THEN conjunct2] if_P [OF \<open>in_range va _ v\<close>] .
    next
      case False
      with split [of v] cp(4) [OF v] m'(4) [OF v] show ?thesis by simp
    qed
    with run m'(1-3) show ?thesis by auto
  qed
qed

section \<open>A fresh address space\<close>

text \<open>A zeroed page is a page directory that maps nothing.\<close>

lemma fresh_pgdir:
  assumes ki: "kmem_inv s (p # ps)" and kend: "KERNBASE < kend s"
  defines "s' \<equiv> s\<lparr>freelist := ld32 (mem s) p, mem := memset (mem s) p 0 4096\<rparr>"
  shows "uvm_inv s' p ps" "lookup (mem s') p = (\<lambda>_. 0)"
proof -
  have p: "page_ok s p" "p \<notin> set ps" using ki by (auto simp: kmem_inv_def)
  have ok: "page_ok s' = page_ok s" by (auto simp: page_ok_def s'_def fun_eq_iff)
  have "pde_of (mem s') p k = 0" if "k < 1024" for k
  proof -
    have "ld32 (mem s') (cell p k) = ld32 (\<lambda>_. 0) (cell p k)"
      using p that by (intro ld32_page_cong) (auto simp: s'_def memset_page page_ok_aligned)
    then show ?thesis by (simp add: pde_of_def ld32_def join32_def)
  qed
  then have no: "\<not> has_table (mem s') p k" if "k < 1024" for k using that by (simp add: has_table_def)
  then show look: "lookup (mem s') p = (\<lambda>_. 0)" by (simp add: lookup_def fun_eq_iff)
  have "kmem_inv s' ps"
    unfolding s'_def using kalloc_Cons_inv [OF ki]
  proof (rule kmem_inv_write)
    fix x assume "pgno x \<in> pgno ` set ps"
    then have "pgno x \<noteq> pgno p" using p ki page_ok_pgno by (fastforce simp: kmem_inv_def)
    then show "memset (mem s) p 0 4096 x = mem (s\<lparr>freelist := ld32 (mem s) p\<rparr>) x"
      using p by (simp add: memset_page page_ok_aligned)
  qed
  moreover have "wf_pgdir s' p ps" using p no by (simp add: wf_pgdir_def ok)
  ultimately show "uvm_inv s' p ps"
    using kend look by (simp add: uvm_inv_def present_def) (simp add: s'_def)
qed

text \<open>A machine with one user page, at address zero, and one free page.\<close>

lemma page_run_four: "rev (page_run 0x80110000 4) = [0x80113000, 0x80112000, 0x80111000, 0x80110000]"
  by (simp add: page_run_def upt_rec)

lemma one_page_space:
  "\<exists>(s :: kmem_state) ps. uvm_inv s 0x80113000 ps \<and> kend s = 0x80110000 \<and>
     lookup (mem s) 0x80113000 = (\<lambda>v. if pgno v = 0 then V2P 0x80112000 OR 6 OR 1 else 0)"
proof -
  have "kmem_inv boot_kmem []" "kend boot_kmem = 0x80110000"
    by (rule boot_kmem_inv) (simp add: boot_kmem_def)
  then obtain s0 :: kmem_state where
    "kmem_inv s0 (rev (page_run 0x80110000 4) @ [])" and k0: "kend s0 = 0x80110000"
    using freerange_loop_spec [of boot_kmem "[]" "0x80114000" "0x80110000" 4]
    by (auto simp: pg_aligned_def)
  then have s0: "kmem_inv s0 [0x80113000, 0x80112000, 0x80111000, 0x80110000]"
    unfolding page_run_four by simp
  define s1 where "s1 = s0\<lparr>freelist := ld32 (mem s0) 0x80113000, mem := memset (mem s0) 0x80113000 0 4096\<rparr>"
  have "KERNBASE < kend s0" using k0 by simp
  note s1 = fresh_pgdir [OF s0 this, folded s1_def]
  define s2 where "s2 = s1\<lparr>freelist := ld32 (mem s1) 0x80112000, mem := memset (mem s1) 0x80112000 0 4096\<rparr>"
  note s2 = take_page [OF s1(1), folded s2_def]
  have "lookup (mem s2) 0x80113000 0 AND 1 = 0" "pg_aligned 0" using s1(2) s2(4) by (simp_all add: pg_aligned_def)
  from map_page [OF s2(1-3) this(2,1)] obtain s3 ps3 where
    "uvm_inv s3 0x80113000 ps3" "vm_step 0x80113000 s2 [0x80111000, 0x80110000] s3 ps3"
    "lookup (mem s3) 0x80113000 = (\<lambda>v. if pgno v = pgno 0 then V2P 0x80112000 OR 6 OR 1 else lookup (mem s2) 0x80113000 v)"
    by auto
  moreover from this(2) have "kend s3 = 0x80110000"
    using vm_stepD(4) k0 by (fastforce simp: s2_def s1_def)
  moreover have "lookup (mem s2) 0x80113000 v = 0" for v using s1(2) s2(4) by simp
  ultimately show ?thesis by (intro exI [of _ s3] exI [of _ ps3]) (simp add: pgno_def cong: if_cong)
qed

section \<open>Claims\<close>

lemma mapped_pages:
  assumes a: "pg_aligned a" and n: "pgno a + n < 1048576"
  shows "in_range a (4096 * Suc n) v \<longleftrightarrow> pgno a \<le> pgno v \<and> pgno v \<le> pgno a + n"
    "pgno a \<le> pgno v \<Longrightarrow> PGROUNDDOWN v - a = of_nat (4096 * (pgno v - pgno a))"
proof -
  obtain q where q: "unat a = 4096 * q" "pgno a = q" using a by (auto simp: pg_aligned_def pgno_def)
  have v: "unat v = 4096 * pgno v + unat v mod 4096" "unat v mod 4096 < 4096" by (simp_all add: pgno_def)
  have "unat v < 2 ^ 32" using unsigned_less [of v, where ?'a = nat] by simp
  then show "in_range a (4096 * Suc n) v \<longleftrightarrow> pgno a \<le> pgno v \<and> pgno v \<le> pgno a + n"
    using v q n by (auto simp: in_range_def unat_sub_if')
  assume le: "pgno a \<le> pgno v"
  have u: "unat (PGROUNDDOWN v) = 4096 * pgno v" by (simp add: unat_PGROUNDDOWN pgno_def)
  have "PGROUNDDOWN v = of_nat (4096 * pgno v)" "a = of_nat (4096 * q)"
    unfolding u [symmetric] q(1) [symmetric] by simp_all
  with le q(2) show "PGROUNDDOWN v - a = of_nat (4096 * (pgno v - pgno a))"
    by (simp add: of_nat_diff right_diff_distrib)
qed

text \<open>
  C22: \<open>mappages\<close> on a range that is not mapped yet never panics. Either it maps every page
  the range touches to the corresponding physical page, with the given permissions and the
  present bit, and changes no other translation; or it returns \<open>-1\<close>, and then no page is
  left to allocate page tables from. The allocator and page-table invariants are kept.
\<close>

theorem mappages_maps:
  assumes "kmem_inv s ps" "wf_pgdir s pgdir ps" "0 < sz" "unat va + unat sz \<le> 2 ^ 32"
    and "\<And>v. pgno va \<le> pgno v \<Longrightarrow> pgno v \<le> pgno (va + sz - 1) \<Longrightarrow> lookup (mem s) pgdir v AND PTE_P = 0"
  shows "\<exists>r s' ps'. mappages pgdir va sz pa perm s = Ret (r, s') \<and>
    kmem_inv s' ps' \<and> wf_pgdir s' pgdir ps' \<and>
    (r = 0 \<and> (\<forall>v. lookup (mem s') pgdir v =
       (if pgno va \<le> pgno v \<and> pgno v \<le> pgno (va + sz - 1)
        then (pa + of_nat (4096 * (pgno v - pgno va))) OR perm OR PTE_P else lookup (mem s) pgdir v))
     \<or> r = -1 \<and> ps' = [])"
proof -
  let ?a = "PGROUNDDOWN va" and ?l = "PGROUNDDOWN (va + sz - 1)"
  define n where "n = pgno (va + sz - 1) - pgno va"
  have "sz \<noteq> 0" using assms(3) by auto
  then have "unat (sz - 1) = unat sz - 1" "0 < unat sz"
    using unat_minus_one [of sz] by (simp_all add: unat_gt_0)
  then have "unat (va + (sz - 1)) = unat va + (unat sz - 1)"
    using assms(4) unat_add_lem [of va "sz - 1"] by auto
  then have le: "pgno va \<le> pgno (va + sz - 1)" by (simp add: pgno_def div_le_mono add_diff_eq)
  have pa: "pgno ?a = pgno va" by (simp add: pgno_def unat_PGROUNDDOWN)
  have pn: "pgno va + n = pgno (va + sz - 1)" using le by (simp add: n_def)
  have b: "pgno x < 1048576" for x
    using unsigned_less [of x, where ?'a = nat] by (simp add: pgno_def less_mult_imp_div_less)
  have n: "pgno ?a + n < 1048576" "n < PAGES" "4096 * Suc n \<le> 2 ^ 32"
    using pn pa b [of "va + sz - 1"] by (simp_all add: PAGES_def)
  note mp = mapped_pages [OF pg_aligned_PGROUNDDOWN n(1), unfolded pa pn]
  have l: "?l = ?a + of_nat (4096 * n)"
    using mp(2) [of "va + sz - 1"] le unfolding n_def by (simp add: algebra_simps)
  have "\<exists>r s' ps' j. mappages_loop PAGES pgdir ?a ?l pa perm s = Ret (r, s') \<and> vm_step pgdir s ps s' ps' \<and>
      lookup (mem s') pgdir = mapped ?a pa perm j (lookup (mem s) pgdir) \<and>
      (r = 0 \<and> j = Suc n \<or> r = -1 \<and> j \<le> n \<and> ps' = [])"
    using n(2,3) pg_aligned_PGROUNDDOWN l assms(1,2) by (rule mappages_loop_spec) (use assms(5) mp(1) in simp)
  then obtain r s' ps' j where r: "mappages_loop PAGES pgdir ?a ?l pa perm s = Ret (r, s')"
    "vm_step pgdir s ps s' ps'" "lookup (mem s') pgdir = mapped ?a pa perm j (lookup (mem s) pgdir)"
    "r = 0 \<and> j = Suc n \<or> r = -1 \<and> j \<le> n \<and> ps' = []" by blast
  have "r = 0 \<Longrightarrow> lookup (mem s') pgdir v = (if pgno va \<le> pgno v \<and> pgno v \<le> pgno (va + sz - 1)
        then (pa + of_nat (4096 * (pgno v - pgno va))) OR perm OR PTE_P else lookup (mem s) pgdir v)" for v
    using r(3,4) mp [of v] by (auto simp: mapped_def simp del: of_nat_mult)
  then show ?thesis using r vm_stepD(1,2) [OF r(2)] by (auto simp: mappages_def simp del: of_nat_mult)
qed

text \<open>
  C24: \<open>deallocuvm\<close> unmaps exactly the present pages from \<open>newsz\<close> (rounded up) to
  \<open>oldsz\<close> and returns their frames to the allocator, none of them twice and no others. It
  never panics, keeps every other translation, and leaves an address space in which each
  user page still has a frame of its own.
\<close>

theorem deallocuvm_unmaps:
  assumes "uvm_inv s pgdir ps" "newsz < oldsz" "oldsz \<le> KERNBASE"
  shows "\<exists>s' fs. deallocuvm pgdir oldsz newsz s = Ret (newsz, s') \<and>
    uvm_inv s' pgdir (fs @ ps) \<and> distinct (fs @ ps) \<and>
    set fs = {upage (mem s) pgdir v |v. v < KERNBASE \<and> pgno (PGROUNDUP newsz) \<le> pgno v \<and>
      4096 * pgno v < unat oldsz \<and> present (mem s) pgdir v} \<and>
    (\<forall>v. lookup (mem s') pgdir v =
      (if pgno (PGROUNDUP newsz) \<le> pgno v \<and> 4096 * pgno v < unat oldsz \<and> present (mem s) pgdir v
       then 0 else lookup (mem s) pgdir v))"
proof -
  from deallocuvm_spec [OF assms] obtain s' fs where
    d: "deallocuvm pgdir oldsz newsz s = Ret (newsz, s')"
    "unmaps s pgdir ps (pgno (PGROUNDUP newsz)) oldsz s' fs" by blast
  then have "distinct (fs @ ps)" using uvm_invD(1) [of s' pgdir "fs @ ps"]
    by (simp add: unmaps_def kmem_inv_def)
  with d show ?thesis
    unfolding unmaps_def unmapped_def present_def by (intro exI [of _ s'] exI [of _ fs]) simp
qed

text \<open>
  C23: \<open>allocuvm\<close> grows an address space all or nothing. On success it returns \<open>newsz\<close>,
  every new page is present, writable and user accessible, its frame was free and is filled
  with zeros. Otherwise it returns zero and the map is the one before the call. Either way
  the translations and the contents of the pages the process already had are unchanged.
\<close>

theorem allocuvm_all_or_nothing:
  assumes inv: "uvm_inv s pgdir ps" and sz: "oldsz \<le> newsz" "newsz < KERNBASE"
    and free: "\<And>v. pgno (PGROUNDUP oldsz) \<le> pgno v \<Longrightarrow> v < KERNBASE \<Longrightarrow> lookup (mem s) pgdir v = 0"
  shows "\<exists>ok s' ps'. allocuvm pgdir oldsz newsz s = Ret (if ok then newsz else 0, s') \<and>
    uvm_inv s' pgdir ps' \<and>
    (\<forall>v. if ok \<and> pgno (PGROUNDUP oldsz) \<le> pgno v \<and> 4096 * pgno v < unat newsz
       then upage (mem s') pgdir v \<in> set ps \<and>
         lookup (mem s') pgdir v = V2P (upage (mem s') pgdir v) OR (PTE_W OR PTE_U) OR PTE_P \<and>
         (\<forall>x. pgno x = pgno (upage (mem s') pgdir v) \<longrightarrow> mem s' x = 0)
       else lookup (mem s') pgdir v = lookup (mem s) pgdir v) \<and>
    (\<forall>v < KERNBASE. present (mem s) pgdir v \<longrightarrow>
       (\<forall>x. pgno x = pgno (upage (mem s) pgdir v) \<longrightarrow> mem s' x = mem s x))"
proof -
  let ?n = "pgno (PGROUNDUP oldsz)"
  have kb: "oldsz < KERNBASE" using sz by simp
  note up = PGROUNDUP_bounds [OF kb]
  have small: "v < KERNBASE" if "4096 * pgno v < unat newsz" for v
  proof -
    have "4096 * pgno v < 4096 * 524288" using that sz(2) by (simp add: word_less_nat_alt)
    then have "unat v < 0x80000000" by (simp add: pgno_def div_less_iff_less_mult)
    then show ?thesis by (simp add: word_less_nat_alt)
  qed
  have "unat newsz \<le> unat (PGROUNDUP oldsz) + 4096 * 1048575" using sz(2) by (simp add: word_less_nat_alt)
  then have "\<exists>ok s' ps'. allocuvm_loop (Suc 1048575) pgdir oldsz newsz (PGROUNDUP oldsz) s =
      Ret (if ok then newsz else 0, s') \<and> grows s pgdir ps ?n ?n newsz ok s' ps'"
    using inv up(1) sz free small by (intro allocuvm_loop_spec) simp_all
  then obtain ok s' ps' where
    l: "allocuvm_loop (Suc 1048575) pgdir oldsz newsz (PGROUNDUP oldsz) s = Ret (if ok then newsz else 0, s')"
    and g: "grows s pgdir ps ?n ?n newsz ok s' ps'" by blast
  have a: "allocuvm pgdir oldsz newsz s = Ret (if ok then newsz else 0, s')"
    unfolding allocuvm_def PAGES_Suc l using sz by auto
  have un: "unmapped ?n newsz (lookup (mem s) pgdir) = lookup (mem s) pgdir"
    using free small by (auto simp: unmapped_def fun_eq_iff)
  have look: "if ok \<and> ?n \<le> pgno v \<and> 4096 * pgno v < unat newsz
       then upage (mem s') pgdir v \<in> set ps \<and>
         lookup (mem s') pgdir v = V2P (upage (mem s') pgdir v) OR (PTE_W OR PTE_U) OR PTE_P \<and>
         (\<forall>x. pgno x = pgno (upage (mem s') pgdir v) \<longrightarrow> mem s' x = 0)
       else lookup (mem s') pgdir v = lookup (mem s) pgdir v" for v
    using growsD(3,4) [OF g, of v] growsD(5) [OF g] un by (cases ok) auto
  have "mem s' x = mem s x" if v: "v < KERNBASE" "present (mem s) pgdir v"
    and x: "pgno x = pgno (upage (mem s) pgdir v)" for v x
  proof -
    have l: "loose s pgdir ps (upage (mem s) pgdir v)" using uvm_invD(4) [OF inv v] .
    then have "PGROUNDDOWN x = upage (mem s) pgdir v" using x PGROUNDDOWN_pgno looseD(1) by blast
    then show ?thesis
      using growsD(6) [OF g, of x] l free small by (auto simp: present_def)
  qed
  with a growsD(1) [OF g] look show ?thesis by blast
qed

text \<open>
  C25: when every page of the destination is mapped for the user and the source does not lie
  in the process's own pages, \<open>copyout\<close> succeeds: the process then reads the source bytes
  at \<open>va\<close>, across page boundaries, and every other byte of its memory is unchanged.
\<close>

theorem copyout_copies:
  assumes "uvm_inv s pgdir ps" "unat va + unat len \<le> 0x80000000" "unat buf + unat len < 2 ^ 32"
    and "\<And>v. in_range va (unat len) v \<Longrightarrow> user_ok (mem s) pgdir v"
    and "\<And>i v. i < unat len \<Longrightarrow> v < KERNBASE \<Longrightarrow> present (mem s) pgdir v \<Longrightarrow>
      pgno (buf + of_nat i) \<noteq> pgno (upage (mem s) pgdir v)"
  shows "\<exists>m. copyout pgdir va buf len s = (0, s\<lparr>mem := m\<rparr>) \<and> uvm_inv (s\<lparr>mem := m\<rparr>) pgdir ps \<and>
    lookup m pgdir = lookup (mem s) pgdir \<and>
    (\<forall>v. v < KERNBASE \<longrightarrow> present (mem s) pgdir v \<longrightarrow> m (uaddr m pgdir v) =
       (if in_range va (unat len) v then mem s (buf + (v - va)) else mem s (uaddr (mem s) pgdir v)))"
proof -
  obtain m where m: "copyout pgdir va buf len s = (0, s\<lparr>mem := m\<rparr>)"
    "uvm_inv (s\<lparr>mem := m\<rparr>) pgdir ps" "lookup m pgdir = lookup (mem s) pgdir"
    "\<forall>v. v < KERNBASE \<longrightarrow> present (mem s) pgdir v \<longrightarrow> m (uaddr (mem s) pgdir v) =
       (if in_range va (unat len) v then mem s (buf + (v - va)) else mem s (uaddr (mem s) pgdir v))"
    using copyout_spec [OF assms] by blast
  have "uaddr m pgdir = uaddr (mem s) pgdir" using m(3) by (simp add: uaddr_def upage_def fun_eq_iff)
  with m show ?thesis by (intro exI [of _ m] conjI) simp_all
qed

section \<open>The claims at work\<close>

lemma one_page_space_facts:
  assumes "uvm_inv s 0x80113000 ps" "lookup (mem s) 0x80113000 = (\<lambda>v. if pgno v = 0 then V2P 0x80112000 OR 6 OR 1 else 0)"
  shows "present (mem s) 0x80113000 v \<longleftrightarrow> pgno v = 0" "pgno v = 0 \<Longrightarrow> upage (mem s) 0x80113000 v = 0x80112000"
    "user_ok (mem s) 0x80113000 v \<longleftrightarrow> pgno v = 0"
  using assms(2) upage_map [of "0x80112000"]
  by (auto simp: present_def upage_def user_ok_def V2P_def pg_aligned_def)

theorem mappages_maps_witness:
  "\<exists>(s :: kmem_state) ps r s'. kmem_inv s ps \<and> mappages 0x80113000 0x1000 0x1800 0x200000 6 s = Ret (r, s') \<and>
     (r = 0 \<and> lookup (mem s') 0x80113000 0x2000 = 0x201007 \<or> r = -1)"
proof -
  obtain s :: kmem_state and ps where s: "uvm_inv s 0x80113000 ps"
    "lookup (mem s) 0x80113000 = (\<lambda>v. if pgno v = 0 then V2P 0x80112000 OR 6 OR 1 else 0)"
    using one_page_space by blast
  have p: "pgno 0x1000 = 1" "pgno 0x2000 = 2" "pgno (0x1000 + 0x1800 - 1) = 2" by (simp_all add: pgno_def)
  from mappages_maps [OF uvm_invD(1,2) [OF s(1)], of "0x1800" "0x1000" "0x200000" 6]
  obtain r s' where "mappages 0x80113000 0x1000 0x1800 0x200000 6 s = Ret (r, s')"
    "r = 0 \<and> lookup (mem s') 0x80113000 0x2000 = (0x200000 + of_nat (4096 * (pgno 0x2000 - pgno 0x1000))) OR 6 OR 1 \<or> r = -1"
    using p s(2) by fastforce
  then show ?thesis using uvm_invD(1) [OF s(1)] p by fastforce
qed

theorem deallocuvm_unmaps_witness:
  "\<exists>(s :: kmem_state) ps s'. uvm_inv s 0x80113000 ps \<and> present (mem s) 0x80113000 0 \<and>
     deallocuvm 0x80113000 0x1000 0 s = Ret (0, s') \<and> lookup (mem s') 0x80113000 0 = 0"
proof -
  obtain s :: kmem_state and ps where s: "uvm_inv s 0x80113000 ps"
    "lookup (mem s) 0x80113000 = (\<lambda>v. if pgno v = 0 then V2P 0x80112000 OR 6 OR 1 else 0)"
    using one_page_space by blast
  have p: "present (mem s) 0x80113000 0" "pgno (PGROUNDUP 0) = 0" "pgno 0 = 0"
    using one_page_space_facts(1) [OF s] by (simp_all add: PGROUNDUP_def pgno_def)
  from deallocuvm_unmaps [OF s(1), of 0 "0x1000"] obtain s' where
    "deallocuvm 0x80113000 0x1000 0 s = Ret (0, s')" "lookup (mem s') 0x80113000 0 = 0"
    using p by fastforce
  with s(1) p show ?thesis by blast
qed

theorem allocuvm_all_or_nothing_witness:
  "\<exists>(s :: kmem_state) ps ok s'. uvm_inv s 0x80113000 ps \<and>
     allocuvm 0x80113000 0x800 0x1800 s = Ret (if ok then 0x1800 else 0, s') \<and>
     present (mem s') 0x80113000 0x1000 = ok"
proof -
  obtain s :: kmem_state and ps where s: "uvm_inv s 0x80113000 ps"
    "lookup (mem s) 0x80113000 = (\<lambda>v. if pgno v = 0 then V2P 0x80112000 OR 6 OR 1 else 0)"
    using one_page_space by blast
  have p: "pgno (PGROUNDUP 0x800) = 1" "pgno 0x1000 = 1" by (simp_all add: PGROUNDUP_def pgno_def)
  from allocuvm_all_or_nothing [OF s(1), of "0x800" "0x1800"] obtain ok s' where
    a: "allocuvm 0x80113000 0x800 0x1800 s = Ret (if ok then 0x1800 else 0, s')"
    "if ok then lookup (mem s') 0x80113000 0x1000 = V2P (upage (mem s') 0x80113000 0x1000) OR 6 OR 1
     else lookup (mem s') 0x80113000 0x1000 = lookup (mem s) 0x80113000 0x1000"
    using p s(2) by (fastforce split: if_splits)
  moreover from a(2) have "present (mem s') 0x80113000 0x1000 = ok"
    using s(2) p odd_or_present [of "V2P (upage (mem s') 0x80113000 0x1000)" 6]
    by (auto simp: present_def split: if_splits)
  ultimately show ?thesis using s(1) by blast
qed

theorem copyout_copies_witness:
  "\<exists>(s :: kmem_state) ps m. uvm_inv s 0x80113000 ps \<and>
     copyout 0x80113000 0x10 0x80100000 4 s = (0, s\<lparr>mem := m\<rparr>) \<and>
     m (uaddr m 0x80113000 0x12) = mem s 0x80100002"
proof -
  obtain s :: kmem_state and ps where s: "uvm_inv s 0x80113000 ps"
    "lookup (mem s) 0x80113000 = (\<lambda>v. if pgno v = 0 then V2P 0x80112000 OR 6 OR 1 else 0)"
    using one_page_space by blast
  note f = one_page_space_facts [OF s]
  have "user_ok (mem s) 0x80113000 v" if "in_range 0x10 (unat (4 :: u32)) v" for v
    using in_range_unat [OF that] that by (simp add: f(3) in_range_def pgno_def)
  moreover have "pgno (0x80100000 + of_nat i) \<noteq> pgno (upage (mem s) 0x80113000 v)"
    if "i < unat (4 :: u32)" "present (mem s) 0x80113000 v" for i v
  proof -
    have "unat (0x80100000 + of_nat i :: u32) = 0x80100000 + i" using that(1) by (subst unat_add_of_nat) simp_all
    then show ?thesis using that f by (simp add: pgno_def)
  qed
  ultimately obtain m where "copyout 0x80113000 0x10 0x80100000 4 s = (0, s\<lparr>mem := m\<rparr>)"
    and m: "\<forall>v. v < KERNBASE \<longrightarrow> present (mem s) 0x80113000 v \<longrightarrow> m (uaddr m 0x80113000 v) =
       (if in_range 0x10 (unat (4 :: u32)) v then mem s (0x80100000 + (v - 0x10)) else mem s (uaddr (mem s) 0x80113000 v))"
    using copyout_copies [OF s(1), of "0x10" 4 "0x80100000"] by auto
  moreover have "present (mem s) 0x80113000 0x12" by (simp add: f pgno_def)
  then have "m (uaddr m 0x80113000 0x12) = mem s 0x80100002"
    using m by (simp add: in_range_def)
  ultimately show ?thesis using s(1) by blast
qed

section \<open>What the memory routines leave alone\<close>

text \<open>
  The routines of \<^verbatim>\<open>kalloc.c\<close> and \<^verbatim>\<open>vm.c\<close> change memory and the free list and no
  other part of the kernel's state.
\<close>

definition mem_only :: "'a kmem_state_scheme \<Rightarrow> 'a kmem_state_scheme \<Rightarrow> bool" where
  "mem_only s s' \<longleftrightarrow> (\<exists>m f. s' = s\<lparr>mem := m, freelist := f\<rparr>)"

lemma mem_only_refl [simp]: "mem_only s s"
  unfolding mem_only_def by (intro exI [of _ "mem s"] exI [of _ "freelist s"]) simp

lemma mem_onlyI: "mem_only s (s\<lparr>mem := m, freelist := f\<rparr>)"
  unfolding mem_only_def by blast

lemma mem_only_mem [simp]: "mem_only s s' \<Longrightarrow> mem_only s (s'\<lparr>mem := m\<rparr>)"
proof -
  assume "mem_only s s'"
  then obtain n f where "s' = s\<lparr>mem := n, freelist := f\<rparr>" unfolding mem_only_def by blast
  then have "s'\<lparr>mem := m\<rparr> = s\<lparr>mem := m, freelist := f\<rparr>" by simp
  then show ?thesis unfolding mem_only_def by blast
qed

lemma mem_only_trans [trans]: "mem_only s s' \<Longrightarrow> mem_only s' s'' \<Longrightarrow> mem_only s s''"
  unfolding mem_only_def by (elim exE) (simp, blast)

lemma mem_only_kalloc: "kalloc s = (p, s') \<Longrightarrow> mem_only s s'"
  using mem_onlyI [of s "ld32 (mem s) (freelist s)" "mem s"] by (auto simp: kalloc_def Let_def split: if_splits)

lemma mem_only_kfree: "kfree p s = Ret s' \<Longrightarrow> mem_only s s'"
  unfolding mem_only_def kfree_def by (auto split: if_splits)

lemma mem_only_walkpgdir: "walkpgdir d va al s = (p, s') \<Longrightarrow> mem_only s s'"
  by (auto simp: walkpgdir_def Let_def split: if_splits prod.splits dest: mem_only_kalloc)

lemma mem_only_mappages_loop: "mappages_loop n d a e pa perm s = Ret (r, s') \<Longrightarrow> mem_only s s'"
proof (induction n arbitrary: a pa s)
  case (Suc n)
  obtain p s1 where w: "walkpgdir d a True s = (p, s1)" by fastforce
  note m = mem_only_walkpgdir [OF w]
  from Suc.prems w m show ?case
    by (auto simp: Let_def split: if_splits dest!: Suc.IH intro: mem_only_trans [OF mem_only_mem [OF m]])
qed simp

lemma mem_only_mappages: "mappages d va n pa perm s = Ret (r, s') \<Longrightarrow> mem_only s s'"
  by (auto simp: mappages_def Let_def dest: mem_only_mappages_loop)

lemma mem_only_deallocuvm_loop: "deallocuvm_loop n d e a s = Ret s' \<Longrightarrow> mem_only s s'"
proof (induction n arbitrary: a s)
  case (Suc n)
  then show ?case
    by (auto simp: Let_def obind_eq_Ret split: if_splits
        dest!: mem_only_kfree intro: mem_only_trans [OF mem_only_mem])
qed simp

lemma mem_only_deallocuvm: "deallocuvm d o' n s = Ret (r, s') \<Longrightarrow> mem_only s s'"
  by (auto simp: deallocuvm_def obind_eq_Ret split: if_splits dest: mem_only_deallocuvm_loop)

lemma mem_only_allocuvm_loop: "allocuvm_loop n d o' e a s = Ret (r, s') \<Longrightarrow> mem_only s s'"
proof (induction n arbitrary: a s)
  case (Suc n)
  obtain p s1 where k: "kalloc s = (p, s1)" by fastforce
  note k1 = mem_only_kalloc [OF k]
  show ?case
  proof (cases "a < e \<and> p \<noteq> 0")
    case False
    with Suc.prems k k1 show ?thesis
      by (auto simp: obind_eq_Ret split: if_splits dest!: mem_only_deallocuvm intro: mem_only_trans)
  next
    case True
    let ?s = "s1\<lparr>mem := memset (mem s1) p 0 4096\<rparr>"
    have s: "mem_only s ?s" using k1 by simp
    from True Suc.prems k obtain r2 s2 where m: "mappages d a 4096 (V2P p) 6 ?s = Ret (r2, s2)"
      and rest: "(if r2 < 0 then obind (deallocuvm d e o' s2) (\<lambda>(_, s). obind (kfree p s) (\<lambda>s. Ret (0, s)))
         else allocuvm_loop n d o' e (a + 4096) s2) = Ret (r, s')"
      by (auto simp: obind_eq_Ret)
    have s2: "mem_only s s2" using s mem_only_mappages [OF m] by (rule mem_only_trans)
    show ?thesis
    proof (cases "r2 < 0")
      case True
      with rest show ?thesis
        by (auto simp: obind_eq_Ret dest!: mem_only_deallocuvm mem_only_kfree intro: mem_only_trans [OF s2] mem_only_trans)
    next
      case False
      with rest show ?thesis using Suc.IH mem_only_trans [OF s2] by auto
    qed
  qed
qed simp

lemma mem_only_allocuvm: "allocuvm d o' n s = Ret (r, s') \<Longrightarrow> mem_only s s'"
  by (auto simp: allocuvm_def split: if_splits dest: mem_only_allocuvm_loop)

lemma mem_only_freevm_tables: "freevm_tables is d s = Ret s' \<Longrightarrow> mem_only s s'"
proof (induction "is" arbitrary: s)
  case (Cons i "is")
  then show ?case
    by (auto simp: Let_def obind_eq_Ret split: if_splits dest!: mem_only_kfree intro: mem_only_trans)
qed simp

lemma mem_only_freevm: "freevm d s = Ret s' \<Longrightarrow> mem_only s s'"
  by (auto simp: freevm_def obind_eq_Ret split: if_splits
      dest!: mem_only_deallocuvm mem_only_freevm_tables mem_only_kfree intro: mem_only_trans)

lemma mem_only_setupkvm_loop: "setupkvm_loop ks d s = Ret (r, s') \<Longrightarrow> mem_only s s'"
proof (induction ks d s rule: setupkvm_loop.induct)
  case (2 virt ps pe perm ks d s)
  then obtain r1 s1 where m: "mappages d virt (pe - ps) ps perm s = Ret (r1, s1)"
    and rest: "(if r1 < 0 then obind (freevm d s1) (\<lambda>s. Ret (0, s)) else setupkvm_loop ks d s1) = Ret (r, s')"
    by (auto simp: obind_eq_Ret)
  have s1: "mem_only s s1" using mem_only_mappages [OF m] .
  show ?case
  proof (cases "r1 < 0")
    case True
    with rest show ?thesis by (auto simp: obind_eq_Ret dest!: mem_only_freevm intro: mem_only_trans [OF s1])
  next
    case False
    with rest 2(1) [OF m] show ?thesis using mem_only_trans [OF s1] by auto
  qed
qed simp

lemma mem_only_setupkvm: "setupkvm s = Ret (r, s') \<Longrightarrow> mem_only s s'"
proof -
  assume r: "setupkvm s = Ret (r, s')"
  obtain p s1 where k: "kalloc s = (p, s1)" by fastforce
  note k1 = mem_only_kalloc [OF k]
  from r k k1 show ?thesis
    by (auto simp: setupkvm_def Let_def split: if_splits
        dest!: mem_only_setupkvm_loop intro: mem_only_trans [OF mem_only_mem [OF k1]])
qed

end
