(* ===== verification/Ptable.thy ===== *)
theory Ptable
  imports Ucopy
begin

text \<open>
  The process table of \<^verbatim>\<open>proc.c\<close> and the routines that only need the table and memory:
  allocation, the scheduler, \<open>sleep\<close> and \<open>wakeup\<close>, \<open>kill\<close>, \<open>wait\<close>, \<open>growproc\<close> and the
  table part of \<open>exit\<close>. Processes are numbered by their slot, so that no process argument is null, processors by their index;
  \<open>this\<close> is the processor that runs the code, \<open>cpu_proc c\<close> the \<open>proc\<close> field of
  processor \<open>c\<close>. Code between \<open>acquire\<close> and \<open>release\<close> of \<open>ptable.lock\<close> is one step.
  A routine that sleeps is cut there: what it does up to \<open>sched\<close> is one step, and what it
  does after it is scheduled again is another. \<open>trapret\<close> and \<open>forkret\<close> stand for the
  addresses of these routines, \<open>cr3\<close> and \<open>esp0\<close> for the processor registers
  \<open>switchuvm\<close> loads; its segment descriptors, which are the same for every process, and the
  \<open>pushcli\<close> and \<open>popcli\<close> around it are not in this state, and neither is the interrupt flag that
  the scheduler sets with \<open>sti\<close>. \<open>sleep\<close> has no lock argument: the caller's lock is released
  under \<open>ptable.lock\<close>, so the test that leads to \<open>sleep\<close> and the change of state are one
  step. Names are strings without their terminator.
\<close>

section \<open>State\<close>

datatype procstate = UNUSED | EMBRYO | SLEEPING | RUNNABLE | RUNNING | ZOMBIE

record proc =
  sz :: u32
  pgdir :: u32
  kstack :: u32
  pstate :: procstate
  pid :: u32
  parent :: "nat option"
  tf :: u32
  pcontext :: u32
  pchan :: chan
  killed :: bool
  ofile :: "nat option list"
  cwd :: "nat option"
  pname :: string

record ptable_state = vm_state +
  procs :: "proc list"
  initproc :: "nat option"
  nextpid :: u32
  this :: nat
  cpu_proc :: "nat \<Rightarrow> nat option"
  sched_pos :: "nat \<Rightarrow> nat"
  sched_idle :: "nat \<Rightarrow> bool"
  halted :: "nat \<Rightarrow> bool"
  cr3 :: "nat \<Rightarrow> u32"
  esp0 :: "nat \<Rightarrow> u32"
  trapret :: u32
  forkret :: u32


abbreviation (input) TFSIZE :: u32 where "TFSIZE \<equiv> 76"

abbreviation (input) CONTEXTSIZE :: u32 where "CONTEXTSIZE \<equiv> 20"

definition upd_proc :: "nat \<Rightarrow> (proc \<Rightarrow> proc) \<Rightarrow> 'a ptable_state_scheme \<Rightarrow> 'a ptable_state_scheme" where
  "upd_proc i f s = s\<lparr>procs := (procs s)[i := f (procs s ! i)]\<rparr>"

definition curproc :: "'a ptable_state_scheme \<Rightarrow> nat option" where
  "curproc s = cpu_proc s (this s)"

section \<open>Operations\<close>

definition state_name :: "procstate \<Rightarrow> string" where
  "state_name st = (case st of UNUSED \<Rightarrow> ''unused'' | EMBRYO \<Rightarrow> ''embryo'' | SLEEPING \<Rightarrow> ''sleep ''
     | RUNNABLE \<Rightarrow> ''runble'' | RUNNING \<Rightarrow> ''run   '' | ZOMBIE \<Rightarrow> ''zombie'')"

text \<open>\<open>switchkvm\<close> and the visible part of \<open>switchuvm\<close>: its checks, the kernel stack, the page table.\<close>

definition switchkvm :: "'a ptable_state_scheme \<Rightarrow> 'a ptable_state_scheme" where
  "switchkvm s = s\<lparr>cr3 := (cr3 s)(this s := V2P (kpgdir s))\<rparr>"

definition switchuvm :: "nat \<Rightarrow> 'a ptable_state_scheme \<Rightarrow> 'a ptable_state_scheme outcome" where
  "switchuvm p s =
     (if kstack (procs s ! p) = 0 then Panic ''switchuvm: no kstack''
      else if pgdir (procs s ! p) = 0 then Panic ''switchuvm: no pgdir''
      else Ret (s\<lparr>esp0 := (esp0 s)(this s := kstack (procs s ! p) + KSTACKSIZE),
             cr3 := (cr3 s)(this s := V2P (pgdir (procs s ! p)))\<rparr>))"

definition kvmalloc :: "'a ptable_state_scheme \<Rightarrow> 'a ptable_state_scheme outcome" where
  "kvmalloc s = obind (setupkvm s) (\<lambda>(d, s). Ret (switchkvm (s\<lparr>kpgdir := d\<rparr>)))"

definition allocproc :: "'a ptable_state_scheme \<Rightarrow> nat option \<times> 'a ptable_state_scheme" where
  "allocproc s =
     (case scan (\<lambda>p. pstate p = UNUSED) (procs s) of
        None \<Rightarrow> (None, s)
      | Some i \<Rightarrow>
          let s = upd_proc i (\<lambda>p. p\<lparr>pstate := EMBRYO, pid := nextpid s\<rparr>) s;
              s = s\<lparr>nextpid := nextpid s + 1\<rparr>;
              (k, s) = kalloc s;
              s = upd_proc i (\<lambda>p. p\<lparr>kstack := k\<rparr>) s
          in if k = 0 then (None, upd_proc i (\<lambda>p. p\<lparr>pstate := UNUSED\<rparr>) s)
             else
               let sp = k + KSTACKSIZE;
                   sp = sp - TFSIZE;
                   s = upd_proc i (\<lambda>p. p\<lparr>tf := sp\<rparr>) s;
                   sp = sp - 4;
                   s = s\<lparr>mem := st32 (mem s) sp (trapret s)\<rparr>;
                   sp = sp - CONTEXTSIZE;
                   s = upd_proc i (\<lambda>p. p\<lparr>pcontext := sp\<rparr>) s;
                   s = s\<lparr>mem := memset (mem s) sp 0 CONTEXTSIZE\<rparr>;
                   s = s\<lparr>mem := st32 (mem s) (sp + 16) (forkret s)\<rparr>
               in (Some i, s))"

definition growproc :: "u32 \<Rightarrow> 'a ptable_state_scheme \<Rightarrow> (int \<times> 'a ptable_state_scheme) outcome" where
  "growproc n s =
     (case curproc s of
        None \<Rightarrow> Panic ''null process''
      | Some c \<Rightarrow>
          let p = procs s ! c;
              finish = (\<lambda>(sz', s). if sz' = 0 then Ret (-1, s)
                else let s = upd_proc c (\<lambda>p. p\<lparr>sz := sz'\<rparr>) s in obind (switchuvm c s) (\<lambda>s. Ret (0, s)))
          in if sint n > 0 then obind (allocuvm (pgdir p) (sz p) (sz p + n) s) finish
             else if sint n < 0 then obind (deallocuvm (pgdir p) (sz p) (sz p + n) s) finish
             else obind (switchuvm c s) (\<lambda>s. Ret (0, s)))"

definition wakeup1 :: "chan \<Rightarrow> 'a ptable_state_scheme \<Rightarrow> 'a ptable_state_scheme" where
  "wakeup1 ch s =
     s\<lparr>procs := map (\<lambda>p. if pstate p = SLEEPING \<and> pchan p = ch then p\<lparr>pstate := RUNNABLE\<rparr> else p) (procs s)\<rparr>"

definition wakeup :: "chan \<Rightarrow> 'a ptable_state_scheme \<Rightarrow> 'a ptable_state_scheme" where
  "wakeup ch s = wakeup1 ch s"

definition kill :: "u32 \<Rightarrow> 'a ptable_state_scheme \<Rightarrow> int \<times> 'a ptable_state_scheme" where
  "kill n s =
     (case scan (\<lambda>p. pid p = n) (procs s) of
        None \<Rightarrow> (-1, s)
      | Some i \<Rightarrow> (0, upd_proc i (\<lambda>p. p\<lparr>killed := True,
          pstate := (if pstate p = SLEEPING then RUNNABLE else pstate p)\<rparr>) s))"

text \<open>
  \<open>sched\<close>: the current process gives up the processor and the scheduler loop, which
  resumes after its \<open>swtch\<close>, goes on with the next slot. The checks of the lock and the
  interrupt state are those of the spin-lock layer.
\<close>

definition sched :: "'a ptable_state_scheme \<Rightarrow> 'a ptable_state_scheme outcome" where
  "sched s =
     (case curproc s of
        None \<Rightarrow> Panic ''null process''
      | Some p \<Rightarrow>
          if pstate (procs s ! p) = RUNNING then Panic ''sched running''
          else let s = switchkvm s in
            Ret (s\<lparr>cpu_proc := (cpu_proc s)(this s := None),
                   sched_pos := (sched_pos s)(this s := sched_pos s (this s) + 1)\<rparr>))"

definition yield :: "'a ptable_state_scheme \<Rightarrow> 'a ptable_state_scheme outcome" where
  "yield s =
     (case curproc s of
        None \<Rightarrow> Panic ''null process''
      | Some p \<Rightarrow> sched (upd_proc p (\<lambda>q. q\<lparr>pstate := RUNNABLE\<rparr>) s))"

definition sleep :: "chan \<Rightarrow> 'a ptable_state_scheme \<Rightarrow> 'a ptable_state_scheme outcome" where
  "sleep ch s =
     (case curproc s of
        None \<Rightarrow> Panic ''sleep''
      | Some p \<Rightarrow> sched (upd_proc p (\<lambda>q. q\<lparr>pchan := ch, pstate := SLEEPING\<rparr>) s))"

text \<open>What \<open>sleep\<close> does once the process runs again.\<close>

definition sleep_resume :: "'a ptable_state_scheme \<Rightarrow> 'a ptable_state_scheme" where
  "sleep_resume s = (case curproc s of None \<Rightarrow> s | Some p \<Rightarrow> upd_proc p (\<lambda>q. q\<lparr>pchan := NoChan\<rparr>) s)"

text \<open>
  One turn of the scheduler loop of processor \<open>this s\<close>, at slot \<open>sched_pos\<close>: skip a
  process that is not runnable, or switch to it. At the end of the table the pass is over: if
  it has started no process (\<open>sched_idle\<close>, the variable \<open>idle\<close>) the processor executes
  \<open>hlt\<close> and waits for an interrupt, and the next pass begins at slot 0 with \<open>idle\<close> set.
\<close>

definition scheduler :: "'a ptable_state_scheme \<Rightarrow> 'a ptable_state_scheme outcome" where
  "scheduler s =
     (let c = this s; i = sched_pos s c in
      if i < length (procs s) then
        if pstate (procs s ! i) \<noteq> RUNNABLE then Ret (s\<lparr>sched_pos := (sched_pos s)(c := i + 1)\<rparr>)
        else
          let s = s\<lparr>sched_idle := (sched_idle s)(c := False), cpu_proc := (cpu_proc s)(c := Some i)\<rparr> in
          obind (switchuvm i s) (\<lambda>s. Ret (upd_proc i (\<lambda>p. p\<lparr>pstate := RUNNING\<rparr>) s))
      else Ret (s\<lparr>sched_pos := (sched_pos s)(c := 0), sched_idle := (sched_idle s)(c := True),
             halted := (halted s)(c := sched_idle s c)\<rparr>))"

text \<open>An interrupt ends the wait of a processor in \<open>hlt\<close>.\<close>

definition interrupted :: "nat \<Rightarrow> 'a ptable_state_scheme \<Rightarrow> 'a ptable_state_scheme" where
  "interrupted c s = s\<lparr>halted := (halted s)(c := False)\<rparr>"

text \<open>One round of the loop of \<open>wait\<close>.\<close>

datatype 'a progress = Done 'a | Sleep

definition reap :: "nat \<Rightarrow> 'a ptable_state_scheme \<Rightarrow> 'a ptable_state_scheme outcome" where
  "reap i s =
     obind (kfree (kstack (procs s ! i)) s) (\<lambda>s.
       let s = upd_proc i (\<lambda>p. p\<lparr>kstack := 0\<rparr>) s in
       obind (freevm (pgdir (procs s ! i)) s) (\<lambda>s.
         Ret (upd_proc i (\<lambda>p. p\<lparr>pid := 0, parent := None, pname := [], killed := False, pstate := UNUSED\<rparr>) s)))"

definition wait :: "'a ptable_state_scheme \<Rightarrow> (int progress \<times> 'a ptable_state_scheme) outcome" where
  "wait s =
     (case curproc s of
        None \<Rightarrow> Panic ''null process''
      | Some c \<Rightarrow>
          (case scan (\<lambda>p. parent p = Some c \<and> pstate p = ZOMBIE) (procs s) of
             Some i \<Rightarrow> let n = pid (procs s ! i) in obind (reap i s) (\<lambda>s. Ret (Done (sint n), s))
           | None \<Rightarrow>
               if (\<forall>p \<in> set (procs s). parent p \<noteq> Some c) \<or> killed (procs s ! c) then Ret (Done (-1), s)
               else obind (sleep (ChProc c) s) (\<lambda>s. Ret (Sleep, s))))"

text \<open>The loop of \<open>exit\<close> that passes the children to \<open>initproc\<close>.\<close>

fun pass_children :: "nat \<Rightarrow> nat list \<Rightarrow> 'a ptable_state_scheme \<Rightarrow> 'a ptable_state_scheme" where
  "pass_children c [] s = s"
| "pass_children c (i # is) s =
     (if parent (procs s ! i) = Some c then
        let s = upd_proc i (\<lambda>p. p\<lparr>parent := initproc s\<rparr>) s;
            s = (if pstate (procs s ! i) = ZOMBIE
                 then wakeup1 (case initproc s of Some k \<Rightarrow> ChProc k | None \<Rightarrow> NoChan) s else s)
        in pass_children c is s
      else pass_children c is s)"

definition exit_table :: "'a ptable_state_scheme \<Rightarrow> 'a ptable_state_scheme outcome" where
  "exit_table s =
     (case curproc s of
        None \<Rightarrow> Panic ''null process''
      | Some c \<Rightarrow>
          let s = wakeup1 (case parent (procs s ! c) of Some k \<Rightarrow> ChProc k | None \<Rightarrow> NoChan) s;
              s = pass_children c [0..<length (procs s)] s
          in sched (upd_proc c (\<lambda>p. p\<lparr>pstate := ZOMBIE\<rparr>) s))"

section \<open>One process, one processor\<close>

lemma procs_mem_only:
  "mem_only s s' \<Longrightarrow> procs s' = procs s \<and> cpu_proc s' = cpu_proc s \<and> this s' = this s \<and>
     initproc s' = initproc s \<and> nextpid s' = nextpid s \<and> sched_pos s' = sched_pos s"
  by (auto simp: mem_only_def)

lemma upd_proc_simps [simp]:
  "cpu_proc (upd_proc i f s) = cpu_proc s" "this (upd_proc i f s) = this s"
  "initproc (upd_proc i f s) = initproc s" "nextpid (upd_proc i f s) = nextpid s"
  "sched_pos (upd_proc i f s) = sched_pos s" "halted (upd_proc i f s) = halted s" "mem (upd_proc i f s) = mem s"
  "procs (upd_proc i f s) = (procs s)[i := f (procs s ! i)]"
  by (simp_all add: upd_proc_def)

lemma switch_simps [simp]:
  "procs (switchkvm s) = procs s" "cpu_proc (switchkvm s) = cpu_proc s" "this (switchkvm s) = this s"
  "sched_pos (switchkvm s) = sched_pos s" "initproc (switchkvm s) = initproc s" "nextpid (switchkvm s) = nextpid s"
  by (simp_all add: switchkvm_def)

lemma switchuvm_frame:
  "switchuvm p s = Ret s' \<Longrightarrow> procs s' = procs s \<and> cpu_proc s' = cpu_proc s \<and> this s' = this s \<and>
     sched_pos s' = sched_pos s \<and> nextpid s' = nextpid s \<and> initproc s' = initproc s"
  by (auto simp: switchuvm_def split: if_splits)

definition run_ok :: "(nat \<Rightarrow> nat option) \<Rightarrow> proc list \<Rightarrow> bool" where
  "run_ok cp ps \<longleftrightarrow>
     (\<forall>c i. cp c = Some i \<longrightarrow> i < length ps \<and> pstate (ps ! i) = RUNNING) \<and>
     (\<forall>i < length ps. pstate (ps ! i) = RUNNING \<longrightarrow> (\<exists>c. cp c = Some i)) \<and>
     (\<forall>c d i. cp c = Some i \<longrightarrow> cp d = Some i \<longrightarrow> c = d)"

lemma run_okD:
  assumes "run_ok cp ps"
  shows "\<And>c i. cp c = Some i \<Longrightarrow> i < length ps" "\<And>c i. cp c = Some i \<Longrightarrow> pstate (ps ! i) = RUNNING"
    "\<And>i. i < length ps \<Longrightarrow> pstate (ps ! i) = RUNNING \<Longrightarrow> \<exists>c. cp c = Some i"
    "\<And>c d i. cp c = Some i \<Longrightarrow> cp d = Some i \<Longrightarrow> c = d"
  using assms unfolding run_ok_def by blast+

text \<open>Changes that neither start nor stop a running process keep the invariant.\<close>

lemma run_ok_cong:
  assumes "run_ok cp ps" "length ps' = length ps"
    "\<And>i. i < length ps \<Longrightarrow> pstate (ps' ! i) = RUNNING \<longleftrightarrow> pstate (ps ! i) = RUNNING"
  shows "run_ok cp ps'"
  using assms unfolding run_ok_def by metis

lemma run_ok_update:
  assumes "run_ok cp ps" "i < length ps \<Longrightarrow> pstate q = RUNNING \<longleftrightarrow> pstate (ps ! i) = RUNNING"
  shows "run_ok cp (ps[i := q])"
proof (rule run_ok_cong [OF assms(1)])
  fix j assume "j < length ps"
  then show "pstate (ps[i := q] ! j) = RUNNING \<longleftrightarrow> pstate (ps ! j) = RUNNING"
    using assms(2) by (cases "j = i") simp_all
qed simp

lemma run_ok_stop:
  assumes "run_ok cp ps" "cp c = Some i" "pstate q \<noteq> RUNNING"
  shows "run_ok (cp(c := None)) (ps[i := q])"
proof -
  note I = run_okD [OF assms(1)]
  have other: "j \<noteq> i" if "d \<noteq> c" "cp d = Some j" for d j using I(4) assms(2) that by blast
  show ?thesis
    unfolding run_ok_def
  proof (intro conjI allI impI)
    fix d j assume d: "(cp(c := None)) d = Some j"
    then have "d \<noteq> c" "cp d = Some j" by (auto split: if_splits)
    then show "j < length (ps[i := q])" "pstate (ps[i := q] ! j) = RUNNING"
      using I(1,2) [of d j] other [of d j] by simp_all
  next
    fix j assume j: "j < length (ps[i := q])" "pstate (ps[i := q] ! j) = RUNNING"
    then have "j \<noteq> i" using assms(3) by auto
    then obtain d where "cp d = Some j" using I(3) j by auto
    with \<open>j \<noteq> i\<close> assms(2) show "\<exists>d. (cp(c := None)) d = Some j" by (intro exI [of _ d]) auto
  next
    fix d e j assume "(cp(c := None)) d = Some j" "(cp(c := None)) e = Some j"
    then show "d = e" using I(4) by (auto split: if_splits)
  qed
qed

lemma run_ok_start:
  assumes "run_ok cp ps" "cp c = None" "i < length ps" "pstate (ps ! i) \<noteq> RUNNING" "pstate q = RUNNING"
  shows "run_ok (cp(c := Some i)) (ps[i := q])"
proof -
  note I = run_okD [OF assms(1)]
  have other: "cp d \<noteq> Some i" for d using I(2) assms(4) by blast
  show ?thesis
    unfolding run_ok_def
  proof (intro conjI allI impI)
    fix d j assume d: "(cp(c := Some i)) d = Some j"
    then show "j < length (ps[i := q])" "pstate (ps[i := q] ! j) = RUNNING"
      using I(1,2) assms(3,5) other [of d] by (auto simp: nth_list_update split: if_splits)
  next
    fix j assume j: "j < length (ps[i := q])" "pstate (ps[i := q] ! j) = RUNNING"
    show "\<exists>d. (cp(c := Some i)) d = Some j"
    proof (cases "j = i")
      case False
      with j obtain d where "cp d = Some j" using I(3) by auto
      with assms(2) show ?thesis by (intro exI [of _ d]) auto
    qed auto
  next
    fix d e j assume "(cp(c := Some i)) d = Some j" "(cp(c := Some i)) e = Some j"
    then show "d = e" using I(4) other by (auto split: if_splits)
  qed
qed

abbreviation running_ok :: "'a ptable_state_scheme \<Rightarrow> bool" where
  "running_ok s \<equiv> run_ok (cpu_proc s) (procs s)"

lemma wakeup1_simps [simp]:
  "cpu_proc (wakeup1 ch s) = cpu_proc s" "this (wakeup1 ch s) = this s" "initproc (wakeup1 ch s) = initproc s"
  "length (procs (wakeup1 ch s)) = length (procs s)" "nextpid (wakeup1 ch s) = nextpid s"
  "sched_pos (wakeup1 ch s) = sched_pos s"
  by (simp_all add: wakeup1_def)

lemma wakeup1_nth:
  "i < length (procs s) \<Longrightarrow> procs (wakeup1 ch s) ! i =
     (if pstate (procs s ! i) = SLEEPING \<and> pchan (procs s ! i) = ch
      then (procs s ! i)\<lparr>pstate := RUNNABLE\<rparr> else procs s ! i)"
  by (simp add: wakeup1_def)

lemma running_ok_wakeup1: "running_ok s \<Longrightarrow> running_ok (wakeup1 ch s)"
  by (rule run_ok_cong [of _ "procs s"]) (auto simp: wakeup1_nth)

lemma running_ok_kill: "running_ok s \<Longrightarrow> running_ok (snd (kill n s))"
  by (auto simp: kill_def split: option.splits intro!: run_ok_update)

text \<open>The ways \<open>allocproc\<close> can go.\<close>

lemma allocproc_cases:
  obtains (none) "\<forall>p \<in> set (procs s). pstate p \<noteq> UNUSED" "allocproc s = (None, s)"
  | (full) i s' where "i < length (procs s)" "pstate (procs s ! i) = UNUSED" "allocproc s = (None, s')"
      "freelist s = 0" "procs s' = (procs s)[i := (procs s ! i)\<lparr>pid := nextpid s, kstack := 0\<rparr>]"
      "nextpid s' = nextpid s + 1" "cpu_proc s' = cpu_proc s" "this s' = this s" "initproc s' = initproc s"
  | (ok) i k s' where "i < length (procs s)" "pstate (procs s ! i) = UNUSED" "allocproc s = (Some i, s')"
      "k \<noteq> 0" "procs s' = (procs s)[i := (procs s ! i)\<lparr>pstate := EMBRYO, pid := nextpid s, kstack := k,
         tf := k + 4096 - 76, pcontext := k + 4096 - 76 - 4 - 20\<rparr>]"
      "nextpid s' = nextpid s + 1" "cpu_proc s' = cpu_proc s" "this s' = this s" "initproc s' = initproc s"
proof (cases "scan (\<lambda>p. pstate p = UNUSED) (procs s)")
  case None
  then have "\<forall>p \<in> set (procs s). pstate p \<noteq> UNUSED" by simp
  moreover have "allocproc s = (None, s)" unfolding allocproc_def None by simp
  ultimately show thesis by (rule none)
next
  case (Some i)
  let ?s = "upd_proc i (\<lambda>p. p\<lparr>pstate := EMBRYO, pid := nextpid s\<rparr>) s\<lparr>nextpid := nextpid s + 1\<rparr>"
  obtain k s1 where k: "kalloc ?s = (k, s1)" by fastforce
  have un: "i < length (procs s)" "pstate (procs s ! i) = UNUSED" using scan_SomeD [OF Some] by auto
  have kf: "k = freelist s" using k by (simp add: kalloc_def Let_def upd_proc_def)
  note fr = procs_mem_only [OF mem_only_kalloc [OF k]]
  show thesis
  proof (cases "k = 0")
    case True
    have same: "(procs s ! i)\<lparr>pid := nextpid s, kstack := 0, pstate := UNUSED\<rparr> =
        (procs s ! i)\<lparr>pid := nextpid s, kstack := 0\<rparr>" using un(2) by (cases "procs s ! i") simp
    show thesis
      using True Some k kf fr un
      by (intro full [of i "upd_proc i (\<lambda>p. p\<lparr>pstate := UNUSED\<rparr>) (upd_proc i (\<lambda>p. p\<lparr>kstack := k\<rparr>) s1)"])
        (simp_all add: allocproc_def Let_def same)
  next
    case False
    show thesis
      by (rule ok [of i "snd (allocproc s)" k]) (use False Some k fr un in \<open>simp_all add: allocproc_def Let_def\<close>)
  qed
qed

lemma running_ok_allocproc: "running_ok s \<Longrightarrow> running_ok (snd (allocproc s))"
  by (cases rule: allocproc_cases [of s]) (auto intro!: run_ok_update)

end
