(* ===== verification/Psteps.thy ===== *)
theory Psteps
  imports Ptable
begin

text \<open>
  The process table over time: every step the kernel takes on it, the invariants all
  steps keep, and what follows for processes and their parents. The steps interleave
  freely between processors.
\<close>

section \<open>Steps of the process table\<close>

definition set_runnable :: "nat \<Rightarrow> 'a ptable_state_scheme \<Rightarrow> 'a ptable_state_scheme" where
  "set_runnable i s = upd_proc i (\<lambda>p. p\<lparr>pstate := RUNNABLE\<rparr>) s"

definition unalloc :: "nat \<Rightarrow> 'a ptable_state_scheme \<Rightarrow> 'a ptable_state_scheme outcome" where
  "unalloc i s = obind (kfree (kstack (procs s ! i)) s) (\<lambda>s.
     Ret (upd_proc i (\<lambda>p. p\<lparr>kstack := 0, pstate := UNUSED\<rparr>) s))"

text \<open>Open files, directory, name, size, page table and trap frame belong to the process itself.\<close>

definition same_sched :: "proc \<Rightarrow> proc \<Rightarrow> bool" where
  "same_sched p q \<longleftrightarrow> pstate q = pstate p \<and> pid q = pid p \<and> parent q = parent p \<and> pchan q = pchan p \<and>
     kstack q = kstack p \<and> killed q = killed p"

text \<open>
  Everything the kernel does to the table: the scheduler turns of processors that run no
  process and are not in \<open>hlt\<close>, interrupts that end \<open>hlt\<close>, the
  calls of the running processes and of interrupt handlers, in any order. Only \<open>wait\<close>
  sleeps on a process; \<open>adopt\<close> is the assignment of the parent in \<open>fork\<close>.
\<close>


inductive pt_step :: "'a ptable_state_scheme \<Rightarrow> 'a ptable_state_scheme \<Rightarrow> bool" where
  turn: "cpu_proc s c = None \<Longrightarrow> \<not> halted s c \<Longrightarrow> scheduler (s\<lparr>this := c\<rparr>) = Ret s' \<Longrightarrow> pt_step s s'"
| interrupt: "pt_step s (interrupted c s)"
| yield: "yield (s\<lparr>this := c\<rparr>) = Ret s' \<Longrightarrow> pt_step s s'"
| sleep: "(\<And>k. ch \<noteq> ChProc k) \<Longrightarrow> sleep ch (s\<lparr>this := c\<rparr>) = Ret s' \<Longrightarrow> pt_step s s'"
| resume: "pt_step s (sleep_resume (s\<lparr>this := c\<rparr>))"
| wakeup: "pt_step s (wakeup ch s)"
| kill: "pt_step s (snd (kill n s))"
| alloc: "unat (nextpid s) < 2 ^ 32 - 1 \<Longrightarrow> pt_step s (snd (allocproc s))"
| adopt: "pstate (procs s ! i) = EMBRYO \<Longrightarrow> initproc s \<noteq> Some i \<Longrightarrow> pt_step s (upd_proc i (\<lambda>p. p\<lparr>parent := cpu_proc s c\<rparr>) s)"
| ready: "i < length (procs s) \<Longrightarrow> pstate (procs s ! i) = EMBRYO \<Longrightarrow> pt_step s (set_runnable i s)"
| abort: "i < length (procs s) \<Longrightarrow> pstate (procs s ! i) = EMBRYO \<Longrightarrow> unalloc i s = Ret s' \<Longrightarrow> pt_step s s'"
| wait: "wait (s\<lparr>this := c\<rparr>) = Ret (r, s') \<Longrightarrow> pt_step s s'"
| exit: "cpu_proc s c \<noteq> initproc s \<Longrightarrow> exit_table (s\<lparr>this := c\<rparr>) = Ret s' \<Longrightarrow> pt_step s s'"
| grow: "growproc n (s\<lparr>this := c\<rparr>) = Ret (r, s') \<Longrightarrow> pt_step s s'"
| memory: "mem_only s s' \<Longrightarrow> pt_step s s'"
| fields: "same_sched (procs s ! i) q \<Longrightarrow> pt_step s (upd_proc i (\<lambda>_. q) s)"

definition pid_ok :: "u32 \<Rightarrow> proc list \<Rightarrow> bool" where
  "pid_ok n ps \<longleftrightarrow>
     (\<forall>i < length ps. pstate (ps ! i) \<noteq> UNUSED \<longrightarrow> 0 < pid (ps ! i) \<and> pid (ps ! i) < n) \<and>
     (\<forall>i < length ps. \<forall>j < length ps. pstate (ps ! i) \<noteq> UNUSED \<longrightarrow> pstate (ps ! j) \<noteq> UNUSED \<longrightarrow>
        pid (ps ! i) = pid (ps ! j) \<longrightarrow> i = j)"

text \<open>\<open>ps'\<close> has no process that \<open>ps\<close> has not, no more or fewer running ones, and every runnable one.\<close>

definition calm :: "proc list \<Rightarrow> proc list \<Rightarrow> bool" where
  "calm ps ps' \<longleftrightarrow> length ps' = length ps \<and>
     (\<forall>i < length ps. (pstate (ps' ! i) = RUNNING \<longleftrightarrow> pstate (ps ! i) = RUNNING) \<and>
        (pstate (ps ! i) = RUNNABLE \<longrightarrow> pstate (ps' ! i) = RUNNABLE) \<and>
        (pstate (ps' ! i) \<noteq> UNUSED \<longrightarrow> pstate (ps ! i) \<noteq> UNUSED \<and> pid (ps' ! i) = pid (ps ! i)))"

definition no_new :: "proc list \<Rightarrow> proc list \<Rightarrow> bool" where
  "no_new ps ps' \<longleftrightarrow> length ps' = length ps \<and>
     (\<forall>i < length ps. pstate (ps' ! i) \<noteq> UNUSED \<longrightarrow> pstate (ps ! i) \<noteq> UNUSED \<and> pid (ps' ! i) = pid (ps ! i))"

lemma calm_refl [simp]: "calm ps ps" by (simp add: calm_def)

lemma calm_trans: "calm ps qs \<Longrightarrow> calm qs rs \<Longrightarrow> calm ps rs"
  unfolding calm_def by auto

lemma calm_no_new: "calm ps ps' \<Longrightarrow> no_new ps ps'"
  by (simp add: calm_def no_new_def)

lemma no_new_trans: "no_new ps qs \<Longrightarrow> no_new qs rs \<Longrightarrow> no_new ps rs"
  unfolding no_new_def by auto

lemma calm_update:
  "(i < length ps \<Longrightarrow> (pstate q = RUNNING \<longleftrightarrow> pstate (ps ! i) = RUNNING) \<and> (pstate (ps ! i) = RUNNABLE \<longrightarrow> pstate q = RUNNABLE) \<and>
     (pstate q \<noteq> UNUSED \<longrightarrow> pstate (ps ! i) \<noteq> UNUSED \<and> pid q = pid (ps ! i))) \<Longrightarrow> calm ps (ps[i := q])"
  by (cases "i < length ps") (auto simp: calm_def nth_list_update list_update_beyond)

lemma no_new_update:
  "(i < length ps \<Longrightarrow> pstate q \<noteq> UNUSED \<longrightarrow> pstate (ps ! i) \<noteq> UNUSED \<and> pid q = pid (ps ! i)) \<Longrightarrow>
     no_new ps (ps[i := q])"
  by (cases "i < length ps") (auto simp: no_new_def nth_list_update list_update_beyond)

lemma run_ok_calm: "run_ok cp ps \<Longrightarrow> calm ps ps' \<Longrightarrow> run_ok cp ps'"
  by (rule run_ok_cong [of cp ps]) (auto simp: calm_def)

lemma pid_ok_no_new: "pid_ok n ps \<Longrightarrow> no_new ps ps' \<Longrightarrow> pid_ok n ps'"
  unfolding pid_ok_def no_new_def by auto

lemma calm_wakeup1: "calm (procs s) (procs (wakeup1 ch s))"
  by (auto simp: calm_def wakeup1_nth)

lemma calm_kill: "calm (procs s) (procs (snd (kill n s)))"
  by (auto simp: kill_def split: option.splits intro!: calm_update)

lemma calm_reap: "reap i s = Ret s' \<Longrightarrow> pstate (procs s ! i) = ZOMBIE \<Longrightarrow>
  calm (procs s) (procs s') \<and> cpu_proc s' = cpu_proc s \<and> nextpid s' = nextpid s \<and> sched_pos s' = sched_pos s"
proof -
  assume r: "reap i s = Ret s'" and z: "pstate (procs s ! i) = ZOMBIE"
  then obtain s1 s2 where k: "kfree (kstack (procs s ! i)) s = Ret s1"
    and f: "freevm (pgdir (procs (upd_proc i (\<lambda>p. p\<lparr>kstack := 0\<rparr>) s1) ! i)) (upd_proc i (\<lambda>p. p\<lparr>kstack := 0\<rparr>) s1) = Ret s2"
    and s': "s' = upd_proc i (\<lambda>p. p\<lparr>pid := 0, parent := None, pname := [], killed := False, pstate := UNUSED\<rparr>) s2"
    unfolding reap_def Let_def by (auto simp: obind_eq_Ret)
  note 1 = procs_mem_only [OF mem_only_kfree [OF k]] and 2 = procs_mem_only [OF mem_only_freevm [OF f]]
  have "procs s' = (procs s)[i := (procs s2 ! i)\<lparr>pid := 0, parent := None, pname := [], killed := False, pstate := UNUSED\<rparr>]"
    using 1 2 by (simp add: s')
  then show ?thesis using 1 2 z by (simp add: s' calm_update)
qed

lemma calm_pass_children:
  "calm (procs s) (procs (pass_children c is s)) \<and> cpu_proc (pass_children c is s) = cpu_proc s \<and>
     this (pass_children c is s) = this s \<and> nextpid (pass_children c is s) = nextpid s \<and>
     initproc (pass_children c is s) = initproc s"
proof (induction c "is" s rule: pass_children.induct)
  case IH: (2 c i "is" s)
  let ?s1 = "upd_proc i (\<lambda>p. p\<lparr>parent := initproc s\<rparr>) s"
  have 1: "calm (procs s) (procs ?s1)" by (simp add: calm_update)
  show ?case
  proof (cases "parent (procs s ! i) = Some c")
    case False
    then show ?thesis using IH(2) by simp
  next
    case par: True
    define s2 where "s2 = (if pstate (procs ?s1 ! i) = ZOMBIE
      then wakeup1 (case initproc ?s1 of Some k \<Rightarrow> ChProc k | None \<Rightarrow> NoChan) ?s1 else ?s1)"
    have 2: "calm (procs s) (procs s2)" using 1 calm_trans [OF 1 calm_wakeup1] by (simp add: s2_def del: upd_proc_simps)
    have run: "pass_children c (i # is) s = pass_children c is s2"
      using par by (simp add: s2_def Let_def)
    have fr: "cpu_proc s2 = cpu_proc s" "this s2 = this s" "nextpid s2 = nextpid s" "initproc s2 = initproc s"
      by (simp_all add: s2_def)
    have "calm (procs s2) (procs (pass_children c is s2)) \<and> cpu_proc (pass_children c is s2) = cpu_proc s2 \<and>
      this (pass_children c is s2) = this s2 \<and> nextpid (pass_children c is s2) = nextpid s2 \<and>
      initproc (pass_children c is s2) = initproc s2"
      by (rule IH(1) [OF par refl s2_def])
    then show ?thesis unfolding run using calm_trans [OF 2] fr by auto
  qed
qed simp

definition pt_inv :: "'a ptable_state_scheme \<Rightarrow> bool" where
  "pt_inv s \<longleftrightarrow> running_ok s \<and> pid_ok (nextpid s) (procs s) \<and> 0 < nextpid s"

lemma pt_inv_calm:
  "pt_inv s \<Longrightarrow> calm (procs s) (procs s') \<Longrightarrow> cpu_proc s' = cpu_proc s \<Longrightarrow> nextpid s' = nextpid s \<Longrightarrow> pt_inv s'"
  using run_ok_calm [of "cpu_proc s" "procs s" "procs s'"] pid_ok_no_new [OF _ calm_no_new]
  unfolding pt_inv_def by metis

text \<open>Giving up the processor with a state other than \<open>RUNNING\<close>.\<close>

lemma sched_upd:
  assumes "sched (upd_proc p f s) = Ret s'" "cpu_proc s (this s) = Some p"
  shows "procs s' = (procs s)[p := f (procs s ! p)]" "cpu_proc s' = (cpu_proc s)(this s := None)"
    "nextpid s' = nextpid s" "p < length (procs s) \<Longrightarrow> pstate (f (procs s ! p)) \<noteq> RUNNING"
    "sched_pos s' = (sched_pos s)(this s := sched_pos s (this s) + 1)"
  using assms by (auto simp: sched_def curproc_def Let_def split: option.splits if_splits)

lemma pt_inv_sched:
  assumes inv: "pt_inv s" and r: "sched (upd_proc p f s) = Ret s'" and cur: "cpu_proc s (this s) = Some p"
    and f: "pid (f (procs s ! p)) = pid (procs s ! p)"
  shows "pt_inv s'"
proof -
  note I = run_okD [of "cpu_proc s" "procs s"] and S = sched_upd [OF r cur]
  have run: "running_ok s" using inv by (simp add: pt_inv_def)
  have p: "p < length (procs s)" "pstate (procs s ! p) = RUNNING" using run_okD(1,2) [OF run cur] .
  have "running_ok s'" unfolding S(1,2) using run_ok_stop [OF run cur] S(4) [OF p(1)] by simp
  moreover have "no_new (procs s) (procs s')" unfolding S(1) using p f by (intro no_new_update) simp
  ultimately show ?thesis using inv S(3) pid_ok_no_new by (auto simp: pt_inv_def)
qed

lemma pt_inv_this [simp]: "pt_inv (s\<lparr>this := c\<rparr>) = pt_inv s"
  by (simp add: pt_inv_def)

lemma pt_inv_sched_at:
  "sched (upd_proc p f (s\<lparr>this := c\<rparr>)) = Ret s' \<Longrightarrow> pt_inv s \<Longrightarrow> cpu_proc s c = Some p \<Longrightarrow>
     pid (f (procs s ! p)) = pid (procs s ! p) \<Longrightarrow> pt_inv s'"
  using pt_inv_sched [of "s\<lparr>this := c\<rparr>" p f s'] by simp

lemma pt_inv_scheduler:
  assumes inv: "pt_inv s" and idle: "cpu_proc s (this s) = None" and r: "scheduler s = Ret s'"
  shows "pt_inv s'"
proof -
  let ?c = "this s"
  let ?i = "sched_pos s ?c"
  have run: "running_ok s" using inv by (simp add: pt_inv_def)
  show ?thesis
  proof (cases "?i < length (procs s) \<and> pstate (procs s ! ?i) = RUNNABLE")
    case False
    then show ?thesis using r inv by (auto simp: scheduler_def Let_def pt_inv_def split: if_splits)
  next
    case True
    then obtain s1 where s1: "switchuvm ?i (s\<lparr>sched_idle := (sched_idle s)(?c := False), cpu_proc := (cpu_proc s)(?c := Some ?i)\<rparr>) = Ret s1"
      and s': "s' = upd_proc ?i (\<lambda>p. p\<lparr>pstate := RUNNING\<rparr>) s1"
      using r by (auto simp: scheduler_def Let_def obind_eq_Ret)
    note F = switchuvm_frame [OF s1]
    have "procs s' = (procs s)[?i := (procs s ! ?i)\<lparr>pstate := RUNNING\<rparr>]"
      "cpu_proc s' = (cpu_proc s)(?c := Some ?i)" "nextpid s' = nextpid s"
      using F by (simp_all add: s')
    moreover have "run_ok ((cpu_proc s)(?c := Some ?i)) ((procs s)[?i := (procs s ! ?i)\<lparr>pstate := RUNNING\<rparr>])"
      using run idle True by (intro run_ok_start) auto
    moreover have "no_new (procs s) ((procs s)[?i := (procs s ! ?i)\<lparr>pstate := RUNNING\<rparr>])"
      using True by (intro no_new_update) simp
    ultimately show ?thesis using inv pid_ok_no_new by (auto simp: pt_inv_def)
  qed
qed

lemma pt_inv_alloc:
  assumes inv: "pt_inv s" and room: "unat (nextpid s) < 2 ^ 32 - 1"
  shows "pt_inv (snd (allocproc s))"
proof -
  have run: "running_ok (snd (allocproc s))" using inv running_ok_allocproc by (auto simp: pt_inv_def)
  have up: "unat (nextpid s + 1) = unat (nextpid s) + 1"
    using room unat_add_lem [of "nextpid s" 1] by simp
  have grow: "pid_ok (nextpid s + 1) (procs s)" "0 < nextpid s + 1"
    using inv up unfolding pt_inv_def pid_ok_def word_less_nat_alt by auto
  show ?thesis
  proof (cases rule: allocproc_cases [of s])
    case none
    then show ?thesis using inv by simp
  next
    case (full i s')
    then have "no_new (procs s) (procs s')" by (simp add: no_new_update)
    then show ?thesis using grow pid_ok_no_new run full by (auto simp: pt_inv_def)
  next
    case (ok i k s')
    have old: "0 < pid (procs s ! j)" "pid (procs s ! j) < nextpid s"
      if "j < length (procs s)" "pstate (procs s ! j) \<noteq> UNUSED" for j
      using inv that unfolding pt_inv_def pid_ok_def by auto
    have uniq: "j = k" if "j < length (procs s)" "k < length (procs s)" "pstate (procs s ! j) \<noteq> UNUSED"
      "pstate (procs s ! k) \<noteq> UNUSED" "pid (procs s ! j) = pid (procs s ! k)" for j k
      using inv that unfolding pt_inv_def pid_ok_def by blast
    have new: "pid (procs s' ! j) = (if j = i then nextpid s else pid (procs s ! j))"
      "pstate (procs s' ! j) = (if j = i then EMBRYO else pstate (procs s ! j))" if "j < length (procs s)" for j
      using ok(1,5) that by auto
    have "0 < nextpid s" using inv by (simp add: pt_inv_def)
    have "pid_ok (nextpid s + 1) (procs s')"
      unfolding pid_ok_def
    proof (intro conjI allI impI)
      fix j assume j: "j < length (procs s')" "pstate (procs s' ! j) \<noteq> UNUSED"
      then have l: "j < length (procs s)" using ok(5) by simp
      show "0 < pid (procs s' ! j)" "pid (procs s' ! j) < nextpid s + 1"
        using new [OF l] old [OF l] j(2) up \<open>0 < nextpid s\<close> by (auto simp: word_less_nat_alt split: if_splits)
    next
      fix j k assume j: "j < length (procs s')" "k < length (procs s')" "pstate (procs s' ! j) \<noteq> UNUSED"
        "pstate (procs s' ! k) \<noteq> UNUSED" "pid (procs s' ! j) = pid (procs s' ! k)"
      then have l: "j < length (procs s)" "k < length (procs s)" using ok(5) by simp_all
      have fresh: "pid (procs s ! m) \<noteq> nextpid s" if "m < length (procs s)" "m \<noteq> i" "pstate (procs s' ! m) \<noteq> UNUSED" for m
        using old(2) [OF that(1)] new(2) [OF that(1)] that(2,3) by auto
      consider "j = i" "k = i" | "j = i" "k \<noteq> i" | "j \<noteq> i" "k = i" | "j \<noteq> i" "k \<noteq> i" by blast
      then show "j = k"
      proof cases
        case 2
        then show ?thesis using fresh [OF l(2) _ j(4)] new(1) [OF l(1)] new(1) [OF l(2)] j(5) by simp
      next
        case 3
        then show ?thesis using fresh [OF l(1) _ j(3)] new(1) [OF l(1)] new(1) [OF l(2)] j(5) by simp
      next
        case 4
        then have "pstate (procs s ! j) \<noteq> UNUSED" "pstate (procs s ! k) \<noteq> UNUSED" "pid (procs s ! j) = pid (procs s ! k)"
          using new [OF l(1)] new [OF l(2)] j(3-5) by simp_all
        with l show ?thesis by (rule uniq)
      qed simp
    qed
    then show ?thesis using run grow(2) unfolding ok(3) pt_inv_def snd_conv ok(6) by blast
  qed
qed

lemma grow_finish:
  assumes "mem_only s s1" "(if z = 0 then Ret (-1, s1) else obind (switchuvm c (upd_proc c (\<lambda>p. p\<lparr>sz := z\<rparr>) s1))
    (\<lambda>s. Ret (0, s))) = Ret (r, s')"
  shows "calm (procs s) (procs s') \<and> cpu_proc s' = cpu_proc s \<and> nextpid s' = nextpid s \<and> sched_pos s' = sched_pos s"
proof (cases "z = 0")
  case True
  then show ?thesis using assms procs_mem_only [OF assms(1)] by simp
next
  case False
  then obtain s2 where "switchuvm c (upd_proc c (\<lambda>p. p\<lparr>sz := z\<rparr>) s1) = Ret s2" "s' = s2"
    using assms(2) by (auto simp: obind_eq_Ret)
  then show ?thesis using switchuvm_frame procs_mem_only [OF assms(1)] by (fastforce intro: calm_update)
qed

lemma calm_growproc:
  assumes "growproc n s = Ret (r, s')"
  shows "calm (procs s) (procs s') \<and> cpu_proc s' = cpu_proc s \<and> nextpid s' = nextpid s \<and> sched_pos s' = sched_pos s"
proof -
  obtain c where c: "curproc s = Some c" using assms by (cases "curproc s") (auto simp: growproc_def)
  let ?p = "procs s ! c"
  consider (up) z s1 where "allocuvm (pgdir ?p) (sz ?p) (sz ?p + n) s = Ret (z, s1)"
      "(if z = 0 then Ret (-1, s1) else obind (switchuvm c (upd_proc c (\<lambda>p. p\<lparr>sz := z\<rparr>) s1)) (\<lambda>s. Ret (0, s))) = Ret (r, s')"
    | (down) z s1 where "deallocuvm (pgdir ?p) (sz ?p) (sz ?p + n) s = Ret (z, s1)"
      "(if z = 0 then Ret (-1, s1) else obind (switchuvm c (upd_proc c (\<lambda>p. p\<lparr>sz := z\<rparr>) s1)) (\<lambda>s. Ret (0, s))) = Ret (r, s')"
    | (same) s1 where "switchuvm c s = Ret s1" "s' = s1"
    using assms unfolding growproc_def Let_def c option.case
    by (auto simp: obind_eq_Ret split: if_split_asm)
  then show ?thesis
  proof cases
    case up
    then show ?thesis using grow_finish [OF mem_only_allocuvm] by blast
  next
    case down
    then show ?thesis using grow_finish [OF mem_only_deallocuvm] by blast
  next
    case same
    then show ?thesis using switchuvm_frame by fastforce
  qed
qed

lemma pt_inv_growproc: "growproc n s = Ret (r, s') \<Longrightarrow> pt_inv s \<Longrightarrow> pt_inv s'"
  using calm_growproc pt_inv_calm by blast

text \<open>A process asleep in \<open>wait\<close> has no zombie child.\<close>

definition wait_ok :: "proc list \<Rightarrow> bool" where
  "wait_ok ps \<longleftrightarrow> (\<forall>q < length ps. pstate (ps ! q) = SLEEPING \<longrightarrow> pchan (ps ! q) = ChProc q \<longrightarrow>
     (\<forall>i < length ps. parent (ps ! i) = Some q \<longrightarrow> pstate (ps ! i) \<noteq> ZOMBIE))"

definition mild :: "proc list \<Rightarrow> proc list \<Rightarrow> bool" where
  "mild ps ps' \<longleftrightarrow> length ps' = length ps \<and>
     (\<forall>i < length ps. (pstate (ps' ! i) = SLEEPING \<longrightarrow> pstate (ps ! i) = SLEEPING \<and> pchan (ps' ! i) = pchan (ps ! i)) \<and>
        (pstate (ps' ! i) = ZOMBIE \<longrightarrow> pstate (ps ! i) = ZOMBIE \<and> parent (ps' ! i) = parent (ps ! i)))"

lemma mild_refl [simp]: "mild ps ps"
  by (simp add: mild_def)

lemma mild_trans: "mild ps qs \<Longrightarrow> mild qs rs \<Longrightarrow> mild ps rs"
  unfolding mild_def by auto

lemma mild_update:
  "(i < length ps \<Longrightarrow> (pstate q = SLEEPING \<longrightarrow> pstate (ps ! i) = SLEEPING \<and> pchan q = pchan (ps ! i)) \<and>
     (pstate q = ZOMBIE \<longrightarrow> pstate (ps ! i) = ZOMBIE \<and> parent q = parent (ps ! i))) \<Longrightarrow> mild ps (ps[i := q])"
  by (cases "i < length ps") (auto simp: mild_def nth_list_update list_update_beyond)

lemma wait_ok_mild: "wait_ok ps \<Longrightarrow> mild ps ps' \<Longrightarrow> wait_ok ps'"
  unfolding wait_ok_def mild_def by (metis (no_types, lifting))

lemma mild_wakeup1: "mild (procs s) (procs (wakeup1 ch s))"
  by (auto simp: mild_def wakeup1_nth)

lemma mild_kill: "mild (procs s) (procs (snd (kill n s)))"
  by (auto simp: kill_def split: option.splits intro!: mild_update)

lemma mild_allocproc: "mild (procs s) (procs (snd (allocproc s)))"
  by (cases rule: allocproc_cases [of s]) (auto intro!: mild_update)

lemma mild_reap: "reap i s = Ret s' \<Longrightarrow> mild (procs s) (procs s')"
proof -
  assume r: "reap i s = Ret s'"
  then obtain s1 s2 where k: "kfree (kstack (procs s ! i)) s = Ret s1"
    and f: "freevm (pgdir (procs (upd_proc i (\<lambda>p. p\<lparr>kstack := 0\<rparr>) s1) ! i)) (upd_proc i (\<lambda>p. p\<lparr>kstack := 0\<rparr>) s1) = Ret s2"
    and s': "s' = upd_proc i (\<lambda>p. p\<lparr>pid := 0, parent := None, pname := [], killed := False, pstate := UNUSED\<rparr>) s2"
    unfolding reap_def Let_def by (auto simp: obind_eq_Ret)
  note 1 = procs_mem_only [OF mem_only_kfree [OF k]] and 2 = procs_mem_only [OF mem_only_freevm [OF f]]
  have "procs s' = (procs s)[i := (procs s2 ! i)\<lparr>pid := 0, parent := None, pname := [], killed := False, pstate := UNUSED\<rparr>]"
    using 1 2 by (simp add: s')
  then show ?thesis by (simp add: mild_update)
qed

lemma mild_grow_finish:
  assumes "mem_only s s1" "(if z = 0 then Ret (-1, s1) else obind (switchuvm c (upd_proc c (\<lambda>p. p\<lparr>sz := z\<rparr>) s1))
    (\<lambda>s. Ret (0, s))) = Ret (r, s')"
  shows "mild (procs s) (procs s')"
proof (cases "z = 0")
  case True
  then show ?thesis using assms procs_mem_only [OF assms(1)] by simp
next
  case False
  then obtain s2 where "switchuvm c (upd_proc c (\<lambda>p. p\<lparr>sz := z\<rparr>) s1) = Ret s2" "s' = s2"
    using assms(2) by (auto simp: obind_eq_Ret)
  then show ?thesis using switchuvm_frame procs_mem_only [OF assms(1)] by (fastforce intro: mild_update)
qed

text \<open>The loop over the children keeps it, and leaves the process without children.\<close>

lemma wait_ok_pass_one:
  assumes w: "wait_ok (procs s)" and s2: "s2 = (if pstate (procs s ! i) = ZOMBIE
      then wakeup1 (case initproc s of Some k \<Rightarrow> ChProc k | None \<Rightarrow> NoChan)
        (upd_proc i (\<lambda>p. p\<lparr>parent := initproc s\<rparr>) s)
      else upd_proc i (\<lambda>p. p\<lparr>parent := initproc s\<rparr>) s)"
  shows "wait_ok (procs s2)"
proof (cases "i < length (procs s)")
  case False
  then have "upd_proc i (\<lambda>p. p\<lparr>parent := initproc s\<rparr>) s = s" by (simp add: upd_proc_def list_update_beyond)
  then show ?thesis using wait_ok_mild [OF w mild_wakeup1] w unfolding s2 by simp
next
  case i: True
  let ?ch = "case initproc s of Some k \<Rightarrow> ChProc k | None \<Rightarrow> NoChan"
  have st: "pstate (procs s2 ! q) = SLEEPING \<Longrightarrow> pstate (procs s ! q) = SLEEPING \<and> pchan (procs s2 ! q) = pchan (procs s ! q)"
    and zo: "pstate (procs s2 ! q) = ZOMBIE \<Longrightarrow> pstate (procs s ! q) = ZOMBIE \<and>
      parent (procs s2 ! q) = (if q = i then initproc s else parent (procs s ! q))"
    and wk: "pstate (procs s ! i) = ZOMBIE \<Longrightarrow> pstate (procs s2 ! q) = SLEEPING \<Longrightarrow> pchan (procs s2 ! q) \<noteq> ?ch"
    if "q < length (procs s)" for q
    using that i by (auto simp: s2 wakeup1_nth nth_list_update split: if_splits)
  have len: "length (procs s2) = length (procs s)" by (simp add: s2)
  show ?thesis
    unfolding wait_ok_def len
  proof (intro allI impI notI)
    fix q k assume q: "q < length (procs s)" "pstate (procs s2 ! q) = SLEEPING" "pchan (procs s2 ! q) = ChProc q"
      and k: "k < length (procs s)" "parent (procs s2 ! k) = Some q" "pstate (procs s2 ! k) = ZOMBIE"
    have "pstate (procs s ! q) = SLEEPING" "pchan (procs s ! q) = ChProc q" using st [OF q(1,2)] q(3) by simp_all
    moreover have "pstate (procs s ! k) = ZOMBIE" using zo [OF k(1,3)] by simp
    moreover have "parent (procs s ! k) = Some q"
    proof (cases "k = i")
      case True
      then have "initproc s = Some q" using zo [OF k(1,3)] k(2) by simp
      moreover have "pchan (procs s2 ! q) \<noteq> ?ch" using wk [OF q(1)] zo [OF k(1,3)] True q(2) by simp
      ultimately show ?thesis using q(3) by simp
    qed (use zo [OF k(1,3)] k(2) in simp)
    ultimately show False using w q(1) k(1) unfolding wait_ok_def by blast
  qed
qed

lemma pass_children_wait_ok: "wait_ok (procs s) \<Longrightarrow> wait_ok (procs (pass_children c is s))"
proof (induction c "is" s rule: pass_children.induct)
  case IH: (2 c i "is" s)
  show ?case
  proof (cases "parent (procs s ! i) = Some c")
    case False
    then show ?thesis using IH(2,3) by simp
  next
    case par: True
    let ?s1 = "upd_proc i (\<lambda>p. p\<lparr>parent := initproc s\<rparr>) s"
    define s2 where "s2 = (if pstate (procs ?s1 ! i) = ZOMBIE
      then wakeup1 (case initproc ?s1 of Some k \<Rightarrow> ChProc k | None \<Rightarrow> NoChan) ?s1 else ?s1)"
    have run: "pass_children c (i # is) s = pass_children c is s2"
      using par by (simp add: s2_def Let_def)
    have "pstate (procs ?s1 ! i) = pstate (procs s ! i)"
      by (cases "i < length (procs s)") (simp_all add: list_update_beyond)
    then have "wait_ok (procs s2)" using wait_ok_pass_one [OF IH(3) refl, of i]
      by (cases "pstate (procs s ! i) = ZOMBIE") (simp_all add: s2_def)
    then show ?thesis unfolding run by (rule IH(1) [OF par refl s2_def])
  qed
qed simp

lemma pass_children_asleep:
  "q < length (procs s) \<Longrightarrow> pstate (procs (pass_children c is s) ! q) = SLEEPING \<Longrightarrow>
     pstate (procs s ! q) = SLEEPING \<and> pchan (procs (pass_children c is s) ! q) = pchan (procs s ! q)"
proof (induction c "is" s rule: pass_children.induct)
  case IH: (2 c i "is" s)
  show ?case
  proof (cases "parent (procs s ! i) = Some c")
    case False
    then show ?thesis using IH(2-4) by simp
  next
    case par: True
    let ?s1 = "upd_proc i (\<lambda>p. p\<lparr>parent := initproc s\<rparr>) s"
    define s2 where "s2 = (if pstate (procs ?s1 ! i) = ZOMBIE
      then wakeup1 (case initproc ?s1 of Some k \<Rightarrow> ChProc k | None \<Rightarrow> NoChan) ?s1 else ?s1)"
    have run: "pass_children c (i # is) s = pass_children c is s2"
      using par by (simp add: s2_def Let_def)
    have q2: "q < length (procs s2)" using IH(3) by (simp add: s2_def)
    have "pstate (procs s2 ! q) = SLEEPING \<Longrightarrow> pstate (procs s ! q) = SLEEPING \<and> pchan (procs s2 ! q) = pchan (procs s ! q)"
      using IH(3) by (cases "q = i") (auto simp: s2_def wakeup1_nth split: if_splits)
    then show ?thesis using IH(1) [OF par refl s2_def q2] IH(4) unfolding run by auto
  qed
qed simp

lemma pass_children_parent:
  assumes "initproc s \<noteq> Some c" "distinct is" "set is \<subseteq> {..<length (procs s)}" "i < length (procs s)"
  shows "parent (procs (pass_children c is s) ! i) =
    (if i \<in> set is \<and> parent (procs s ! i) = Some c then initproc s else parent (procs s ! i))"
  using assms
proof (induction c "is" s rule: pass_children.induct)
  case IH: (2 c k "is" s)
  show ?case
  proof (cases "parent (procs s ! k) = Some c")
    case False
    then show ?thesis using IH(2-6) by auto
  next
    case par: True
    let ?s1 = "upd_proc k (\<lambda>p. p\<lparr>parent := initproc s\<rparr>) s"
    define s2 where "s2 = (if pstate (procs ?s1 ! k) = ZOMBIE
      then wakeup1 (case initproc ?s1 of Some k \<Rightarrow> ChProc k | None \<Rightarrow> NoChan) ?s1 else ?s1)"
    have run: "pass_children c (k # is) s = pass_children c is s2"
      using par by (simp add: s2_def Let_def)
    have k: "k < length (procs s)" using IH(5) by simp
    have len: "length (procs s2) = length (procs s)" "initproc s2 = initproc s" by (simp_all add: s2_def)
    have par2: "parent (procs s2 ! i) = (if i = k then initproc s else parent (procs s ! i))"
      using IH(6) k by (auto simp: s2_def wakeup1_nth nth_list_update)
    have "parent (procs (pass_children c is s2) ! i) =
        (if i \<in> set is \<and> parent (procs s2 ! i) = Some c then initproc s2 else parent (procs s2 ! i))"
      using IH(3-6) len by (intro IH(1) [OF par refl s2_def]) simp_all
    then show ?thesis unfolding run using par2 par IH(3,4) len by auto
  qed
qed simp

text \<open>The table just before \<open>exit\<close> gives up the processor.\<close>

lemma exit_table_cases:
  assumes "exit_table s = Ret s'" "cpu_proc s (this s) = Some c" "running_ok s"
  obtains s1 where "s1 = pass_children c [0..<length (procs s)]
      (wakeup1 (case parent (procs s ! c) of Some k \<Rightarrow> ChProc k | None \<Rightarrow> NoChan) s)"
    "procs s' = (procs s1)[c := (procs s1 ! c)\<lparr>pstate := ZOMBIE\<rparr>]"
    "cpu_proc s' = (cpu_proc s)(this s := None)" "nextpid s' = nextpid s" "length (procs s1) = length (procs s)"
    "sched (upd_proc c (\<lambda>p. p\<lparr>pstate := ZOMBIE\<rparr>) s1) = Ret s'" "cpu_proc s1 = cpu_proc s" "this s1 = this s"
    "nextpid s1 = nextpid s" "calm (procs s) (procs s1)"
proof -
  let ?w = "wakeup1 (case parent (procs s ! c) of Some k \<Rightarrow> ChProc k | None \<Rightarrow> NoChan) s"
  let ?s1 = "pass_children c [0..<length (procs s)] ?w"
  note P = calm_pass_children [of ?w c "[0..<length (procs s)]"]
  have r: "sched (upd_proc c (\<lambda>p. p\<lparr>pstate := ZOMBIE\<rparr>) ?s1) = Ret s'"
    using assms(1,2) by (simp add: exit_table_def curproc_def Let_def)
  have c1: "cpu_proc ?s1 (this ?s1) = Some c" using P assms(2) by simp
  have calm: "calm (procs s) (procs ?s1)" using P calm_trans [OF calm_wakeup1] by blast
  show thesis
    by (rule that [OF refl]) (use sched_upd [OF r c1] P r calm in \<open>auto simp: calm_def\<close>)
qed

lemma wait_ok_exit:
  assumes r: "exit_table s = Ret s'" and cur: "cpu_proc s (this s) = Some c" and run: "running_ok s"
    and w: "wait_ok (procs s)" and self: "parent (procs s ! c) \<noteq> Some c" and ini: "initproc s \<noteq> Some c"
  shows "wait_ok (procs s')"
proof -
  have c: "c < length (procs s)" "pstate (procs s ! c) = RUNNING" using run_okD(1,2) [OF run cur] .
  let ?w = "wakeup1 (case parent (procs s ! c) of Some k \<Rightarrow> ChProc k | None \<Rightarrow> NoChan) s"
  from exit_table_cases [OF r cur run] obtain s1 where
    s1: "s1 = pass_children c [0..<length (procs s)] ?w"
    and p: "procs s' = (procs s1)[c := (procs s1 ! c)\<lparr>pstate := ZOMBIE\<rparr>]" "length (procs s1) = length (procs s)"
    by metis
  have w1: "wait_ok (procs s1)" unfolding s1 by (rule pass_children_wait_ok [OF wait_ok_mild [OF w mild_wakeup1]])
  have parc: "parent (procs s1 ! c) = parent (procs s ! c)"
    unfolding s1 using pass_children_parent [of ?w c "[0..<length (procs s)]" c] c self ini
    by (auto simp: wakeup1_nth atLeast0LessThan)
  have notq: "\<not> (pstate (procs s1 ! q) = SLEEPING \<and> pchan (procs s1 ! q) = ChProc q)"
    if q: "q < length (procs s)" "parent (procs s ! c) = Some q" for q
  proof -
    have "\<not> (pstate (procs ?w ! q) = SLEEPING \<and> pchan (procs ?w ! q) = ChProc q)"
      using q by (auto simp: wakeup1_nth)
    then show ?thesis using pass_children_asleep [of q ?w c "[0..<length (procs s)]"] q(1) s1 by auto
  qed
  show ?thesis
    unfolding wait_ok_def
  proof (intro allI impI notI)
    fix q i assume q: "q < length (procs s')" "pstate (procs s' ! q) = SLEEPING" "pchan (procs s' ! q) = ChProc q"
      and i: "i < length (procs s')" "parent (procs s' ! i) = Some q" "pstate (procs s' ! i) = ZOMBIE"
    have l: "q < length (procs s)" "i < length (procs s)" using q(1) i(1) p by simp_all
    have "q \<noteq> c" using q(2) p c(1) by auto
    then have q1: "pstate (procs s1 ! q) = SLEEPING" "pchan (procs s1 ! q) = ChProc q" using q p by auto
    show False
    proof (cases "i = c")
      case True
      then have "parent (procs s ! c) = Some q" using i(2) p parc c(1) by simp
      with notq [OF l(1)] q1 show False by simp
    next
      case False
      then have "parent (procs s1 ! i) = Some q" "pstate (procs s1 ! i) = ZOMBIE" using i(2,3) p(1) by simp_all
      then show False using w1 q1 l p(2) unfolding wait_ok_def by auto
    qed
  qed
qed

definition family_ok :: "'a ptable_state_scheme \<Rightarrow> bool" where
  "family_ok s \<longleftrightarrow> wait_ok (procs s) \<and>
     (\<forall>i < length (procs s). parent (procs s ! i) \<noteq> Some i) \<and>
     (\<forall>k < length (procs s). initproc s = Some k \<longrightarrow> parent (procs s ! k) = None)"

lemma family_okI:
  assumes "family_ok s" "wait_ok (procs s')" "length (procs s') = length (procs s)" "initproc s' = initproc s"
    "\<And>i. i < length (procs s) \<Longrightarrow> parent (procs s' ! i) = parent (procs s ! i) \<or> parent (procs s' ! i) = None"
  shows "family_ok s'"
  unfolding family_ok_def
proof (intro conjI allI impI)
  fix i assume "i < length (procs s')"
  then show "parent (procs s' ! i) \<noteq> Some i" "initproc s' = Some i \<Longrightarrow> parent (procs s' ! i) = None"
    using assms(1,3,4) assms(5) [of i] unfolding family_ok_def by auto
qed (rule assms(2))

lemma family_ok_mild:
  assumes "family_ok s" "mild (procs s) (procs s')" "initproc s' = initproc s"
    "\<And>i. i < length (procs s) \<Longrightarrow> parent (procs s' ! i) = parent (procs s ! i) \<or> parent (procs s' ! i) = None"
  shows "family_ok s'"
  using assms(1) by (rule family_okI) (use assms wait_ok_mild in \<open>auto simp: mild_def family_ok_def\<close>)

lemma nth_upd_cases: "xs[i := y] ! j = (if i < length xs \<and> i = j then y else xs ! j)"
  by (cases "i < length xs") (simp_all add: list_update_beyond)

lemma family_ok_upd:
  assumes "family_ok s" "procs s' = (procs s)[i := q]" "initproc s' = initproc s" "parent q = parent (procs s ! i)"
    "pstate q = SLEEPING \<longrightarrow> (i < length (procs s) \<longrightarrow> pstate (procs s ! i) = SLEEPING \<and> pchan q = pchan (procs s ! i))"
    "pstate q = ZOMBIE \<longrightarrow> (i < length (procs s) \<longrightarrow> pstate (procs s ! i) = ZOMBIE)"
  shows "family_ok s'"
  using assms(1) by (rule family_ok_mild) (use assms in \<open>auto simp: nth_upd_cases intro!: mild_update\<close>)

lemma wait_ok_sleep:
  assumes "wait_ok ps" "q < length ps" "pstate p = SLEEPING" "parent p = parent (ps ! q)"
    "pchan p = ChProc q \<Longrightarrow> (\<forall>i < length ps. parent (ps ! i) = Some q \<longrightarrow> pstate (ps ! i) \<noteq> ZOMBIE)"
  shows "wait_ok (ps[q := p])"
  unfolding wait_ok_def
proof (intro allI impI)
  fix r i assume r: "r < length (ps[q := p])" "pstate (ps[q := p] ! r) = SLEEPING" "pchan (ps[q := p] ! r) = ChProc r"
    and i: "i < length (ps[q := p])" "parent (ps[q := p] ! i) = Some r"
  show "pstate (ps[q := p] ! i) \<noteq> ZOMBIE"
  proof (cases "i = q")
    case True
    then show ?thesis using assms(2,3) by simp
  next
    case False
    then have i': "i < length ps" "parent (ps ! i) = Some r" using i by simp_all
    show ?thesis
    proof (cases "r = q")
      case True
      then show ?thesis using assms(2,5) r i' False by simp
    next
      case r': False
      then show ?thesis using assms(1) r i' False unfolding wait_ok_def by simp
    qed
  qed
qed

lemma sched_initproc: "sched s = Ret s' \<Longrightarrow> initproc s' = initproc s"
  by (auto simp: sched_def Let_def split: option.splits if_splits)

lemma sleep_cases:
  assumes "sleep ch s = Ret s'" "running_ok s"
  obtains p where "cpu_proc s (this s) = Some p" "p < length (procs s)" "pstate (procs s ! p) = RUNNING"
    "sched (upd_proc p (\<lambda>q. q\<lparr>pchan := ch, pstate := SLEEPING\<rparr>) s) = Ret s'"
    "procs s' = (procs s)[p := (procs s ! p)\<lparr>pchan := ch, pstate := SLEEPING\<rparr>]" "initproc s' = initproc s"
proof -
  obtain p where p: "cpu_proc s (this s) = Some p" "sched (upd_proc p (\<lambda>q. q\<lparr>pchan := ch, pstate := SLEEPING\<rparr>) s) = Ret s'"
    using assms(1) by (auto simp: sleep_def curproc_def split: option.splits)
  show thesis
    using that [OF p(1) run_okD(1,2) [OF assms(2) p(1)] p(2) sched_upd(1) [OF p(2,1)]] sched_initproc [OF p(2)] by simp
qed

lemma wait_cases:
  assumes "wait s = Ret (r, s')"
  obtains (reaped) c i where "cpu_proc s (this s) = Some c" "i < length (procs s)" "parent (procs s ! i) = Some c"
      "pstate (procs s ! i) = ZOMBIE" "reap i s = Ret s'" "r = Done (sint (pid (procs s ! i)))"
  | (none) c where "cpu_proc s (this s) = Some c" "r = Done (-1)" "s' = s"
      "(\<forall>p \<in> set (procs s). parent p \<noteq> Some c) \<or> killed (procs s ! c)"
  | (asleep) c where "cpu_proc s (this s) = Some c" "r = Sleep" "sleep (ChProc c) s = Ret s'"
      "\<And>i. i < length (procs s) \<Longrightarrow> parent (procs s ! i) = Some c \<Longrightarrow> pstate (procs s ! i) \<noteq> ZOMBIE"
proof -
  obtain c where c: "cpu_proc s (this s) = Some c"
    using assms by (auto simp: wait_def curproc_def split: option.splits)
  show thesis
  proof (cases "scan (\<lambda>p. parent p = Some c \<and> pstate p = ZOMBIE) (procs s)")
    case (Some i)
    then show thesis using scan_SomeD [OF Some] assms c
      by (intro reaped [OF c]) (auto simp: wait_def curproc_def obind_eq_Ret Let_def)
  next
    case None
    then have z: "\<And>i. i < length (procs s) \<Longrightarrow> parent (procs s ! i) = Some c \<Longrightarrow> pstate (procs s ! i) \<noteq> ZOMBIE"
      using nth_mem by fastforce
    have "(if (\<forall>p \<in> set (procs s). parent p \<noteq> Some c) \<or> killed (procs s ! c) then Ret (Done (-1), s)
      else obind (sleep (ChProc c) s) (\<lambda>s. Ret (Sleep, s))) = Ret (r, s')"
      using assms unfolding wait_def curproc_def c option.case None .
    then show thesis using none [OF c] asleep [OF c _ _ z] by (auto simp: obind_eq_Ret split: if_split_asm)
  qed
qed

lemma pt_inv_step:
  assumes "pt_step s s'" "pt_inv s"
  shows "pt_inv s'"
  using assms
proof (induction rule: pt_step.induct)
  case (turn s c s')
  then show ?case using pt_inv_scheduler [of "s\<lparr>this := c\<rparr>"] by simp
next
  case (interrupt s c)
  then show ?case by (simp add: pt_inv_def interrupted_def)
next
  case (yield c s s')
  then obtain p where p: "cpu_proc s c = Some p" "sched (upd_proc p (\<lambda>q. q\<lparr>pstate := RUNNABLE\<rparr>) (s\<lparr>this := c\<rparr>)) = Ret s'"
    by (auto simp: yield_def curproc_def split: option.splits)
  show ?case by (rule pt_inv_sched_at [OF p(2) yield(2) p(1)]) simp
next
  case (sleep ch c s s')
  from sleep_cases [OF sleep(2)] sleep(3) obtain p where p: "cpu_proc s c = Some p"
    "sched (upd_proc p (\<lambda>q. q\<lparr>pchan := ch, pstate := SLEEPING\<rparr>) (s\<lparr>this := c\<rparr>)) = Ret s'"
    by (auto simp: pt_inv_def)
  show ?case by (rule pt_inv_sched_at [OF p(2) sleep(3) p(1)]) simp
next
  case (resume s c)
  show ?case
    by (rule pt_inv_calm [OF resume]) (auto simp: sleep_resume_def split: option.splits intro!: calm_update)
next
  case (wakeup s ch)
  show ?case by (rule pt_inv_calm [OF wakeup]) (auto simp: wakeup_def calm_wakeup1)
next
  case (kill s n)
  show ?case by (rule pt_inv_calm [OF kill]) (auto simp: calm_kill, auto simp: kill_def split: option.splits)
next
  case (alloc s)
  then show ?case by (intro pt_inv_alloc)
next
  case (adopt s i c)
  show ?case by (rule pt_inv_calm [OF adopt(3)]) (auto intro!: calm_update)
next
  case (ready i s)
  show ?case by (rule pt_inv_calm [OF ready(3)]) (use ready in \<open>auto simp: set_runnable_def intro!: calm_update\<close>)
next
  case (abort i s s')
  then obtain s1 where k: "kfree (kstack (procs s ! i)) s = Ret s1"
    and s': "s' = upd_proc i (\<lambda>p. p\<lparr>kstack := 0, pstate := UNUSED\<rparr>) s1"
    by (auto simp: unalloc_def obind_eq_Ret)
  note F = procs_mem_only [OF mem_only_kfree [OF k]]
  show ?case by (rule pt_inv_calm [OF abort(4)]) (use F abort(2) in \<open>auto simp: s' intro!: calm_update\<close>)
next
  case (wait c s r s')
  from wait(1) show ?case
  proof (cases rule: wait_cases)
    case (reaped d i)
    from calm_reap [OF reaped(5)] reaped(4) show ?thesis using pt_inv_calm [of "s\<lparr>this := c\<rparr>" s'] wait(2) by simp
  next
    case (none d)
    then show ?thesis using wait(2) by simp
  next
    case (asleep d)
    from sleep_cases [OF asleep(3)] wait(2) obtain p where p: "cpu_proc s c = Some p"
      "sched (upd_proc p (\<lambda>q. q\<lparr>pchan := ChProc d, pstate := SLEEPING\<rparr>) (s\<lparr>this := c\<rparr>)) = Ret s'"
      by (auto simp: pt_inv_def)
    show ?thesis by (rule pt_inv_sched_at [OF p(2) wait(2) p(1)]) simp
  qed
next
  case (exit s c s')
  let ?s = "s\<lparr>this := c\<rparr>"
  have run: "running_ok ?s" using exit(3) by (simp add: pt_inv_def)
  obtain d where d: "cpu_proc ?s (this ?s) = Some d" using exit(2) by (auto simp: exit_table_def curproc_def split: option.splits)
  from exit_table_cases [OF exit(2) d run] obtain s1 where
    s1: "sched (upd_proc d (\<lambda>p. p\<lparr>pstate := ZOMBIE\<rparr>) s1) = Ret s'" "cpu_proc s1 = cpu_proc ?s" "this s1 = this ?s"
      "nextpid s1 = nextpid ?s" "calm (procs ?s) (procs s1)" by metis
  have "pt_inv s1" using pt_inv_calm [of ?s s1] exit(3) s1 by simp
  moreover have "cpu_proc s1 (this s1) = Some d" using s1(2,3) d by simp
  ultimately show ?case by (rule pt_inv_sched [OF _ s1(1)]) simp
next
  case (grow n c s r s')
  then show ?case using pt_inv_growproc by (metis pt_inv_this)
next
  case (memory s s')
  from procs_mem_only [OF memory(1)] show ?case by (intro pt_inv_calm [OF memory(2)]) auto
next
  case (fields s i q)
  show ?case
    by (rule pt_inv_calm [OF fields(2)]) (use fields(1) in \<open>auto simp: same_sched_def intro!: calm_update\<close>)
qed

lemma family_ok_this [simp]: "family_ok (s\<lparr>this := c\<rparr>) = family_ok s"
  by (simp add: family_ok_def)

lemma family_ok_sched_fields [simp]:
  "family_ok (s\<lparr>sched_pos := f\<rparr>) = family_ok s" "family_ok (s\<lparr>sched_pos := f, sched_idle := g, halted := h\<rparr>) = family_ok s"
  by (simp_all add: family_ok_def)

lemma family_ok_sleep:
  assumes "sleep ch s = Ret s'" "running_ok s" "family_ok s"
    "\<And>c i. ch = ChProc c \<Longrightarrow> cpu_proc s (this s) = Some c \<Longrightarrow> i < length (procs s) \<Longrightarrow>
       parent (procs s ! i) = Some c \<Longrightarrow> pstate (procs s ! i) \<noteq> ZOMBIE"
  shows "family_ok s'"
proof -
  from sleep_cases [OF assms(1,2)] obtain p where p: "cpu_proc s (this s) = Some p" "p < length (procs s)"
    "procs s' = (procs s)[p := (procs s ! p)\<lparr>pchan := ch, pstate := SLEEPING\<rparr>]" "initproc s' = initproc s" by metis
  have "wait_ok (procs s')"
    unfolding p(3) using assms(3,4) p(1,2) by (intro wait_ok_sleep) (auto simp: family_ok_def)
  then show ?thesis
    using assms(3) p by (intro family_okI [of s s']) (auto simp: nth_upd_cases)
qed

lemma family_ok_exit:
  assumes r: "exit_table s = Ret s'" and run: "running_ok s" and fam: "family_ok s"
    and ini: "cpu_proc s (this s) \<noteq> initproc s"
  shows "family_ok s'"
proof -
  obtain c where cur: "cpu_proc s (this s) = Some c"
    using r by (auto simp: exit_table_def curproc_def split: option.splits)
  have c: "c < length (procs s)" using run_okD(1) [OF run cur] .
  have self: "parent (procs s ! c) \<noteq> Some c" and ini': "initproc s \<noteq> Some c"
    using fam c ini cur by (auto simp: family_ok_def)
  let ?w = "wakeup1 (case parent (procs s ! c) of Some k \<Rightarrow> ChProc k | None \<Rightarrow> NoChan) s"
  from exit_table_cases [OF r cur run] obtain s1 where s1: "s1 = pass_children c [0..<length (procs s)] ?w"
    "procs s' = (procs s1)[c := (procs s1 ! c)\<lparr>pstate := ZOMBIE\<rparr>]" "length (procs s1) = length (procs s)"
    "sched (upd_proc c (\<lambda>p. p\<lparr>pstate := ZOMBIE\<rparr>) s1) = Ret s'" by metis
  have i1: "initproc s' = initproc s"
    using sched_initproc [OF s1(4)] calm_pass_children [of ?w c "[0..<length (procs s)]"] s1(1) by simp
  have par: "parent (procs s' ! i) = (if parent (procs s ! i) = Some c then initproc s else parent (procs s ! i))"
    if "i < length (procs s)" for i
    using that pass_children_parent [of ?w c "[0..<length (procs s)]" i] ini' s1
    by (auto simp: wakeup1_nth atLeast0LessThan nth_upd_cases)
  have "wait_ok (procs s')" using wait_ok_exit [OF r cur run _ self ini'] fam by (simp add: family_ok_def)
  moreover have "parent (procs s' ! i) \<noteq> Some i" "initproc s' = Some i \<longrightarrow> parent (procs s' ! i) = None"
    if "i < length (procs s)" for i
    using par [OF that] fam that ini' i1 by (auto simp: family_ok_def)
  ultimately show ?thesis using s1(2,3) by (simp add: family_ok_def)
qed

lemma family_ok_reap:
  assumes "reap i s = Ret s'" "family_ok s"
  shows "family_ok s'"
proof -
  obtain s1 s2 where k: "kfree (kstack (procs s ! i)) s = Ret s1"
    and f: "freevm (pgdir (procs (upd_proc i (\<lambda>p. p\<lparr>kstack := 0\<rparr>) s1) ! i)) (upd_proc i (\<lambda>p. p\<lparr>kstack := 0\<rparr>) s1) = Ret s2"
    and s': "s' = upd_proc i (\<lambda>p. p\<lparr>pid := 0, parent := None, pname := [], killed := False, pstate := UNUSED\<rparr>) s2"
    using assms(1) unfolding reap_def Let_def by (auto simp: obind_eq_Ret)
  note 1 = procs_mem_only [OF mem_only_kfree [OF k]] and 2 = procs_mem_only [OF mem_only_freevm [OF f]]
  have p: "procs s' = (procs s)[i := (procs s2 ! i)\<lparr>pid := 0, parent := None, pname := [], killed := False, pstate := UNUSED\<rparr>]"
    "initproc s' = initproc s" using 1 2 by (simp_all add: s')
  then show ?thesis
    by (intro family_ok_mild [OF assms(2) mild_reap [OF assms(1)]]) (auto simp: nth_upd_cases)
qed

lemma family_ok_switch:
  assumes "switchuvm c s = Ret s'" "family_ok s"
  shows "family_ok s'"
  using switchuvm_frame [OF assms(1)] assms(2) by (simp add: family_ok_def)

lemma family_ok_grow:
  assumes "growproc n s = Ret (r, s')" "family_ok s"
  shows "family_ok s'"
proof -
  obtain c where c: "curproc s = Some c" using assms(1) by (cases "curproc s") (auto simp: growproc_def)
  have fin: "family_ok s'" if "mem_only s s1" "(if z = 0 then Ret (-1, s1)
      else obind (switchuvm c (upd_proc c (\<lambda>p. p\<lparr>sz := z\<rparr>) s1)) (\<lambda>s. Ret (0, s))) = Ret (r, s')" for z s1
  proof -
    note F = procs_mem_only [OF that(1)]
    have "family_ok s1" "family_ok (upd_proc c (\<lambda>p. p\<lparr>sz := z\<rparr>) s1)"
      using F by (auto intro: family_okI [OF assms(2)] family_ok_upd [OF assms(2)] simp: assms(2) [unfolded family_ok_def])
    then show ?thesis using that(2) by (auto simp: obind_eq_Ret split: if_split_asm dest: family_ok_switch)
  qed
  let ?p = "procs s ! c"
  consider z s1 where "allocuvm (pgdir ?p) (sz ?p) (sz ?p + n) s = Ret (z, s1)"
      "(if z = 0 then Ret (-1, s1) else obind (switchuvm c (upd_proc c (\<lambda>p. p\<lparr>sz := z\<rparr>) s1)) (\<lambda>s. Ret (0, s))) = Ret (r, s')"
    | z s1 where "deallocuvm (pgdir ?p) (sz ?p) (sz ?p + n) s = Ret (z, s1)"
      "(if z = 0 then Ret (-1, s1) else obind (switchuvm c (upd_proc c (\<lambda>p. p\<lparr>sz := z\<rparr>) s1)) (\<lambda>s. Ret (0, s))) = Ret (r, s')"
    | s1 where "switchuvm c s = Ret s1" "s' = s1"
    using assms(1) unfolding growproc_def Let_def c option.case
    by (auto simp: obind_eq_Ret split: if_split_asm)
  then show ?thesis
  proof cases
    case 1
    then show ?thesis using fin [OF mem_only_allocuvm] by blast
  next
    case 2
    then show ?thesis using fin [OF mem_only_deallocuvm] by blast
  next
    case 3
    then show ?thesis using family_ok_switch assms(2) by simp
  qed
qed

lemma family_ok_step:
  assumes "pt_step s s'" "pt_inv s" "family_ok s"
  shows "family_ok s'"
  using assms
proof (induction rule: pt_step.induct)
  case (turn s c s')
  then show ?case
    using turn.prems(2) unfolding scheduler_def Let_def
    by (auto simp: obind_eq_Ret split: if_splits dest!: switchuvm_frame
        intro: family_okI [of s] family_ok_upd [of s])
next
  case (interrupt s c)
  then show ?case by (simp add: family_ok_def interrupted_def)
next
  case (yield c s s')
  then obtain p where p: "cpu_proc s c = Some p" "sched (upd_proc p (\<lambda>q. q\<lparr>pstate := RUNNABLE\<rparr>) (s\<lparr>this := c\<rparr>)) = Ret s'"
    by (auto simp: yield_def curproc_def split: option.splits)
  show ?case
    by (rule family_ok_upd [OF yield.prems(2), of _ p "(procs s ! p)\<lparr>pstate := RUNNABLE\<rparr>"])
      (use sched_upd(1) [OF p(2)] p(1) sched_initproc [OF p(2)] in auto)
next
  case (sleep ch c s s')
  show ?case by (rule family_ok_sleep [OF sleep(2)]) (use sleep in \<open>auto simp: pt_inv_def\<close>)
next
  case (resume s c)
  show ?case
  proof (cases "cpu_proc s c")
    case None
    then show ?thesis using resume.prems(2) by (simp add: sleep_resume_def curproc_def)
  next
    case (Some p)
    then have "pstate (procs s ! p) = RUNNING" using resume.prems(1) run_okD(2) by (auto simp: pt_inv_def)
    then show ?thesis using Some
      by (intro family_ok_upd [OF resume.prems(2), of _ p "(procs s ! p)\<lparr>pchan := NoChan\<rparr>"])
        (auto simp: sleep_resume_def curproc_def)
  qed
next
  case (wakeup s ch)
  show ?case by (rule family_ok_mild [OF wakeup.prems(2)]) (auto simp: wakeup_def mild_wakeup1 wakeup1_nth)
next
  case (kill s n)
  show ?case
    by (rule family_ok_mild [OF kill.prems(2) mild_kill])
      (auto simp: kill_def nth_upd_cases split: option.splits)
next
  case (alloc s)
  have "initproc (snd (allocproc s)) = initproc s \<and>
      (\<forall>i < length (procs s). parent (procs (snd (allocproc s)) ! i) = parent (procs s ! i))"
    by (cases rule: allocproc_cases [of s]) (simp_all add: nth_upd_cases)
  then show ?case by (intro family_ok_mild [OF alloc.prems(2) mild_allocproc]) simp_all
next
  case (adopt s i c)
  have ne: "cpu_proc s c \<noteq> Some i" using adopt(1) adopt.prems(1) run_okD(2) by (fastforce simp: pt_inv_def)
  have w: "wait_ok ((procs s)[i := (procs s ! i)\<lparr>parent := cpu_proc s c\<rparr>])"
    using adopt.prems(2) adopt(1) unfolding family_ok_def wait_ok_def by (simp add: nth_upd_cases)
  show ?case
    using w ne adopt.prems(2) adopt(2) unfolding family_ok_def by (simp add: nth_upd_cases)
next
  case (ready i s)
  show ?case by (rule family_ok_upd [OF ready.prems(2), of _ i "(procs s ! i)\<lparr>pstate := RUNNABLE\<rparr>"])
    (use ready in \<open>auto simp: set_runnable_def\<close>)
next
  case (abort i s s')
  then obtain s1 where k: "kfree (kstack (procs s ! i)) s = Ret s1"
    and s': "s' = upd_proc i (\<lambda>p. p\<lparr>kstack := 0, pstate := UNUSED\<rparr>) s1"
    by (auto simp: unalloc_def obind_eq_Ret)
  note F = procs_mem_only [OF mem_only_kfree [OF k]]
  show ?case by (rule family_ok_upd [OF abort.prems(2), of _ i "(procs s ! i)\<lparr>kstack := 0, pstate := UNUSED\<rparr>"])
    (use F in \<open>auto simp: s'\<close>)
next
  case (wait c s r s')
  have run: "running_ok (s\<lparr>this := c\<rparr>)" and fam: "family_ok (s\<lparr>this := c\<rparr>)" using wait.prems by (simp_all add: pt_inv_def)
  from wait(1) show ?case
  proof (cases rule: wait_cases)
    case (reaped d i)
    show ?thesis using family_ok_reap [OF reaped(5) fam] .
  next
    case (none d)
    then show ?thesis using fam by simp
  next
    case (asleep d)
    show ?thesis by (rule family_ok_sleep [OF asleep(3) run fam]) (use asleep(1,4) in auto)
  qed
next
  case (exit s c s')
  show ?case by (rule family_ok_exit [OF exit(2)]) (use exit in \<open>auto simp: pt_inv_def\<close>)
next
  case (grow n c s r s')
  show ?case using family_ok_grow [OF grow(1)] grow.prems(2) by simp
next
  case (memory s s')
  from procs_mem_only [OF memory(1)] show ?case by (intro family_okI [OF memory.prems(2)]) (use memory.prems(2) in \<open>auto simp: family_ok_def\<close>)
next
  case (fields s i q)
  show ?case
    by (rule family_ok_upd [OF fields.prems(2), of _ i q]) (use fields(1) in \<open>auto simp: same_sched_def\<close>)
qed

lemma pid_okD:
  assumes "pid_ok n ps" "i < length ps" "pstate (ps ! i) \<noteq> UNUSED"
  shows "0 < pid (ps ! i)" "j < length ps \<Longrightarrow> pstate (ps ! j) \<noteq> UNUSED \<Longrightarrow> pid (ps ! i) = pid (ps ! j) \<Longrightarrow> i = j"
  using assms unfolding pid_ok_def by simp_all

section \<open>From the first process on\<close>

text \<open>The table when \<open>userinit\<close> has run: one process, in slot 0, and no processor in the scheduler yet.\<close>

definition pt_start :: "'a ptable_state_scheme \<Rightarrow> bool" where
  "pt_start s \<longleftrightarrow> length (procs s) = NPROC \<and> initproc s = Some 0 \<and> nextpid s = 2 \<and>
     (\<forall>c. cpu_proc s c = None) \<and>
     pstate (procs s ! 0) = RUNNABLE \<and> pid (procs s ! 0) = 1 \<and> parent (procs s ! 0) = None \<and>
     (\<forall>i \<in> {1..<NPROC}. pstate (procs s ! i) = UNUSED \<and> parent (procs s ! i) = None)"

lemma pt_start_slot: "pt_start s \<Longrightarrow> i < length (procs s) \<Longrightarrow> i = 0 \<or> pstate (procs s ! i) = UNUSED \<and> parent (procs s ! i) = None"
  by (cases i) (auto simp: pt_start_def)

lemma pt_start_inv:
  assumes "pt_start s"
  shows "pt_inv s \<and> family_ok s"
proof -
  note sl = pt_start_slot [OF assms] and d = assms [unfolded pt_start_def]
  have "running_ok s" unfolding run_ok_def using d sl by fastforce
  moreover have "pid_ok (nextpid s) (procs s)" unfolding pid_ok_def
  proof (intro conjI allI impI)
    fix i assume "i < length (procs s)" "pstate (procs s ! i) \<noteq> UNUSED"
    then have "i = 0" using sl by blast
    then show "0 < pid (procs s ! i)" "pid (procs s ! i) < nextpid s" using d by simp_all
  next
    fix i j assume "i < length (procs s)" "j < length (procs s)" "pstate (procs s ! i) \<noteq> UNUSED" "pstate (procs s ! j) \<noteq> UNUSED"
    then show "i = j" using sl by blast
  qed
  moreover have "family_ok s" unfolding family_ok_def wait_ok_def using d sl by fastforce
  ultimately show ?thesis using d by (simp add: pt_inv_def)
qed

interpretation table: invariant_system pt_start pt_step "\<lambda>s. pt_inv s \<and> family_ok s"
  by unfold_locales (use pt_start_inv pt_inv_step family_ok_step in blast)+

text \<open>
  C12: whatever the processors do, in any order, a process that is RUNNING runs on exactly
  one processor and a processor runs at most a RUNNING process: no two processors ever
  run on the same kernel stack.
\<close>

theorem one_processor_per_process:
  assumes "reachable pt_start pt_step s"
  shows "(\<forall>i < length (procs s). pstate (procs s ! i) = RUNNING \<longrightarrow> (\<exists>!c. cpu_proc s c = Some i)) \<and>
     (\<forall>c i. cpu_proc s c = Some i \<longrightarrow> i < length (procs s) \<and> pstate (procs s ! i) = RUNNING)"
proof -
  have run: "running_ok s" using table.reachable_inv [OF assms] by (simp add: pt_inv_def)
  show ?thesis
  proof (intro conjI allI impI)
    fix i assume i: "i < length (procs s)" "pstate (procs s ! i) = RUNNING"
    from i run obtain c where "cpu_proc s c = Some i" unfolding run_ok_def by blast
    then show "\<exists>!c. cpu_proc s c = Some i" using run_okD(4) [OF run] by (intro ex1I [of _ c])
  next
    fix c i assume "cpu_proc s c = Some i"
    then show "i < length (procs s)" "pstate (procs s ! i) = RUNNING" by (rule run_okD [OF run])+
  qed
qed

text \<open>
  C27: as long as the counter of process identifiers has not wrapped (the steps allocate
  only before that), live processes have distinct, non-zero identifiers.
\<close>

theorem live_pids_distinct:
  assumes "reachable pt_start pt_step s" "i < length (procs s)" "j < length (procs s)"
    "pstate (procs s ! i) \<noteq> UNUSED" "pstate (procs s ! j) \<noteq> UNUSED"
  shows "pid (procs s ! i) \<noteq> 0 \<and> (pid (procs s ! i) = pid (procs s ! j) \<longrightarrow> i = j)"
proof -
  have "pid_ok (nextpid s) (procs s)" using table.reachable_inv [OF assms(1)] by (simp add: pt_inv_def)
  from pid_okD [OF this assms(2,4)] assms(3,5) show ?thesis by auto
qed

text \<open>
  C15: no wakeup of \<open>wait\<close> is lost. A process that sleeps in \<open>wait\<close> (asleep on its own
  slot) has no zombie child it could collect: whichever way \<open>wait\<close>, \<open>exit\<close>, \<open>kill\<close>
  and the reparenting to the first process interleave, \<open>exit\<close> wakes the right parent.
\<close>

theorem wait_no_lost_wakeup:
  assumes "reachable pt_start pt_step s" "q < length (procs s)"
    "pstate (procs s ! q) = SLEEPING" "pchan (procs s ! q) = ChProc q"
  shows "\<forall>i < length (procs s). parent (procs s ! i) = Some q \<longrightarrow> pstate (procs s ! i) \<noteq> ZOMBIE"
  using table.reachable_inv [OF assms(1)] assms(2-) unfolding family_ok_def wait_ok_def by blast

text \<open>
  C20: \<open>exit\<close> of the process in slot \<open>c\<close> leaves it a zombie that no processor runs,
  passes every child of it to the first process, leaves all other parents alone, and
  leaves neither its parent nor, if it had zombie children, the first process asleep in \<open>wait\<close>.
\<close>

theorem exit_reparents:
  assumes "reachable pt_start pt_step s" "cpu_proc s (this s) = Some c" "initproc s = Some k" "k \<noteq> c"
    "exit_table s = Ret s'"
  shows "pstate (procs s' ! c) = ZOMBIE \<and> (\<forall>d. cpu_proc s' d \<noteq> Some c) \<and>
    (\<forall>i < length (procs s). parent (procs s' ! i) =
       (if parent (procs s ! i) = Some c then Some k else parent (procs s ! i))) \<and>
    (\<forall>i < length (procs s'). \<forall>q < length (procs s'). pstate (procs s' ! i) = ZOMBIE \<longrightarrow> parent (procs s' ! i) = Some q \<longrightarrow>
       \<not> (pstate (procs s' ! q) = SLEEPING \<and> pchan (procs s' ! q) = ChProc q))"
proof -
  have run: "running_ok s" and fam: "family_ok s" using table.reachable_inv [OF assms(1)] by (simp_all add: pt_inv_def)
  let ?w = "wakeup1 (case parent (procs s ! c) of Some k \<Rightarrow> ChProc k | None \<Rightarrow> NoChan) s"
  from exit_table_cases [OF assms(5,2) run] obtain s1 where s1: "s1 = pass_children c [0..<length (procs s)] ?w"
    "procs s' = (procs s1)[c := (procs s1 ! c)\<lparr>pstate := ZOMBIE\<rparr>]" "length (procs s1) = length (procs s)"
    "cpu_proc s' = (cpu_proc s)(this s := None)" by metis
  note c = run_okD(1) [OF run assms(2)]
  have 1: "pstate (procs s' ! c) = ZOMBIE" using s1(2,3) c by simp
  have 2: "\<forall>d. cpu_proc s' d \<noteq> Some c" using run assms(2) unfolding s1(4) run_ok_def by auto
  have 3: "\<forall>i < length (procs s). parent (procs s' ! i) =
       (if parent (procs s ! i) = Some c then Some k else parent (procs s ! i))"
    using pass_children_parent [of ?w c "[0..<length (procs s)]"] assms(3,4) s1(1-3)
    by (auto simp: wakeup1_nth atLeast0LessThan nth_upd_cases)
  have "family_ok s'" by (rule family_ok_exit [OF assms(5) run fam]) (use assms in simp)
  then have 4: "\<forall>i < length (procs s'). \<forall>q < length (procs s'). pstate (procs s' ! i) = ZOMBIE \<longrightarrow> parent (procs s' ! i) = Some q \<longrightarrow>
       \<not> (pstate (procs s' ! q) = SLEEPING \<and> pchan (procs s' ! q) = ChProc q)"
    unfolding family_ok_def wait_ok_def by blast
  from 1 2 3 4 show ?thesis by (intro conjI)
qed

section \<open>How long a runnable process waits\<close>

lemma pass_children_pos [simp]: "sched_pos (pass_children c is s) = sched_pos s"
  by (induction c "is" s rule: pass_children.induct) (simp_all add: Let_def)

lemma allocproc_pos: "sched_pos (snd (allocproc s)) = sched_pos s"
  by (auto simp: allocproc_def Let_def kalloc_def upd_proc_def split: option.splits prod.splits if_splits)

text \<open>The four kinds of steps, by what they do to processors and to runnable processes.\<close>

lemma pt_step_kinds:
  assumes "pt_step s t" "pt_inv s"
  obtains (quiet) "calm (procs s) (procs t)" "cpu_proc t = cpu_proc s" "sched_pos t = sched_pos s"
  | (fresh) i q where "pstate (procs s ! i) = UNUSED" "procs t = (procs s)[i := q]" "cpu_proc t = cpu_proc s" "sched_pos t = sched_pos s"
  | (start) c where "cpu_proc s c = None" "scheduler (s\<lparr>this := c\<rparr>) = Ret t"
  | (leave) c p ps q where "cpu_proc s c = Some p" "calm (procs s) ps" "procs t = ps[p := q]"
      "cpu_proc t = (cpu_proc s)(c := None)" "sched_pos t = (sched_pos s)(c := sched_pos s c + 1)"
  using assms
proof (induction rule: pt_step.induct)
  case (turn s c s')
  then show ?case by blast
next
  case (interrupt s c)
  then show ?case by (simp add: interrupted_def)
next
  case (yield c s s')
  then obtain p where p: "cpu_proc s c = Some p" "sched (upd_proc p (\<lambda>q. q\<lparr>pstate := RUNNABLE\<rparr>) (s\<lparr>this := c\<rparr>)) = Ret s'"
    by (auto simp: yield_def curproc_def split: option.splits)
  show ?case by (rule yield.prems(4) [OF p(1) calm_refl]) (use sched_upd [OF p(2)] p(1) in auto)
next
  case (sleep ch c s s')
  then obtain p where p: "cpu_proc s c = Some p" "sched (upd_proc p (\<lambda>q. q\<lparr>pchan := ch, pstate := SLEEPING\<rparr>) (s\<lparr>this := c\<rparr>)) = Ret s'"
    by (auto simp: sleep_def curproc_def split: option.splits)
  show ?case by (rule sleep.prems(4) [OF p(1) calm_refl]) (use sched_upd [OF p(2)] p(1) in auto)
next
  case (resume s c)
  show ?case by (rule resume.prems(1)) (auto simp: sleep_resume_def split: option.splits intro!: calm_update)
next
  case (wakeup s ch)
  show ?case by (rule wakeup.prems(1)) (auto simp: wakeup_def calm_wakeup1)
next
  case (kill s n)
  show ?case by (rule kill.prems(1)) (auto simp: calm_kill, auto simp: kill_def split: option.splits)
next
  case (alloc s)
  show ?case
    by (cases rule: allocproc_cases [of s]) (use alloc.prems(1,2) allocproc_pos [of s] in auto)
next
  case (adopt s i c)
  show ?case by (rule adopt.prems(1)) (auto intro!: calm_update)
next
  case (ready i s)
  show ?case by (rule ready.prems(1)) (use ready(2) in \<open>auto simp: set_runnable_def intro!: calm_update\<close>)
next
  case (abort i s s')
  then obtain s1 where k: "kfree (kstack (procs s ! i)) s = Ret s1"
    and s': "s' = upd_proc i (\<lambda>p. p\<lparr>kstack := 0, pstate := UNUSED\<rparr>) s1"
    by (auto simp: unalloc_def obind_eq_Ret)
  note F = procs_mem_only [OF mem_only_kfree [OF k]]
  show ?case by (rule abort.prems(1)) (use F abort(2) in \<open>auto simp: s' intro!: calm_update\<close>)
next
  case (wait c s r s')
  from wait(1) show ?case
  proof (cases rule: wait_cases)
    case (reaped d i)
    from calm_reap [OF reaped(5)] reaped(4) show ?thesis by (intro wait.prems(1)) simp_all
  next
    case (none d)
    then show ?thesis by (intro wait.prems(1)) simp_all
  next
    case (asleep d)
    then have p: "cpu_proc s c = Some d" "sched (upd_proc d (\<lambda>q. q\<lparr>pchan := ChProc d, pstate := SLEEPING\<rparr>) (s\<lparr>this := c\<rparr>)) = Ret s'"
      by (auto simp: sleep_def curproc_def split: option.splits)
    show ?thesis by (rule wait.prems(4) [OF p(1) calm_refl]) (use sched_upd [OF p(2)] p(1) in auto)
  qed
next
  case (exit s c s')
  let ?s = "s\<lparr>this := c\<rparr>"
  have run: "running_ok ?s" using exit.prems(5) by (simp add: pt_inv_def)
  obtain d where d: "cpu_proc ?s (this ?s) = Some d" using exit(2) by (auto simp: exit_table_def curproc_def split: option.splits)
  from exit_table_cases [OF exit(2) d run] obtain s1 where s1: "s1 = pass_children d [0..<length (procs ?s)]
      (wakeup1 (case parent (procs ?s ! d) of Some k \<Rightarrow> ChProc k | None \<Rightarrow> NoChan) ?s)"
    "sched (upd_proc d (\<lambda>p. p\<lparr>pstate := ZOMBIE\<rparr>) s1) = Ret s'" "cpu_proc s1 = cpu_proc ?s" "this s1 = this ?s"
    "calm (procs ?s) (procs s1)" by metis
  have "sched_pos s1 = sched_pos s" by (simp add: s1(1))
  moreover have "cpu_proc s1 (this s1) = Some d" using s1(3,4) d by simp
  ultimately show ?case using exit.prems(4) [of c d "procs s1"] sched_upd [OF s1(2)] s1(3-5) d by simp
next
  case (grow n c s r s')
  from calm_growproc [OF grow(1)] show ?case by (intro grow.prems(1)) simp_all
next
  case (memory s s')
  from procs_mem_only [OF memory(1)] show ?case by (intro memory.prems(1)) simp_all
next
  case (fields s i q)
  show ?case by (rule fields.prems(1)) (use fields(1) in \<open>auto simp: same_sched_def intro!: calm_update\<close>)
qed

lemma scheduler_cases:
  assumes "scheduler (s\<lparr>this := d\<rparr>) = Ret t"
  obtains (pass) "procs t = procs s" "cpu_proc t = cpu_proc s"
      "sched_pos t = (sched_pos s)(d := if sched_pos s d < length (procs s) then sched_pos s d + 1 else 0)"
      "sched_pos s d < length (procs s) \<Longrightarrow> pstate (procs s ! sched_pos s d) \<noteq> RUNNABLE"
  | (chosen) "sched_pos s d < length (procs s)" "cpu_proc t = (cpu_proc s)(d := Some (sched_pos s d))" "sched_pos t = sched_pos s"
      "procs t = (procs s)[sched_pos s d := (procs s ! sched_pos s d)\<lparr>pstate := RUNNING\<rparr>]"
proof (cases "sched_pos s d < length (procs s) \<and> pstate (procs s ! sched_pos s d) = RUNNABLE")
  case True
  then show ?thesis using assms by (intro chosen) (auto simp: scheduler_def Let_def obind_eq_Ret dest!: switchuvm_frame)
next
  case False
  then show ?thesis using assms by (intro pass) (auto simp: scheduler_def Let_def split: if_splits)
qed

text \<open>
  The turns of processor \<open>c\<close> before it comes to slot \<open>j\<close>, when it is at slot \<open>i\<close> of \<open>n\<close>: one
  for each slot on the way and one for the end of a pass. While it runs the process it has
  chosen, the turn for the slot of that process has been taken.
\<close>

definition ahead :: "nat \<Rightarrow> nat \<Rightarrow> nat \<Rightarrow> nat" where
  "ahead n j i = (if i \<le> j then j - i else n + 1 - i + j)"

definition turns_left :: "nat \<Rightarrow> nat \<Rightarrow> 'a ptable_state_scheme \<Rightarrow> nat" where
  "turns_left c j s = ahead (length (procs s)) j (sched_pos s c) - (if cpu_proc s c = None then 0 else 1)"

definition in_loop :: "nat \<Rightarrow> 'a ptable_state_scheme \<Rightarrow> bool" where
  "in_loop c s \<longleftrightarrow> sched_pos s c \<le> length (procs s) \<and> (\<forall>i. cpu_proc s c = Some i \<longrightarrow> sched_pos s c = i)"

lemma ahead_next: "j < n \<Longrightarrow> i \<noteq> j \<Longrightarrow> i \<le> n \<Longrightarrow> ahead n j i = Suc (ahead n j (if i < n then i + 1 else 0))"
  by (auto simp: ahead_def)

lemma ahead_le: "j < n \<Longrightarrow> i \<le> n \<Longrightarrow> ahead n j i \<le> n"
  by (auto simp: ahead_def)

lemma turn_counts:
  assumes "scheduler (s\<lparr>this := c\<rparr>) = Ret t" "in_loop c s" "cpu_proc s c = None" "j < length (procs s)" "pstate (procs s ! j) = RUNNABLE"
  shows "in_loop c t \<and> (pstate (procs t ! j) = RUNNABLE \<longrightarrow> turns_left c j s = Suc (turns_left c j t))"
  using assms(1)
proof (cases rule: scheduler_cases)
  case pass
  have "sched_pos s c \<noteq> j" using pass(4) assms(4,5) by auto
  then show ?thesis using pass(1-3) assms(2-4) ahead_next [of j "length (procs s)" "sched_pos s c"] by (simp add: in_loop_def turns_left_def)
next
  case chosen
  then show ?thesis using assms(2-4) ahead_next [of j "length (procs s)" "sched_pos s c"]
    by (auto simp: in_loop_def turns_left_def nth_list_update)
qed

lemma step_counts:
  assumes "pt_step s t" "pt_inv s" "in_loop c s" "j < length (procs s)" "pstate (procs s ! j) = RUNNABLE"
  shows "length (procs t) = length (procs s) \<and> pstate (procs t ! j) \<in> {RUNNABLE, RUNNING} \<and> in_loop c t \<and>
    (pstate (procs t ! j) = RUNNABLE \<longrightarrow> turns_left c j t \<le> turns_left c j s)"
  using assms(1,2)
proof (cases rule: pt_step_kinds)
  case quiet
  then show ?thesis using assms(3-5) by (auto simp: calm_def in_loop_def turns_left_def)
next
  case (fresh i q)
  then have "i \<noteq> j" using assms(5) by auto
  then show ?thesis using fresh(2-4) assms(3-5) by (simp add: in_loop_def turns_left_def)
next
  case (start d)
  have l: "length (procs t) = length (procs s) \<and> pstate (procs t ! j) \<in> {RUNNABLE, RUNNING}"
    using start(2) by (cases rule: scheduler_cases) (use assms(4,5) in \<open>auto simp: nth_list_update\<close>)
  show ?thesis
  proof (cases "d = c")
    case True
    then show ?thesis using l turn_counts [of c s t j] start assms(3-5) by auto
  next
    case False
    have "cpu_proc t c = cpu_proc s c \<and> sched_pos t c = sched_pos s c" using start(2) by (cases rule: scheduler_cases) (use False in auto)
    then show ?thesis using l assms(3) by (simp add: in_loop_def turns_left_def)
  qed
next
  case (leave d p ps q)
  have p: "p < length (procs s)" "pstate (procs s ! p) = RUNNING" using assms(2) leave(1) run_okD(1,2) by (auto simp: pt_inv_def)
  then have "j \<noteq> p" using assms(5) by auto
  then have l: "length (procs t) = length (procs s) \<and> pstate (procs t ! j) = RUNNABLE" using leave(2,3) assms(4,5) by (auto simp: calm_def)
  show ?thesis
  proof (cases "d = c")
    case True
    then have "sched_pos s c = p" "p \<noteq> j" using assms(3) leave(1) \<open>j \<noteq> p\<close> by (auto simp: in_loop_def)
    then show ?thesis using True l leave(1,4,5) p(1) ahead_next [of j "length (procs s)" p] assms(4) by (simp add: in_loop_def turns_left_def)
  next
    case False
    then show ?thesis using l leave(4,5) assms(3) by (simp add: in_loop_def turns_left_def)
  qed
qed

text \<open>
  A run of the whole system, any steps of any processors and processes in any order, in which
  slot \<open>j\<close> is runnable before every step; \<open>k\<close> counts turns of processor \<open>c\<close>.
\<close>

inductive sched_run :: "nat \<Rightarrow> nat \<Rightarrow> nat \<Rightarrow> 'a ptable_state_scheme \<Rightarrow> 'a ptable_state_scheme \<Rightarrow> bool" for c j where
  idle: "sched_run c j 0 s s"
| other: "sched_run c j k s t \<Longrightarrow> pstate (procs t ! j) = RUNNABLE \<Longrightarrow> pt_step t u \<Longrightarrow> sched_run c j k s u"
| counted: "sched_run c j k s t \<Longrightarrow> pstate (procs t ! j) = RUNNABLE \<Longrightarrow> cpu_proc t c = None \<Longrightarrow> \<not> halted t c \<Longrightarrow>
    scheduler (t\<lparr>this := c\<rparr>) = Ret u \<Longrightarrow> sched_run c j (Suc k) s u"

lemma sched_run_counts:
  assumes "sched_run c j k s t" "pt_inv s" "in_loop c s" "j < length (procs s)" "pstate (procs s ! j) = RUNNABLE"
  shows "pt_inv t \<and> in_loop c t \<and> length (procs t) = length (procs s) \<and>
    (pstate (procs t ! j) = RUNNABLE \<and> k + turns_left c j t \<le> turns_left c j s \<or>
     pstate (procs t ! j) = RUNNING \<and> k \<le> Suc (turns_left c j s))"
  using assms
proof (induction rule: sched_run.induct)
  case (idle s)
  then show ?case by simp
next
  case (other k s t u)
  then have IH: "pt_inv t" "in_loop c t" "length (procs t) = length (procs s)" "k + turns_left c j t \<le> turns_left c j s" by auto
  have j: "j < length (procs t)" using IH(3) other.prems(3) by simp
  show ?case using step_counts [OF other(3) IH(1,2) j other(2)] pt_inv_step [OF other(3) IH(1)] IH(3,4) by auto
next
  case (counted k s t u)
  then have IH: "pt_inv t" "in_loop c t" "length (procs t) = length (procs s)" "k + turns_left c j t \<le> turns_left c j s" by auto
  have j: "j < length (procs t)" using IH(3) counted.prems(3) by simp
  have st: "pt_step t u" using pt_step.turn counted(3-5) by blast
  show ?case using step_counts [OF st IH(1,2) j counted(2)] turn_counts [OF counted(5) IH(2) counted(3) j counted(2)]
      pt_inv_step [OF st IH(1)] IH(3,4) by auto
qed

text \<open>
  C18: A runnable process is not passed over. From any reachable state in which processor
  \<open>c\<close> is in its scheduler loop, let the whole system run, every processor, process and
  interrupt taking steps in any order. As long as the process in slot \<open>j\<close> is runnable,
  processor \<open>c\<close> has completed at most \<open>NPROC\<close> turns of the loop, and the step that ends the
  wait, at the latest one more turn of \<open>c\<close>, leaves it RUNNING on some processor. The
  processes chosen in between may run for any time. A processor in \<open>hlt\<close> takes no turns
  until an interrupt; the bound counts turns, not time.
\<close>

theorem scheduler_bypass_bound:
  assumes "reachable pt_start pt_step s" "cpu_proc s c = None" "sched_pos s c \<le> length (procs s)"
    "j < length (procs s)" "pstate (procs s ! j) = RUNNABLE" "sched_run c j k s t"
  shows "pstate (procs t ! j) = RUNNABLE \<and> k \<le> length (procs s) \<or>
    pstate (procs t ! j) = RUNNING \<and> (\<exists>d. cpu_proc t d = Some j) \<and> k \<le> Suc (length (procs s))"
proof -
  have "pt_inv s" "in_loop c s" using table.reachable_inv [OF assms(1)] assms(2,3) by (simp_all add: in_loop_def)
  note R = sched_run_counts [OF assms(6) this assms(4,5)]
  have "turns_left c j s \<le> length (procs s)" using ahead_le [OF assms(4,3)] by (simp add: turns_left_def)
  moreover have "\<exists>d. cpu_proc t d = Some j" if "pstate (procs t ! j) = RUNNING"
    using that R assms(4) run_okD(3) [of "cpu_proc t" "procs t" j] by (auto simp: pt_inv_def)
  ultimately show ?thesis using R by auto
qed

lemma allocproc_slot: "allocproc s = (Some k, s') \<Longrightarrow> scan (\<lambda>p. pstate p = UNUSED) (procs s) = Some k"
  by (cases "scan (\<lambda>p. pstate p = UNUSED) (procs s)")
    (auto simp: allocproc_def Let_def split: prod.splits if_splits)

lemma allocproc_first:
  assumes "scan (\<lambda>p. pstate p = UNUSED) (procs s) = Some i" "freelist s \<noteq> 0"
  obtains k s' where "allocproc s = (Some i, s')" "k \<noteq> 0"
    "procs s' = (procs s)[i := (procs s ! i)\<lparr>pstate := EMBRYO, pid := nextpid s, kstack := k,
         tf := k + 4096 - 76, pcontext := k + 4096 - 76 - 4 - 20\<rparr>]"
    "cpu_proc s' = cpu_proc s" "initproc s' = initproc s" "sched_pos s' = sched_pos s" "halted s' = halted s"
proof (cases rule: allocproc_cases [of s])
  case none
  then show ?thesis using assms(1) scan_SomeD by fastforce
next
  case (ok j k s')
  have "j = i" using allocproc_slot [OF ok(3)] assms(1) by simp
  moreover have "sched_pos s' = sched_pos s" "halted s' = halted s"
    using ok(3) assms(1) by (auto simp: allocproc_def Let_def kalloc_def upd_proc_def split: prod.splits if_splits)
  ultimately show ?thesis using ok by (intro that [of s' k]) simp_all
qed (use assms(2) in simp)

section \<open>Killing a free slot\<close>

text \<open>
  C29: \<open>kill\<close> compares identifiers without looking at the state of the slot, so it also
  finds free slots, whose identifier is 0: with the first such slot being the first free
  one it reports success, and the next process created there is born killed, although it
  was given a new identifier.
\<close>

theorem kill_marks_unused:
  assumes "scan (\<lambda>p. pid p = n) (procs s) = Some i" "scan (\<lambda>p. pstate p = UNUSED) (procs s) = Some i"
    "kill n s = (r, s1)" "allocproc s1 = (Some k, s2)"
  shows "r = 0 \<and> k = i \<and> killed (procs s2 ! k) \<and> pid (procs s2 ! k) = nextpid s"
proof -
  have i: "i < length (procs s)" "pstate (procs s ! i) = UNUSED" "\<forall>j<i. pstate (procs s ! j) \<noteq> UNUSED"
    using assms(2) by (auto simp: scan_Some_iff)
  have r: "r = 0" and s1: "s1 = upd_proc i (\<lambda>p. p\<lparr>killed := True, pstate := UNUSED\<rparr>) s"
    using assms(1,3) i by (auto simp: kill_def upd_proc_def)
  have u: "scan (\<lambda>p. pstate p = UNUSED) (procs s1) = Some i"
    using i by (auto simp: s1 scan_Some_iff nth_list_update)
  have k: "k = i" using allocproc_slot [OF assms(4)] u by simp
  show ?thesis
  proof (cases rule: allocproc_cases [of s1])
    case (ok j w t)
    with assms(4) k i r show ?thesis by (simp add: s1)
  qed (use assms(4) in simp_all)
qed


section \<open>The claims at work\<close>

definition blank_proc :: proc where
  "blank_proc = \<lparr>sz = 0, pgdir = 0, kstack = 0, pstate = UNUSED, pid = 0, parent = None, tf = 0, pcontext = 0,
     pchan = NoChan, killed = False, ofile = replicate NOFILE None, cwd = None, pname = []\<rparr>"

definition first_proc :: proc where
  "first_proc = blank_proc\<lparr>sz := 4096, pgdir := 0x80400000, kstack := 0x80401000, pstate := RUNNABLE, pid := 1\<rparr>"

text \<open>The table after \<open>userinit\<close>, with one page left in the allocator.\<close>

definition booted :: ptable_state where
  "booted = \<lparr>mem = (\<lambda>_. 0), freelist = 0x80403000, use_lock = True, kend = 0x80115000, kpgdir = 0x803ff000, kdata = 0x80109000,
     procs = first_proc # replicate 63 blank_proc, initproc = Some 0, nextpid = 2, this = 0, cpu_proc = (\<lambda>_. None),
     sched_pos = (\<lambda>_. 0), sched_idle = (\<lambda>_. True), halted = (\<lambda>_. False), cr3 = (\<lambda>_. 0), esp0 = (\<lambda>_. 0), trapret = 0x80105000, forkret = 0x80103000\<rparr>"

lemma booted_start: "pt_start booted"
  by (auto simp: pt_start_def booted_def first_proc_def blank_proc_def nth_Cons' less_Suc_eq_le)

lemma booted_reach: "reachable pt_start pt_step booted"
  by (rule reachable.start) (rule booted_start)

lemma pt_reach_step: "reachable pt_start pt_step s \<Longrightarrow> pt_step s s' \<Longrightarrow> reachable pt_start pt_step s'"
  by (erule reachable.step)

lemma reach_turn:
  "reachable pt_start pt_step s \<Longrightarrow> cpu_proc s (this s) = None \<Longrightarrow> \<not> halted s (this s) \<Longrightarrow> scheduler s = Ret s' \<Longrightarrow> reachable pt_start pt_step s'"
  by (rule pt_reach_step [OF _ pt_step.turn [of s "this s"]]) simp_all

lemma booted_runs:
  "scheduler booted = Ret (upd_proc 0 (\<lambda>p. p\<lparr>pstate := RUNNING\<rparr>) (booted\<lparr>sched_idle := (sched_idle booted)(0 := False), cpu_proc := (cpu_proc booted)(0 := Some 0),
     esp0 := (esp0 booted)(0 := 0x80402000), cr3 := (cr3 booted)(0 := V2P 0x80400000)\<rparr>))"
  by (simp add: scheduler_def booted_def first_proc_def switchuvm_def upd_proc_def)

theorem one_processor_per_process_witness:
  "\<exists>s. reachable pt_start pt_step (s :: ptable_state) \<and> pstate (procs s ! 0) = RUNNING \<and> (\<exists>!c. cpu_proc s c = Some 0)"
proof -
  let ?s = "upd_proc 0 (\<lambda>p. p\<lparr>pstate := RUNNING\<rparr>) (booted\<lparr>sched_idle := (sched_idle booted)(0 := False), cpu_proc := (cpu_proc booted)(0 := Some 0),
     esp0 := (esp0 booted)(0 := 0x80402000), cr3 := (cr3 booted)(0 := V2P 0x80400000)\<rparr>)"
  have r: "reachable pt_start pt_step ?s"
    by (rule reach_turn [OF booted_reach _ _ booted_runs]) (simp_all add: booted_def)
  have p: "0 < length (procs ?s)" "pstate (procs ?s ! 0) = RUNNING" by (simp_all add: booted_def)
  show ?thesis
    using r p one_processor_per_process [OF r, THEN conjunct1, rule_format, OF p] by blast
qed

theorem live_pids_distinct_witness: "pid (procs booted ! 0) \<noteq> 0"
  using live_pids_distinct [OF booted_reach, of 0 0] by (simp add: booted_def first_proc_def)

theorem kill_marks_unused_witness:
  "\<exists>s1 s2. kill 0 booted = (0, s1) \<and> allocproc s1 = (Some 1, s2) \<and> killed (procs s2 ! 1) \<and> pid (procs s2 ! 1) = 2"
proof -
  have a: "scan (\<lambda>p. pid p = 0) (procs booted) = Some 1" "scan (\<lambda>p. pstate p = UNUSED) (procs booted) = Some 1"
    by (auto simp: scan_Some_iff booted_def first_proc_def blank_proc_def)
  obtain r s1 where k: "kill 0 booted = (r, s1)" by fastforce
  have s1: "s1 = upd_proc 1 (\<lambda>p. p\<lparr>killed := True, pstate := UNUSED\<rparr>) booted"
    using k a by (auto simp: kill_def upd_proc_def booted_def blank_proc_def)
  have u: "scan (\<lambda>p. pstate p = UNUSED) (procs s1) = Some 1"
    by (auto simp: s1 scan_Some_iff booted_def first_proc_def blank_proc_def nth_list_update)
  have "freelist s1 \<noteq> 0" by (simp add: s1 booted_def upd_proc_def)
  then obtain s2 where l: "allocproc s1 = (Some 1, s2)" by (rule allocproc_first [OF u])
  from kill_marks_unused [OF a k l] k l show ?thesis by (auto simp: booted_def)
qed


text \<open>The first process runs on processor 0 and has forked a child into slot 1.\<close>

lemma forked_reach:
  obtains s :: ptable_state where "reachable pt_start pt_step s" "cpu_proc s = (\<lambda>_. None)(0 := Some 0)"
    "length (procs s) = 64" "initproc s = Some 0" "sched_pos s = (\<lambda>_. 0)" "halted s = (\<lambda>_. False)"
    "pstate (procs s ! 0) = RUNNING" "parent (procs s ! 0) = None" "\<not> killed (procs s ! 0)"
    "pstate (procs s ! 1) = RUNNABLE" "parent (procs s ! 1) = Some 0" "pgdir (procs s ! 1) \<noteq> 0" "kstack (procs s ! 1) \<noteq> 0"
    "\<forall>i \<in> {2..<64}. procs s ! i = blank_proc"
proof -
  let ?s1 = "upd_proc 0 (\<lambda>p. p\<lparr>pstate := RUNNING\<rparr>) (booted\<lparr>sched_idle := (sched_idle booted)(0 := False), cpu_proc := (cpu_proc booted)(0 := Some 0),
     esp0 := (esp0 booted)(0 := 0x80402000), cr3 := (cr3 booted)(0 := V2P 0x80400000)\<rparr>)"
  have p1: "procs ?s1 = first_proc\<lparr>pstate := RUNNING\<rparr> # replicate 63 blank_proc" by (simp add: booted_def)
  have r1: "reachable pt_start pt_step ?s1"
    by (rule reach_turn [OF booted_reach _ _ booted_runs]) (simp_all add: booted_def)
  have u: "scan (\<lambda>p. pstate p = UNUSED) (procs ?s1) = Some 1"
    unfolding p1 by (auto simp: scan_Some_iff blank_proc_def)
  let ?s2 = "snd (allocproc ?s1)"
  have r2: "reachable pt_start pt_step ?s2"
    by (rule pt_reach_step [OF r1 pt_step.alloc]) (simp add: booted_def)
  have fl: "freelist ?s1 \<noteq> 0" by (simp add: booted_def upd_proc_def)
  obtain k where k: "k \<noteq> 0" and p2: "procs ?s2 = first_proc\<lparr>pstate := RUNNING\<rparr> # blank_proc\<lparr>pstate := EMBRYO, pid := 2, kstack := k,
         tf := k + 4096 - 76, pcontext := k + 4096 - 76 - 4 - 20\<rparr> # replicate 62 blank_proc"
    and f2: "cpu_proc ?s2 = (\<lambda>_. None)(0 := Some 0)" "initproc ?s2 = Some 0" "sched_pos ?s2 = (\<lambda>_. 0)" "halted ?s2 = (\<lambda>_. False)"
    by (rule allocproc_first [OF u fl]) (simp add: p1, simp add: booted_def numeral_eq_Suc)
  let ?s3 = "upd_proc 1 (\<lambda>_. (procs ?s2 ! 1)\<lparr>pgdir := 0x80405000\<rparr>) ?s2"
  have r3: "reachable pt_start pt_step ?s3"
    by (rule pt_reach_step [OF r2 pt_step.fields]) (simp add: same_sched_def)
  let ?s4 = "upd_proc 1 (\<lambda>p. p\<lparr>parent := cpu_proc ?s3 0\<rparr>) ?s3"
  have r4: "reachable pt_start pt_step ?s4"
    by (rule pt_reach_step [OF r3 pt_step.adopt]) (simp_all add: p2 f2)
  let ?s5 = "set_runnable 1 ?s4"
  have r5: "reachable pt_start pt_step ?s5"
    by (rule pt_reach_step [OF r4 pt_step.ready]) (simp_all add: p2)
  show ?thesis
    by (rule that [OF r5])
      (auto simp: set_runnable_def p2 f2 k first_proc_def blank_proc_def nth_Cons')
qed

theorem wait_no_lost_wakeup_witness:
  "\<exists>s. reachable pt_start pt_step (s :: ptable_state) \<and> pstate (procs s ! 0) = SLEEPING \<and> pchan (procs s ! 0) = ChProc 0 \<and>
     parent (procs s ! 1) = Some 0 \<and> pstate (procs s ! 1) \<noteq> ZOMBIE"
proof -
  obtain s :: ptable_state where s: "reachable pt_start pt_step s" "cpu_proc s = (\<lambda>_. None)(0 := Some 0)"
    "length (procs s) = 64" "\<not> killed (procs s ! 0)" "pstate (procs s ! 0) = RUNNING" "parent (procs s ! 0) = None"
    "pstate (procs s ! 1) = RUNNABLE" "parent (procs s ! 1) = Some 0" "\<forall>i \<in> {2..<64}. procs s ! i = blank_proc"
    using forked_reach by metis
  let ?t = "s\<lparr>this := 0\<rparr>"
  have z: "parent (procs s ! i) = Some 0 \<Longrightarrow> i < 64 \<Longrightarrow> i = 1" for i
    using s(6,9) by (cases "i < 2") (auto simp: less_2_cases_iff blank_proc_def)
  have n: "scan (\<lambda>p. parent p = Some 0 \<and> pstate p = ZOMBIE) (procs s) = None"
    using z s(3,7) by (auto simp: in_set_conv_nth)
  have m: "\<not> (\<forall>p \<in> set (procs s). parent p \<noteq> Some 0)" using s(3,8) by (metis nth_mem one_less_numeral_iff semiring_norm(76))
  obtain t where t: "sleep (ChProc 0) ?t = Ret t" "procs t = (procs s)[0 := (procs s ! 0)\<lparr>pchan := ChProc 0, pstate := SLEEPING\<rparr>]"
    using s(2,3) by (simp add: sleep_def sched_def curproc_def switchkvm_def upd_proc_def)
  have w: "wait ?t = Ret (Sleep, t)"
  proof -
    have "curproc ?t = Some 0" "procs ?t = procs s" using s(2) by (simp_all add: curproc_def)
    then show ?thesis unfolding wait_def n using m s(4) t(1) by (simp add: n del: scan_None_iff)
  qed
  have r: "reachable pt_start pt_step t" by (rule pt_reach_step [OF s(1) pt_step.wait [OF w]])
  have f: "0 < length (procs t)" "pstate (procs t ! 0) = SLEEPING" "pchan (procs t ! 0) = ChProc 0" "parent (procs t ! 1) = Some 0" "1 < length (procs t)"
    using s(3,8) by (simp_all add: t(2))
  from wait_no_lost_wakeup [OF r f(1-3)] f r show ?thesis by blast
qed

text \<open>A second processor then passes slot 0 and chooses the new process.\<close>

lemma forked_turns:
  obtains s s1 s2 :: ptable_state where "reachable pt_start pt_step s" "cpu_proc s 1 = None" "length (procs s) = 64" "sched_pos s 1 = 0"
    "pstate (procs s ! 1) = RUNNABLE" "\<not> halted s 1" "scheduler (s\<lparr>this := 1\<rparr>) = Ret s1" "pstate (procs s1 ! 1) = RUNNABLE"
    "cpu_proc s1 1 = None" "\<not> halted s1 1" "scheduler (s1\<lparr>this := 1\<rparr>) = Ret s2" "reachable pt_start pt_step s2"
    "cpu_proc s2 1 = Some 1" "this s2 = 1" "initproc s2 = Some 0"
    "length (procs s2) = 64" "pstate (procs s2 ! 1) = RUNNING" "parent (procs s2 ! 1) = Some 0"
proof -
  obtain s :: ptable_state where s: "reachable pt_start pt_step s" "cpu_proc s = (\<lambda>_. None)(0 := Some 0)"
    "length (procs s) = 64" "initproc s = Some 0" "sched_pos s = (\<lambda>_. 0)" "pstate (procs s ! 0) = RUNNING" "halted s = (\<lambda>_. False)"
    "pstate (procs s ! 1) = RUNNABLE" "parent (procs s ! 1) = Some 0" "pgdir (procs s ! 1) \<noteq> 0" "kstack (procs s ! 1) \<noteq> 0"
    using forked_reach by metis
  let ?s1 = "s\<lparr>this := 1, sched_pos := (sched_pos s)(1 := 1)\<rparr>"
  have 1: "scheduler (s\<lparr>this := 1\<rparr>) = Ret ?s1" using s by (simp add: scheduler_def)
  have r1: "reachable pt_start pt_step ?s1" by (rule pt_reach_step [OF s(1) pt_step.turn [OF _ _ 1]]) (simp_all add: s(2,7))
  obtain s2 where 2: "scheduler (?s1\<lparr>this := 1\<rparr>) = Ret s2" "cpu_proc s2 1 = Some 1" "this s2 = 1" "initproc s2 = Some 0"
      "procs s2 = (procs s)[1 := (procs s ! 1)\<lparr>pstate := RUNNING\<rparr>]"
    using s by (simp add: scheduler_def switchuvm_def upd_proc_def)
  have r2: "reachable pt_start pt_step s2" by (rule pt_reach_step [OF r1 pt_step.turn [OF _ _ 2(1)]]) (simp_all add: s(2,7))
  show ?thesis by (rule that [OF s(1) _ s(3) _ s(8) _ 1 _ _ _ 2(1) r2 2(2-4)]) (use s 2(5) in simp_all)
qed

theorem scheduler_bypass_bound_witness:
  "\<exists>s t :: ptable_state. sched_run 1 1 2 s t \<and> pstate (procs t ! 1) = RUNNING \<and> (\<exists>d. cpu_proc t d = Some 1)"
proof -
  obtain s s1 s2 :: ptable_state where s: "reachable pt_start pt_step s" "cpu_proc s 1 = None" "length (procs s) = 64" "sched_pos s 1 = 0"
    "pstate (procs s ! 1) = RUNNABLE" "\<not> halted s 1" "scheduler (s\<lparr>this := 1\<rparr>) = Ret s1" "pstate (procs s1 ! 1) = RUNNABLE"
    "cpu_proc s1 1 = None" "\<not> halted s1 1" "scheduler (s1\<lparr>this := 1\<rparr>) = Ret s2" "pstate (procs s2 ! 1) = RUNNING"
    by (rule forked_turns)
  have "sched_run 1 1 (Suc (Suc 0)) s s2"
    by (rule sched_run.counted [OF sched_run.counted [OF sched_run.idle]]) (use s in auto)
  then have r: "sched_run 1 1 2 s s2" by (simp add: numeral_2_eq_2)
  with scheduler_bypass_bound [OF s(1,2) _ _ s(5) r] s(3,4,12) show ?thesis by auto
qed

theorem exit_reparents_witness:
  "\<exists>s s'. reachable pt_start pt_step (s :: ptable_state) \<and> exit_table s = Ret s' \<and> pstate (procs s' ! 1) = ZOMBIE"
proof -
  obtain s2 :: ptable_state where r2: "reachable pt_start pt_step s2" and 2: "cpu_proc s2 1 = Some 1" "this s2 = 1" "initproc s2 = Some 0"
    "length (procs s2) = 64" "parent (procs s2 ! 1) = Some 0"
    by (rule forked_turns)
  let ?w = "wakeup1 (ChProc 0) s2"
  have c: "curproc s2 = Some 1" using 2 by (simp add: curproc_def)
  note P = calm_pass_children [of ?w 1 "[0..<64]"]
  have l: "length (procs (pass_children 1 [0..<64] ?w)) = 64" using P 2(4) by (simp add: calm_def)
  have "\<exists>s3. exit_table s2 = Ret s3"
    unfolding exit_table_def c using 2 P l by (simp add: sched_def curproc_def Let_def)
  then obtain s3 where 3: "exit_table s2 = Ret s3" by blast
  have "cpu_proc s2 (this s2) = Some 1" using 2 by simp
  from exit_reparents [OF r2 this 2(3) _ 3] r2 3 show ?thesis by auto
qed

end
