(* ===== verification/Sleeplock.thy ===== *)
theory Sleeplock
  imports Psteps
begin

text \<open>
  Sleeping locks, \<^verbatim>\<open>sleeplock.c\<close>, and the processes that sleep on a channel. The locks
  are embedded in buffers and inodes; here they are named by what they protect. The
  spin lock inside a sleeping lock makes each routine one step.
\<close>

section \<open>Sleepers\<close>

definition sleepers :: "proc list \<Rightarrow> chan set" where
  "sleepers ps = {pchan p |p. p \<in> set ps \<and> pstate p = SLEEPING}"

lemma sleepers_nth: "ch \<in> sleepers ps \<longleftrightarrow> (\<exists>i < length ps. pstate (ps ! i) = SLEEPING \<and> pchan (ps ! i) = ch)"
  unfolding sleepers_def by (auto simp: in_set_conv_nth)

lemma sleepers_update: "sleepers (ps[i := q]) \<subseteq> sleepers ps \<union> (if pstate q = SLEEPING then {pchan q} else {})"
  using set_update_subset_insert [of ps i q] unfolding sleepers_def by (auto split: if_splits)

lemma sleepers_mild: "mild ps ps' \<Longrightarrow> sleepers ps' \<subseteq> sleepers ps"
  unfolding mild_def by (auto simp: sleepers_nth) metis

lemma sleepers_wakeup: "sleepers (procs (wakeup ch s)) = sleepers (procs s) - {ch}"
proof -
  have "(\<exists>i < length (procs s). pstate (procs (wakeup1 ch s) ! i) = SLEEPING \<and> pchan (procs (wakeup1 ch s) ! i) = x) \<longleftrightarrow>
      (\<exists>i < length (procs s). pstate (procs s ! i) = SLEEPING \<and> pchan (procs s ! i) = x \<and> x \<noteq> ch)" for x
    by (intro ex_cong1) (auto simp: wakeup1_nth split: if_split_asm)
  then show ?thesis by (auto simp: sleepers_nth wakeup_def)
qed

lemma sched_procs: "sched s = Ret s' \<Longrightarrow> procs s' = procs s"
  by (auto simp: sched_def switchkvm_def Let_def split: option.splits if_splits)

lemma sleepers_sleep:
  assumes "sleep ch s = Ret s'"
  shows "sleepers (procs s') \<subseteq> insert ch (sleepers (procs s))"
proof -
  obtain p where "curproc s = Some p" "procs s' = (procs s)[p := (procs s ! p)\<lparr>pchan := ch, pstate := SLEEPING\<rparr>]"
    using assms by (auto simp: sleep_def dest: sched_procs split: option.splits)
  then show ?thesis using sleepers_update [of "procs s" p "(procs s ! p)\<lparr>pchan := ch, pstate := SLEEPING\<rparr>"] by simp
qed

section \<open>Operations\<close>

record sleeplock =
  slocked :: u32
  slpid :: u32

record sleeplock_state = ptable_state +
  slocks :: "lockid \<Rightarrow> sleeplock"

definition upd_slock :: "lockid \<Rightarrow> (sleeplock \<Rightarrow> sleeplock) \<Rightarrow> 'a sleeplock_state_scheme \<Rightarrow> 'a sleeplock_state_scheme" where
  "upd_slock l f s = s\<lparr>slocks := (slocks s)(l := f (slocks s l))\<rparr>"

definition initsleeplock :: "lockid \<Rightarrow> 'a sleeplock_state_scheme \<Rightarrow> 'a sleeplock_state_scheme" where
  "initsleeplock l s = upd_slock l (\<lambda>_. \<lparr>slocked = 0, slpid = 0\<rparr>) s"

text \<open>One round of the loop of \<open>acquiresleep\<close>: it takes the lock or goes to sleep.\<close>

definition acquiresleep :: "lockid \<Rightarrow> 'a sleeplock_state_scheme \<Rightarrow> (unit progress \<times> 'a sleeplock_state_scheme) outcome" where
  "acquiresleep l s =
     (if slocked (slocks s l) \<noteq> 0 then obind (sleep (ChSleepLock l) s) (\<lambda>s. Ret (Sleep, s))
      else case curproc s of
          None \<Rightarrow> Panic ''null process''
        | Some c \<Rightarrow> Ret (Done (), upd_slock l (\<lambda>k. k\<lparr>slocked := 1, slpid := pid (procs s ! c)\<rparr>) s))"

definition releasesleep :: "lockid \<Rightarrow> 'a sleeplock_state_scheme \<Rightarrow> 'a sleeplock_state_scheme" where
  "releasesleep l s = wakeup (ChSleepLock l) (upd_slock l (\<lambda>k. k\<lparr>slocked := 0, slpid := 0\<rparr>) s)"

definition holdingsleep :: "lockid \<Rightarrow> 'a sleeplock_state_scheme \<Rightarrow> bool" where
  "holdingsleep l s \<longleftrightarrow> slocked (slocks s l) \<noteq> 0"

text \<open>
  Code that takes a lock in the middle of a longer operation: when the lock is held the
  operation stops there, asleep on the lock.
\<close>

definition acquiresleep_now :: "lockid \<Rightarrow> 'a sleeplock_state_scheme \<Rightarrow> 'a sleeplock_state_scheme outcome" where
  "acquiresleep_now l s = obind (acquiresleep l s) (\<lambda>(r, s). case r of Done _ \<Rightarrow> Ret s | Sleep \<Rightarrow> Blocked (ChSleepLock l))"

section \<open>Frames\<close>

lemma wakeup_frame [simp]:
  "cpu_proc (wakeup ch s) = cpu_proc s" "this (wakeup ch s) = this s" "curproc (wakeup ch s) = curproc s"
  "slocks (wakeup ch t) = slocks t" "length (procs (wakeup ch s)) = length (procs s)"
  by (simp_all add: wakeup_def wakeup1_def curproc_def)

lemma upd_slock_simps [simp]:
  "slocks (upd_slock l f s) = (slocks s)(l := f (slocks s l))" "procs (upd_slock l f s) = procs s"
  "cpu_proc (upd_slock l f s) = cpu_proc s" "this (upd_slock l f s) = this s" "curproc (upd_slock l f s) = curproc s"
  by (simp_all add: upd_slock_def curproc_def)

lemma sched_slocks: "sched s = Ret s' \<Longrightarrow> slocks s' = slocks s"
  by (auto simp: sched_def switchkvm_def Let_def split: option.splits if_splits)

lemma sleep_slocks: "sleep ch s = Ret s' \<Longrightarrow> slocks s' = slocks s"
  by (auto simp: sleep_def upd_proc_def dest!: sched_slocks split: option.splits)

lemma acquiresleep_now_eq:
  "slocked (slocks s l) = 0 \<Longrightarrow> curproc s = Some c \<Longrightarrow>
     acquiresleep_now l s = Ret (upd_slock l (\<lambda>k. k\<lparr>slocked := 1, slpid := pid (procs s ! c)\<rparr>) s)"
  by (simp add: acquiresleep_now_def acquiresleep_def)

section \<open>A sleeping lock loses no wakeup and has one owner\<close>

text \<open>
  Processes take and give back locks, and everything else happens to the process table as
  long as it does not put anyone to sleep on a lock. \<open>owner\<close> remembers who took a lock;
  only the owner gives it back.
\<close>

record lock_history = sleeplock_state +
  owner :: "lockid \<Rightarrow> nat option"

inductive slock_step :: "lock_history \<Rightarrow> lock_history \<Rightarrow> bool" where
  taken: "acquiresleep l (s\<lparr>this := c\<rparr>) = Ret (Done (), s') \<Longrightarrow> slock_step s (s'\<lparr>owner := (owner s)(l := cpu_proc s c)\<rparr>)"
| asleep: "acquiresleep l (s\<lparr>this := c\<rparr>) = Ret (Sleep, s') \<Longrightarrow> slock_step s s'"
| given: "cpu_proc s c = Some p \<Longrightarrow> owner s l = Some p \<Longrightarrow>
     slock_step s ((releasesleep l (s\<lparr>this := c\<rparr>))\<lparr>owner := (owner s)(l := None)\<rparr>)"
| other: "slocks s' = slocks s \<Longrightarrow> owner s' = owner s \<Longrightarrow>
     (\<And>l. ChSleepLock l \<in> sleepers (procs s') \<Longrightarrow> ChSleepLock l \<in> sleepers (procs s)) \<Longrightarrow> slock_step s s'"

definition slock_start :: "lock_history \<Rightarrow> bool" where
  "slock_start s \<longleftrightarrow> (\<forall>l. slocked (slocks s l) = 0 \<and> owner s l = None \<and> ChSleepLock l \<notin> sleepers (procs s))"

definition slock_inv :: "lock_history \<Rightarrow> bool" where
  "slock_inv s \<longleftrightarrow> (\<forall>l. (slocked (slocks s l) \<noteq> 0 \<longleftrightarrow> owner s l \<noteq> None) \<and>
     (ChSleepLock l \<in> sleepers (procs s) \<longrightarrow> slocked (slocks s l) \<noteq> 0))"

lemma owner_sleep: "sleep ch s = Ret s' \<Longrightarrow> owner s' = owner s"
  by (auto simp: sleep_def sched_def switchkvm_def upd_proc_def Let_def split: option.splits if_splits)

lemma slock_inv_step: "slock_step s s' \<Longrightarrow> slock_inv s \<Longrightarrow> slock_inv s'"
proof (induction rule: slock_step.induct)
  case (taken l c s s')
  then show ?case
    by (auto simp: acquiresleep_def slock_inv_def curproc_def obind_eq_Ret split: if_splits option.splits)
next
  case (asleep l c s s')
  then have r: "sleep (ChSleepLock l) (s\<lparr>this := c\<rparr>) = Ret s'" and "slocked (slocks s l) \<noteq> 0"
    by (auto simp: acquiresleep_def obind_eq_Ret split: if_splits option.splits)
  with asleep.prems sleepers_sleep [OF r] sleep_slocks [OF r] owner_sleep [OF r] show ?case
    by (auto simp: slock_inv_def)
next
  case (given s c p l)
  then show ?case by (simp add: slock_inv_def releasesleep_def sleepers_wakeup)
next
  case (other s' s)
  then show ?case by (simp add: slock_inv_def)
qed

interpretation slock: invariant_system slock_start slock_step slock_inv
  by unfold_locales (simp add: slock_start_def slock_inv_def, rule slock_inv_step)

text \<open>
  C26: a sleeping lock has one owner and loses no wakeup. However acquires and releases
  interleave with the rest of the kernel, a lock that someone owns can not be taken (the
  taker goes to sleep), and a process asleep on a lock sleeps only as long as the lock is held.
\<close>

theorem sleeplock_safe:
  assumes "reachable slock_start slock_step s"
  shows "(owner s l \<noteq> None \<longrightarrow> (\<forall>c s'. acquiresleep l (s\<lparr>this := c\<rparr>) \<noteq> Ret (Done (), s'))) \<and>
     (ChSleepLock l \<in> sleepers (procs s) \<longrightarrow> holdingsleep l s)"
  using slock.reachable_inv [OF assms]
  by (auto simp: slock_inv_def acquiresleep_def holdingsleep_def obind_eq_Ret split: if_splits option.splits)

text \<open>One process running on processor 0, and no lock taken.\<close>

definition free_locks :: lock_history where
  "free_locks = \<lparr>mem = (\<lambda>_. 0), freelist = 0, use_lock = True, kend = 0x80115000, kpgdir = 0x803ff000, kdata = 0x80109000,
     procs = [first_proc\<lparr>pstate := RUNNING\<rparr>], initproc = Some 0, nextpid = 2, this = 0, cpu_proc = (\<lambda>_. None)(0 := Some 0),
     sched_pos = (\<lambda>_. 0), sched_idle = (\<lambda>_. True), halted = (\<lambda>_. False), cr3 = (\<lambda>_. 0), esp0 = (\<lambda>_. 0), trapret = 0x80105000, forkret = 0x80103000,
     slocks = (\<lambda>_. \<lparr>slocked = 0, slpid = 0\<rparr>), owner = (\<lambda>_. None)\<rparr>"

theorem sleeplock_safe_witness:
  "\<exists>s. reachable slock_start slock_step s \<and> owner s (BufLock 3) = Some 0 \<and>
     (\<forall>c s'. acquiresleep (BufLock 3) (s\<lparr>this := c\<rparr>) \<noteq> Ret (Done (), s'))"
proof -
  let ?l = "BufLock 3"
  let ?s = "(upd_slock ?l (\<lambda>k. k\<lparr>slocked := 1, slpid := 1\<rparr>) free_locks)\<lparr>owner := (owner free_locks)(?l := cpu_proc free_locks 0)\<rparr>"
  have i: "slock_start free_locks" by (simp add: slock_start_def free_locks_def sleepers_def)
  have "acquiresleep ?l (free_locks\<lparr>this := 0\<rparr>) = Ret (Done (), upd_slock ?l (\<lambda>k. k\<lparr>slocked := 1, slpid := 1\<rparr>) free_locks)"
    by (simp add: acquiresleep_def free_locks_def curproc_def first_proc_def)
  then have "slock_step free_locks ?s" by (rule slock_step.taken)
  then have r: "reachable slock_start slock_step ?s" by (rule reachable.step [rotated]) (rule reachable.start, rule i)
  have o: "owner ?s ?l = Some 0" by (simp add: free_locks_def)
  from sleeplock_safe [OF r, of ?l, THEN conjunct1] o r show ?thesis by blast
qed

end
