(* ===== verification/Pipe.thy ===== *)
theory Pipe
  imports Sleeplock
begin

text \<open>
  Pipes, \<^verbatim>\<open>pipe.c\<close>. A pipe is a ring of 512 bytes with 32-bit counters of the bytes read
  and written, which are never reduced and wrap around. The pages that hold pipes are a map from addresses;
  use of a page that holds no pipe is a panic of the model. The bytes a process writes are
  given as a list and the bytes it reads are returned as one. A routine that sleeps is cut
  there and called again with the bytes it has not yet written.
\<close>

section \<open>Operations\<close>

abbreviation (input) PIPESIZE :: nat where "PIPESIZE \<equiv> 512"

record pipe =
  pdata :: "u8 list"
  nread :: u32
  nwrite :: u32
  readopen :: bool
  writeopen :: bool

record pipe_state = sleeplock_state +
  pipes :: "u32 \<rightharpoonup> pipe"

definition pipe_full :: "pipe \<Rightarrow> bool" where
  "pipe_full q \<longleftrightarrow> nwrite q = nread q + of_nat PIPESIZE"

definition pipe_empty :: "pipe \<Rightarrow> bool" where
  "pipe_empty q \<longleftrightarrow> nread q = nwrite q"

definition pipe_put :: "u8 \<Rightarrow> pipe \<Rightarrow> pipe" where
  "pipe_put b q = q\<lparr>pdata := (pdata q)[unat (nwrite q) mod PIPESIZE := b], nwrite := nwrite q + 1\<rparr>"

definition pipe_get :: "pipe \<Rightarrow> u8 \<times> pipe" where
  "pipe_get q = (pdata q ! (unat (nread q) mod PIPESIZE), q\<lparr>nread := nread q + 1\<rparr>)"

text \<open>The initialisation of the page in \<open>pipealloc\<close>; its data is whatever the page held.\<close>

definition new_pipe :: "u8 list \<Rightarrow> pipe" where
  "new_pipe junk = \<lparr>pdata = junk, nread = 0, nwrite = 0, readopen = True, writeopen = True\<rparr>"

definition pipeclose :: "u32 \<Rightarrow> bool \<Rightarrow> 'a pipe_state_scheme \<Rightarrow> 'a pipe_state_scheme outcome" where
  "pipeclose p writable s =
     (case pipes s p of
        None \<Rightarrow> Panic ''no pipe''
      | Some q \<Rightarrow>
          let (q, s) = (if writable then (q\<lparr>writeopen := False\<rparr>, wakeup (ChPipeRead p) s)
                        else (q\<lparr>readopen := False\<rparr>, wakeup (ChPipeWrite p) s))
          in if \<not> readopen q \<and> \<not> writeopen q then kfree p (s\<lparr>pipes := (pipes s)(p := None)\<rparr>)
             else Ret (s\<lparr>pipes := (pipes s)(p \<mapsto> q)\<rparr>))"

fun pipewrite :: "u32 \<Rightarrow> u8 list \<Rightarrow> int \<Rightarrow> 'a pipe_state_scheme \<Rightarrow> (int progress \<times> u8 list \<times> 'a pipe_state_scheme) outcome" where
  "pipewrite p [] n s = Ret (Done n, [], wakeup (ChPipeRead p) s)"
| "pipewrite p (b # bs) n s =
     (case pipes s p of
        None \<Rightarrow> Panic ''no pipe''
      | Some q \<Rightarrow>
          if pipe_full q then
            (case curproc s of
               None \<Rightarrow> Panic ''null process''
             | Some c \<Rightarrow>
                 if \<not> readopen q \<or> killed (procs s ! c) then Ret (Done (-1), b # bs, s)
                 else obind (sleep (ChPipeWrite p) (wakeup (ChPipeRead p) s)) (\<lambda>s. Ret (Sleep, b # bs, s)))
          else pipewrite p bs n (s\<lparr>pipes := (pipes s)(p \<mapsto> pipe_put b q)\<rparr>))"

fun piperead_copy :: "nat \<Rightarrow> pipe \<Rightarrow> u8 list \<times> pipe" where
  "piperead_copy 0 q = ([], q)"
| "piperead_copy (Suc n) q =
     (if pipe_empty q then ([], q)
      else let (b, q) = pipe_get q; (bs, q) = piperead_copy n q in (b # bs, q))"

definition piperead :: "u32 \<Rightarrow> int \<Rightarrow> 'a pipe_state_scheme \<Rightarrow> ((int \<times> u8 list) progress \<times> 'a pipe_state_scheme) outcome" where
  "piperead p n s =
     (case pipes s p of
        None \<Rightarrow> Panic ''no pipe''
      | Some q \<Rightarrow>
          if pipe_empty q \<and> writeopen q then
            (case curproc s of
               None \<Rightarrow> Panic ''null process''
             | Some c \<Rightarrow>
                 if killed (procs s ! c) then Ret (Done (-1, []), s)
                 else obind (sleep (ChPipeRead p) s) (\<lambda>s. Ret (Sleep, s)))
          else
            let (bs, q) = piperead_copy (nat n) q
            in Ret (Done (int (length bs), bs), wakeup (ChPipeWrite p) (s\<lparr>pipes := (pipes s)(p \<mapsto> q)\<rparr>)))"

section \<open>Bounded byte queues\<close>

text \<open>What the code relies on: a queue with a capacity, and what adding and removing one byte does to its content.\<close>

locale bounded_queue =
  fixes ok :: "'q \<Rightarrow> bool" and content :: "'q \<Rightarrow> 'e list" and cap :: nat
    and full :: "'q \<Rightarrow> bool" and empty :: "'q \<Rightarrow> bool" and put :: "'e \<Rightarrow> 'q \<Rightarrow> 'q" and get :: "'q \<Rightarrow> 'e \<times> 'q"
  assumes full: "ok q \<Longrightarrow> full q \<longleftrightarrow> length (content q) = cap"
    and empty: "ok q \<Longrightarrow> empty q \<longleftrightarrow> content q = []"
    and within: "ok q \<Longrightarrow> length (content q) \<le> cap"
    and put: "ok q \<Longrightarrow> \<not> full q \<Longrightarrow> ok (put e q) \<and> content (put e q) = content q @ [e]"
    and get: "ok q \<Longrightarrow> \<not> empty q \<Longrightarrow> ok (snd (get q)) \<and> content q = fst (get q) # content (snd (get q))"
begin

lemma puts:
  "ok q \<Longrightarrow> length (content q) + length es \<le> cap \<Longrightarrow> ok (fold put es q) \<and> content (fold put es q) = content q @ es"
  by (induction es arbitrary: q) (use put full in auto)

lemma get_take:
  assumes "ok q" "\<not> empty q"
  shows "fst (get q) # take n (content (snd (get q))) = take (Suc n) (content q)"
    "drop n (content (snd (get q))) = drop (Suc n) (content q)"
  using get [OF assms] by simp_all

lemma put_get: "ok q \<Longrightarrow> empty q \<Longrightarrow> 0 < cap \<Longrightarrow> fst (get (put e q)) = e \<and> empty (snd (get (put e q)))"
  using put [of q e] get [of "put e q"] full [of q] empty [of q] empty [of "put e q"] empty [of "snd (get (put e q))"] by simp

end

definition pipe_ok :: "pipe \<Rightarrow> bool" where
  "pipe_ok q \<longleftrightarrow> length (pdata q) = PIPESIZE \<and> unat (nwrite q - nread q) \<le> PIPESIZE"

definition contents :: "pipe \<Rightarrow> u8 list" where
  "contents q = map (\<lambda>i. pdata q ! ((unat (nread q) + i) mod PIPESIZE)) [0..<unat (nwrite q - nread q)]"

text \<open>The counters wrap at \<open>2\<^sup>3\<^sup>2\<close>, a multiple of the size of the ring, so positions stay right.\<close>

lemma unat_add_mod: "unat (a + b :: u32) mod PIPESIZE = (unat a + unat b) mod PIPESIZE"
proof -
  have "unat (a + b) = (unat a + unat b) mod 2 ^ 32" by (simp add: unat_word_ariths)
  moreover have "(x mod 2 ^ 32) mod 512 = x mod 512" for x :: nat by (rule mod_mod_cancel) simp
  ultimately show ?thesis by simp
qed

lemma unat_suc: "unat (a :: u32) < 512 \<Longrightarrow> unat (a + 1) = unat a + 1"
  by (simp add: unat_word_ariths)

lemma length_contents [simp]: "length (contents q) = unat (nwrite q - nread q)"
  by (simp add: contents_def)

lemma mod_offset_inj:
  fixes r :: nat
  assumes "i < d" "d - i < n"
  shows "(r + i) mod n \<noteq> (r + d) mod n"
proof
  assume "(r + i) mod n = (r + d) mod n"
  then have "n dvd (r + d) - (r + i)" using mod_eq_dvd_iff_nat [of "r + i" "r + d" n] assms(1) by simp
  then show False using assms by (auto dest: dvd_imp_le)
qed

lemma contents_put:
  assumes "pipe_ok q" "\<not> pipe_full q"
  shows "pipe_ok (pipe_put b q) \<and> contents (pipe_put b q) = contents q @ [b]"
proof -
  let ?d = "nwrite q - nread q"
  have "?d \<noteq> 512" using assms(2) by (auto simp: pipe_full_def diff_eq_eq add.commute)
  then have "unat ?d \<noteq> 512" by (simp add: word_unat_eq_iff)
  then have lt: "unat ?d < 512" using assms(1) by (simp add: pipe_ok_def)
  have len: "length (pdata q) = 512" using assms(1) by (simp add: pipe_ok_def)
  have d: "unat (nwrite (pipe_put b q) - nread (pipe_put b q)) = unat ?d + 1"
    using unat_suc [OF lt] by (simp add: pipe_put_def algebra_simps)
  have pos: "unat (nwrite q) mod 512 = (unat (nread q) + unat ?d) mod 512"
    using unat_add_mod [of "nread q" ?d] by simp
  have same: "pdata (pipe_put b q) ! ((unat (nread q) + i) mod 512) = pdata q ! ((unat (nread q) + i) mod 512)"
    if "i < unat ?d" for i
    using mod_offset_inj [OF that less_imp_diff_less [OF lt], of "unat (nread q)"] by (simp add: pipe_put_def pos)
  have new: "pdata (pipe_put b q) ! ((unat (nread q) + unat ?d) mod 512) = b"
    using len by (simp add: pipe_put_def pos)
  have "contents (pipe_put b q) = contents q @ [b]"
    unfolding contents_def [of "pipe_put b q"] d using same new by (simp add: contents_def pipe_put_def)
  then show ?thesis using d lt len by (simp add: pipe_ok_def pipe_put_def)
qed

lemma contents_get:
  assumes "pipe_ok q" "\<not> pipe_empty q"
  shows "pipe_ok (snd (pipe_get q)) \<and> contents q = fst (pipe_get q) # contents (snd (pipe_get q))"
proof -
  let ?d = "nwrite q - nread q" and ?q = "snd (pipe_get q)"
  have "?d \<noteq> 0" using assms(2) by (auto simp: pipe_empty_def)
  then have d: "unat ?d = Suc (unat (nwrite ?q - nread ?q))"
    using unat_minus_one [of ?d] unat_gt_0 [of ?d] by (simp add: pipe_get_def algebra_simps)
  have pos: "(unat (nread ?q) + i) mod 512 = (unat (nread q) + Suc i) mod 512" for i
  proof -
    have "unat (nread ?q) mod 512 = (unat (nread q) + 1) mod 512"
      using unat_add_mod [of "nread q" 1] by (simp add: pipe_get_def)
    then show ?thesis using mod_add_cong [of "unat (nread ?q)" 512 "unat (nread q) + 1" i i] by simp
  qed
  have "contents q = fst (pipe_get q) # contents ?q"
    unfolding contents_def d using pos by (simp add: upt_conv_Cons map_Suc_upt [symmetric] pipe_get_def del: upt_Suc)
  moreover have "pipe_ok ?q" using assms(1) d by (simp add: pipe_ok_def pipe_get_def)
  ultimately show ?thesis by simp
qed

interpretation ring: bounded_queue pipe_ok contents PIPESIZE pipe_full pipe_empty pipe_put pipe_get
proof
  fix q assume "pipe_ok q"
  show "pipe_full q \<longleftrightarrow> length (contents q) = PIPESIZE"
    by (auto simp: pipe_full_def word_unat_eq_iff [of "nwrite q - nread q" 512, simplified, symmetric] diff_eq_eq add.commute)
  show "pipe_empty q \<longleftrightarrow> contents q = []"
    by (auto simp: pipe_empty_def length_0_conv [symmetric] unat_eq_zero simp del: length_0_conv)
  show "length (contents q) \<le> PIPESIZE" using \<open>pipe_ok q\<close> by (simp add: pipe_ok_def)
qed (use contents_put contents_get in blast)+


section \<open>Writing and reading\<close>

lemma wakeup_pipes [simp]: "pipes (wakeup ch s) = pipes s"
  by (simp add: wakeup_def wakeup1_def)

lemma wakeup_killed [simp]: "c < length (procs s) \<Longrightarrow> killed (procs (wakeup ch s) ! c) = killed (procs s ! c)"
  by (simp add: wakeup_def wakeup1_nth)

lemma sleep_pipes: "sleep ch s = Ret s' \<Longrightarrow> pipes s' = pipes s"
  by (auto simp: sleep_def sched_def switchkvm_def upd_proc_def Let_def split: option.splits if_splits)

lemma sleep_returns: "curproc s = Some c \<Longrightarrow> c < length (procs s) \<Longrightarrow> \<exists>s'. sleep ch s = Ret s'"
  by (simp add: sleep_def sched_def switchkvm_def upd_proc_def curproc_def Let_def)

lemma piperead_copy_spec:
  "pipe_ok q \<Longrightarrow> piperead_copy n q = (bs, q') \<Longrightarrow>
     pipe_ok q' \<and> bs = take n (contents q) \<and> contents q' = drop n (contents q) \<and>
     readopen q' = readopen q \<and> writeopen q' = writeopen q"
proof (induction n arbitrary: q bs q')
  case (Suc n)
  show ?case
  proof (cases "pipe_empty q")
    case True
    with Suc.prems ring.empty [of q] show ?thesis by simp
  next
    case False
    obtain cs where c: "piperead_copy n (snd (pipe_get q)) = (cs, q')" "bs = fst (pipe_get q) # cs"
      using Suc.prems(2) False by (auto simp: split: prod.splits)
    show ?thesis using Suc.IH [OF _ c(1)] ring.get [OF Suc.prems(1) False] ring.get_take [OF Suc.prems(1) False] c(2)
      by (simp add: pipe_get_def)
  qed
qed simp

text \<open>The states between the bytes of one write differ only in the ring.\<close>

definition pipewrite_ends :: "u32 \<Rightarrow> int \<Rightarrow> 'a pipe_state_scheme \<Rightarrow> pipe \<Rightarrow> int progress \<Rightarrow> u8 list \<Rightarrow> 'a pipe_state_scheme \<Rightarrow> bool" where
  "pipewrite_ends p n t q' r rest s' \<longleftrightarrow>
     r = Done n \<and> rest = [] \<and> s' = wakeup (ChPipeRead p) t
     \<or> r = Done (-1) \<and> rest \<noteq> [] \<and> pipe_full q' \<and> (\<exists>c. curproc t = Some c \<and> (\<not> readopen q' \<or> killed (procs t ! c))) \<and> s' = t
     \<or> r = Sleep \<and> rest \<noteq> [] \<and> pipe_full q' \<and> readopen q' \<and> (\<exists>c. curproc t = Some c \<and> \<not> killed (procs t ! c)) \<and>
         sleep (ChPipeWrite p) (wakeup (ChPipeRead p) t) = Ret s'"

lemma pipewrite_spec:
  assumes "pipes s p = Some q" "pipe_ok q" "pipewrite p bs n s = Ret (r, rest, s')"
  shows "\<exists>ws q'. bs = ws @ rest \<and> pipe_ok q' \<and> contents q' = contents q @ ws \<and>
    readopen q' = readopen q \<and> writeopen q' = writeopen q \<and>
    pipewrite_ends p n (s\<lparr>pipes := (pipes s)(p \<mapsto> q')\<rparr>) q' r rest s'"
  using assms
proof (induction p bs n s arbitrary: q rule: pipewrite.induct)
  case (1 p n s)
  have id: "s\<lparr>pipes := (pipes s)(p \<mapsto> q)\<rparr> = s" using "1.prems"(1) by (simp add: fun_upd_idem)
  have "pipewrite_ends p n (s\<lparr>pipes := (pipes s)(p \<mapsto> q)\<rparr>) q r rest s'"
    unfolding id using 1 by (simp add: pipewrite_ends_def)
  with 1 show ?case by (intro exI [of _ "[]"] exI [of _ q]) (simp add: fun_upd_def)
next
  case (2 p b bs n s)
  note p = "2.prems"
  show ?case
  proof (cases "pipe_full q")
    case True
    have id: "s\<lparr>pipes := (pipes s)(p \<mapsto> q)\<rparr> = s" using p(1) by (simp add: fun_upd_idem)
    have "rest = b # bs" "pipewrite_ends p n (s\<lparr>pipes := (pipes s)(p \<mapsto> q)\<rparr>) q r rest s'"
      unfolding id using p True unfolding pipewrite_ends_def by (auto simp: obind_eq_Ret split: option.splits if_splits)
    with p(2) show ?thesis by (intro exI [of _ "[]"] exI [of _ q]) (simp add: fun_upd_def)
  next
    case False
    let ?s = "s\<lparr>pipes := (pipes s)(p \<mapsto> pipe_put b q)\<rparr>"
    have w: "pipewrite p bs n ?s = Ret (r, rest, s')" using p False by simp
    note put = ring.put [OF p(2) False, of b]
    have "pipes ?s p = Some (pipe_put b q)" "\<forall>q'. ?s\<lparr>pipes := (pipes ?s)(p \<mapsto> q')\<rparr> = s\<lparr>pipes := (pipes s)(p \<mapsto> q')\<rparr>" by simp_all
    with "2.IH" [OF p(1) False _ _ w] put obtain ws q' where
      h: "bs = ws @ rest" "pipe_ok q'" "contents q' = (contents q @ [b]) @ ws" "readopen q' = readopen (pipe_put b q)"
        "writeopen q' = writeopen (pipe_put b q)" "pipewrite_ends p n (s\<lparr>pipes := (pipes s)(p \<mapsto> q')\<rparr>) q' r rest s'" by metis
    then show ?thesis by (intro exI [of _ "b # ws"] exI [of _ q']) (simp add: pipe_put_def fun_upd_def)
  qed
qed

lemma pipewrite_returns:
  assumes "pipes s p = Some q" "pipe_ok q" "curproc s = Some c" "c < length (procs s)"
  shows "\<exists>r rest s'. pipewrite p bs n s = Ret (r, rest, s')"
  using assms
proof (induction bs arbitrary: q s)
  case (Cons b bs)
  show ?case
  proof (cases "pipe_full q")
    case True
    obtain s' where "sleep (ChPipeWrite p) (wakeup (ChPipeRead p) s) = Ret s'"
      using sleep_returns [of "wakeup (ChPipeRead p) s" c] Cons.prems by auto
    then show ?thesis using Cons.prems True by auto
  next
    case False
    let ?s = "s\<lparr>pipes := (pipes s)(p \<mapsto> pipe_put b q)\<rparr>"
    have "\<exists>r rest s'. pipewrite p bs n ?s = Ret (r, rest, s')"
      by (rule Cons.IH [of _ "pipe_put b q"]) (use Cons.prems ring.put [OF Cons.prems(2) False] in \<open>auto simp: curproc_def\<close>)
    then show ?thesis using Cons.prems False by simp
  qed
qed simp


section \<open>Pipes over time\<close>

text \<open>
  \<open>sent\<close> and \<open>recv\<close> collect what was written to a pipe and what was read from it, and \<open>cut_off\<close>
  says that the last write to it was cut off: it returned with bytes left to write, from a full pipe,
  because the writer was killed or the read end was closed. The steps are those of any
  processes, live or killed, in any order: writes, reads that return, reads that go to sleep,
  closing either end, new pipes, and what the rest of the kernel does.
\<close>

record pipe_history = pipe_state +
  sent :: "u32 \<Rightarrow> u8 list"
  recv :: "u32 \<Rightarrow> u8 list"
  cut_off :: "u32 \<Rightarrow> bool"

inductive pipe_step :: "pipe_history \<Rightarrow> pipe_history \<Rightarrow> bool" where
  pwrite: "pipewrite p bs n (s\<lparr>this := c\<rparr>) = Ret (r, rest, s') \<Longrightarrow>
     pipe_step s (s'\<lparr>sent := (sent s)(p := sent s p @ take (length bs - length rest) bs), cut_off := (cut_off s)(p := rest \<noteq> [] \<and> r \<noteq> Sleep)\<rparr>)"
| pread: "piperead p n (s\<lparr>this := c\<rparr>) = Ret (Done (k, bs), s') \<Longrightarrow>
     pipe_step s (s'\<lparr>recv := (recv s)(p := recv s p @ bs)\<rparr>)"
| block: "piperead p n (s\<lparr>this := c\<rparr>) = Ret (Sleep, s') \<Longrightarrow> pipe_step s s'"
| pclose: "pipeclose p w (s\<lparr>this := c\<rparr>) = Ret s' \<Longrightarrow> pipe_step s s'"
| create: "pipes s p = None \<Longrightarrow> length junk = PIPESIZE \<Longrightarrow>
     pipe_step s (s\<lparr>pipes := (pipes s)(p \<mapsto> new_pipe junk), sent := (sent s)(p := []), recv := (recv s)(p := []), cut_off := (cut_off s)(p := False)\<rparr>)"
| other: "pipes s' = pipes s \<Longrightarrow> sent s' = sent s \<Longrightarrow> recv s' = recv s \<Longrightarrow> cut_off s' = cut_off s \<Longrightarrow>
     (\<And>p. ChPipeRead p \<in> sleepers (procs s') \<Longrightarrow> ChPipeRead p \<in> sleepers (procs s)) \<Longrightarrow>
     (\<And>p. ChPipeWrite p \<in> sleepers (procs s') \<Longrightarrow> ChPipeWrite p \<in> sleepers (procs s)) \<Longrightarrow> pipe_step s s'"

definition pipe_start :: "pipe_history \<Rightarrow> bool" where
  "pipe_start s \<longleftrightarrow> pipes s = (\<lambda>_. None) \<and> (\<forall>p. ChPipeRead p \<notin> sleepers (procs s) \<and> ChPipeWrite p \<notin> sleepers (procs s))"

definition pipe_good :: "chan set \<Rightarrow> u8 list \<Rightarrow> u8 list \<Rightarrow> bool \<Rightarrow> u32 \<Rightarrow> pipe option \<Rightarrow> bool" where
  "pipe_good sl snt rcv ct p oq =
     (case oq of
        None \<Rightarrow> ChPipeRead p \<notin> sl \<and> ChPipeWrite p \<notin> sl
      | Some q \<Rightarrow> pipe_ok q \<and> snt = rcv @ contents q \<and>
          (ChPipeRead p \<in> sl \<longrightarrow> writeopen q \<and> (contents q = [] \<or> ct)) \<and>
          (ChPipeWrite p \<in> sl \<longrightarrow> length (contents q) = PIPESIZE \<and> readopen q))"

abbreviation pipe_at :: "u32 \<Rightarrow> pipe_history \<Rightarrow> bool" where
  "pipe_at p s \<equiv> pipe_good (sleepers (procs s)) (sent s p) (recv s p) (cut_off s p) p (pipes s p)"

definition pipe_inv :: "pipe_history \<Rightarrow> bool" where
  "pipe_inv s \<longleftrightarrow> (\<forall>p. pipe_at p s)"

lemma pipe_invD: "pipe_inv s \<Longrightarrow> pipe_at p s"
  by (simp add: pipe_inv_def)

lemma pipe_good_mono:
  "pipe_good sl snt rcv ct p oq \<Longrightarrow> (ChPipeRead p \<in> sl' \<longrightarrow> ChPipeRead p \<in> sl) \<Longrightarrow> (ChPipeWrite p \<in> sl' \<longrightarrow> ChPipeWrite p \<in> sl) \<Longrightarrow>
     pipe_good sl' snt rcv ct p oq"
  by (auto simp: pipe_good_def split: option.splits)

lemma pipe_inv_frame:
  assumes "pipe_inv s" "\<And>r. r \<noteq> p \<Longrightarrow> pipes s' r = pipes s r \<and> sent s' r = sent s r \<and> recv s' r = recv s r \<and> cut_off s' r = cut_off s r"
    "\<And>r. r \<noteq> p \<Longrightarrow> ChPipeRead r \<in> sleepers (procs s') \<Longrightarrow> ChPipeRead r \<in> sleepers (procs s)"
    "\<And>r. r \<noteq> p \<Longrightarrow> ChPipeWrite r \<in> sleepers (procs s') \<Longrightarrow> ChPipeWrite r \<in> sleepers (procs s)"
    "pipe_at p s'"
  shows "pipe_inv s'"
  unfolding pipe_inv_def
proof
  fix r
  show "pipe_at r s'"
  proof (cases "r = p")
    case False
    have "pipe_good (sleepers (procs s)) (sent s' r) (recv s' r) (cut_off s' r) r (pipes s' r)"
      using assms(1) assms(2) [OF False] by (simp add: pipe_inv_def)
    then show ?thesis by (rule pipe_good_mono) (use assms(3,4) False in blast)+
  qed (use assms(5) in simp)
qed

lemma history_wakeup [simp]: "sent (wakeup ch s) = sent s" "recv (wakeup ch s) = recv s" "cut_off (wakeup ch s) = cut_off s"
  by (simp_all add: wakeup_def wakeup1_def)

lemma history_sleep: "sleep ch s = Ret s' \<Longrightarrow> sent s' = sent s \<and> recv s' = recv s \<and> cut_off s' = cut_off s"
  by (auto simp: sleep_def sched_def switchkvm_def upd_proc_def Let_def split: option.splits if_splits)

lemma history_kfree: "kfree p s = Ret s' \<Longrightarrow> sent s' = sent s \<and> recv s' = recv s \<and> cut_off s' = cut_off s \<and> pipes s' = pipes s \<and> procs s' = procs s"
  by (auto simp: kfree_def split: if_splits)

lemma pipe_inv_write:
  assumes inv: "pipe_inv s" and w: "pipewrite p bs n s = Ret (r, rest, s')"
  shows "pipe_inv (s'\<lparr>sent := (sent s)(p := sent s p @ take (length bs - length rest) bs), cut_off := (cut_off s)(p := rest \<noteq> [] \<and> r \<noteq> Sleep)\<rparr>)"
proof (cases "pipes s p")
  case None
  then have "bs = []" using w by (cases bs) auto
  with w have "s' = wakeup (ChPipeRead p) s" by simp
  moreover have "pipe_good (sleepers (procs s)) (sent s p) (recv s p) (cut_off s p) p None" using pipe_invD [OF inv, of p] None by simp
  ultimately show ?thesis
    by (intro pipe_inv_frame [OF inv, of p]) (simp_all add: sleepers_wakeup pipe_good_def None \<open>bs = []\<close>)
next
  case (Some q)
  have g: "pipe_good (sleepers (procs s)) (sent s p) (recv s p) (cut_off s p) p (Some q)" using pipe_invD [OF inv, of p] Some by simp
  then have ok: "pipe_ok q" by (simp add: pipe_good_def)
  from pipewrite_spec [OF Some ok w] obtain ws q' where h: "bs = ws @ rest" "pipe_ok q'" "contents q' = contents q @ ws"
    "readopen q' = readopen q" "writeopen q' = writeopen q"
    "pipewrite_ends p n (s\<lparr>pipes := (pipes s)(p \<mapsto> q')\<rparr>) q' r rest s'" by blast
  let ?t = "s\<lparr>pipes := (pipes s)(p \<mapsto> q')\<rparr>"
  have ws: "take (length bs - length rest) bs = ws" using h(1) by simp
  from h(6) consider (finished) "s' = wakeup (ChPipeRead p) ?t" | (fail) "r \<noteq> Sleep" "rest \<noteq> []" "pipe_full q'" "s' = ?t"
    | (asleep) "pipe_full q'" "readopen q" "sleep (ChPipeWrite p) (wakeup (ChPipeRead p) ?t) = Ret s'"
    unfolding pipewrite_ends_def using h(4) by auto
  then show ?thesis
  proof cases
    case finished
    have "length (contents q') \<le> PIPESIZE" using h(2) by (rule ring.within)
    with finished g h(2-5) ws show ?thesis
      by (intro pipe_inv_frame [OF inv, of p]) (auto simp: sleepers_wakeup pipe_good_def)
  next
    case fail
    have "length (contents q') = PIPESIZE" using ring.full [OF h(2)] fail(3) by simp
    moreover have "length (contents q') \<le> PIPESIZE" using h(2) by (rule ring.within)
    ultimately show ?thesis using fail g h(2-5) ws
      by (intro pipe_inv_frame [OF inv, of p]) (auto simp: pipe_good_def)
  next
    case asleep
    have full: "length (contents q') = PIPESIZE" using ring.full [OF h(2)] asleep(1) by simp
    note sl = sleepers_sleep [OF asleep(3)] and fr = sleep_pipes [OF asleep(3)] history_sleep [OF asleep(3)]
    let ?u = "s'\<lparr>sent := (sent s)(p := sent s p @ take (length bs - length rest) bs), cut_off := (cut_off s)(p := rest \<noteq> [] \<and> r \<noteq> Sleep)\<rparr>"
    show ?thesis
    proof (rule pipe_inv_frame [OF inv, of p])
      show "pipe_at p ?u"
        using g h(2-5) asleep(2) full fr sl unfolding ws by (auto simp: sleepers_wakeup pipe_good_def)
    qed (use sl fr in \<open>auto simp: sleepers_wakeup\<close>)
  qed
qed

lemma pipe_inv_this [simp]: "pipe_inv (s\<lparr>this := c\<rparr>) = pipe_inv s"
  by (simp add: pipe_inv_def)

lemma pipe_inv_read:
  assumes inv: "pipe_inv s" and r: "piperead p n s = Ret (Done (k, bs), s')"
  shows "pipe_inv (s'\<lparr>recv := (recv s)(p := recv s p @ bs)\<rparr>)"
proof -
  obtain q where q: "pipes s p = Some q" using r by (auto simp: piperead_def split: option.splits)
  have g: "pipe_good (sleepers (procs s)) (sent s p) (recv s p) (cut_off s p) p (Some q)" using pipe_invD [OF inv, of p] q by simp
  from r q consider (killed) "bs = []" "s' = s"
    | (copied) q' where "piperead_copy (nat n) q = (bs, q')" "s' = wakeup (ChPipeWrite p) (s\<lparr>pipes := (pipes s)(p \<mapsto> q')\<rparr>)"
    by (auto simp: piperead_def obind_eq_Ret split: if_splits option.splits prod.splits)
  then show ?thesis
  proof cases
    case killed
    then show ?thesis using g q by (intro pipe_inv_frame [OF inv, of p]) simp_all
  next
    case copied
    have ok: "pipe_ok q" using g by (simp add: pipe_good_def)
    note c = piperead_copy_spec [OF ok copied(1)]
    then have "pipe_ok q'" "writeopen q' = writeopen q" "contents q = bs @ contents q'" by simp_all
    then show ?thesis using g
      by (intro pipe_inv_frame [OF inv, of p]) (auto simp: copied(2) sleepers_wakeup pipe_good_def)
  qed
qed

lemma pipe_inv_block:
  assumes inv: "pipe_inv s" and r: "piperead p n s = Ret (Sleep, s')"
  shows "pipe_inv s'"
proof -
  obtain q where q: "pipes s p = Some q" using r by (auto simp: piperead_def split: option.splits)
  have g: "pipe_good (sleepers (procs s)) (sent s p) (recv s p) (cut_off s p) p (Some q)" using pipe_invD [OF inv, of p] q by simp
  have e: "pipe_empty q" "writeopen q" and z: "sleep (ChPipeRead p) s = Ret s'"
    using r q by (auto simp: piperead_def obind_eq_Ret split: if_splits option.splits prod.splits)
  note sl = sleepers_sleep [OF z] and fr = sleep_pipes [OF z] history_sleep [OF z]
  have "contents q = []" using ring.empty [of q] e(1) g by (simp add: pipe_good_def)
  then have "pipe_good (sleepers (procs s')) (sent s p) (recv s p) (cut_off s p) p (Some q)"
    using g e(2) q sl by (auto simp: pipe_good_def)
  then show ?thesis using sl fr q by (intro pipe_inv_frame [OF inv, of p]) auto
qed

lemma pipe_good_reopen:
  "pipe_good sl snt rcv ct p (Some q) \<Longrightarrow> ChPipeRead p \<notin> sl' \<Longrightarrow> sl' \<subseteq> sl \<Longrightarrow> pipe_good sl' snt rcv ct p (Some (q\<lparr>writeopen := False\<rparr>))"
  "pipe_good sl snt rcv ct p (Some q) \<Longrightarrow> ChPipeWrite p \<notin> sl' \<Longrightarrow> sl' \<subseteq> sl \<Longrightarrow>
     pipe_good sl' snt rcv ct p (Some (q\<lparr>readopen := False\<rparr>))"
  by (auto simp: pipe_good_def pipe_ok_def contents_def)

lemma pipe_inv_close:
  assumes inv: "pipe_inv s" and r: "pipeclose p w s = Ret s'"
  shows "pipe_inv s'"
proof -
  obtain q where q: "pipes s p = Some q" using r by (auto simp: pipeclose_def split: option.splits)
  have g: "pipe_good (sleepers (procs s)) (sent s p) (recv s p) (cut_off s p) p (Some q)" using pipe_invD [OF inv, of p] q by simp
  define t where "t = wakeup (if w then ChPipeRead p else ChPipeWrite p) s"
  define q' where "q' = (if w then q\<lparr>writeopen := False\<rparr> else q\<lparr>readopen := False\<rparr>)"
  have sl: "sleepers (procs t) = sleepers (procs s) - {if w then ChPipeRead p else ChPipeWrite p}" by (simp add: t_def sleepers_wakeup)
  have g': "pipe_good (sleepers (procs t)) (sent s p) (recv s p) (cut_off s p) p (Some q')"
    unfolding q'_def sl using g by (auto intro: pipe_good_reopen)
  have t: "sent t = sent s" "recv t = recv s" "cut_off t = cut_off s" "pipes t = pipes s" by (simp_all add: t_def)
  from r consider (freed) "\<not> readopen q'" "\<not> writeopen q'" "kfree p (t\<lparr>pipes := (pipes t)(p := None)\<rparr>) = Ret s'"
    | (kept) "s' = t\<lparr>pipes := (pipes t)(p \<mapsto> q')\<rparr>"
    unfolding pipeclose_def q q'_def t_def by (auto simp: Let_def split: if_splits)
  then show ?thesis
  proof cases
    case freed
    from history_kfree [OF freed(3)] have fr: "sent s' = sent s" "recv s' = recv s" "cut_off s' = cut_off s" "pipes s' = (pipes s)(p := None)" "procs s' = procs t"
      using t by simp_all
    have "pipe_at p s'" using g' freed(1,2) fr by (auto simp: pipe_good_def)
    then show ?thesis by (intro pipe_inv_frame [OF inv, of p]) (simp_all add: fr sl)
  next
    case kept
    then show ?thesis using g' t sl by (intro pipe_inv_frame [OF inv, of p]) simp_all
  qed
qed

lemma pipe_inv_step: "pipe_step s s' \<Longrightarrow> pipe_inv s \<Longrightarrow> pipe_inv s'"
proof (induction rule: pipe_step.induct)
  case (pwrite p bs n c s r rest s')
  then show ?case using pipe_inv_write [of "s\<lparr>this := c\<rparr>" p bs n r rest s'] by simp
next
  case (pread p n c s k bs s')
  then show ?case using pipe_inv_read [of "s\<lparr>this := c\<rparr>" p n k bs s'] by simp
next
  case (block p n c s s')
  then show ?case using pipe_inv_block [of "s\<lparr>this := c\<rparr>" p n s'] by simp
next
  case (pclose p w c s s')
  then show ?case using pipe_inv_close [of "s\<lparr>this := c\<rparr>" p w s'] by simp
next
  case (create s p junk)
  have "pipe_good (sleepers (procs s)) (sent s p) (recv s p) (cut_off s p) p None" using pipe_invD [OF create.prems, of p] create(1) by simp
  then show ?case using create(2)
    by (intro pipe_inv_frame [OF create.prems, of p]) (simp_all add: pipe_good_def new_pipe_def pipe_ok_def contents_def)
next
  case (other s' s)
  show ?case unfolding pipe_inv_def using pipe_invD [OF other.prems] other by (auto intro: pipe_good_mono)
qed

interpretation pipes: invariant_system pipe_start pipe_step pipe_inv
  by unfold_locales (simp add: pipe_start_def pipe_inv_def pipe_good_def, rule pipe_inv_step)

text \<open>
  C13: a pipe delivers every byte once and in order. Whatever readers, writers, closers, kills and
  the rest of the kernel do, in any order, and also when the counters wrap around, the bytes read from
  a pipe followed by the at most 512 bytes in its ring are the bytes written to it. A writer asleep on
  it has no room and an open read end. A reader asleep on it has an open write end, and it has
  nothing to read unless the last write was cut off with bytes left over, the one exit of \<open>pipewrite\<close>
  that does not wake readers.
\<close>

theorem pipe_delivers:
  assumes "reachable pipe_start pipe_step s" "pipes s p = Some q"
  shows "sent s p = recv s p @ contents q \<and> length (contents q) \<le> PIPESIZE \<and>
     (ChPipeRead p \<in> sleepers (procs s) \<longrightarrow> writeopen q \<and> (contents q = [] \<or> cut_off s p)) \<and>
     (ChPipeWrite p \<in> sleepers (procs s) \<longrightarrow> length (contents q) = PIPESIZE \<and> readopen q)"
  using pipe_invD [OF pipes.reachable_inv [OF assms(1)], of p] assms(2) ring.within [of q]
  by (auto simp: pipe_good_def)


section \<open>Pipes as queues\<close>

lemma pipewrite_amount:
  assumes "pipes s p = Some q" "pipe_ok q" "pipewrite p bs n s = Ret (r, rest, s')"
  shows "\<exists>q'. pipe_ok q' \<and> contents q' = contents q @ take (PIPESIZE - length (contents q)) bs \<and>
     rest = drop (PIPESIZE - length (contents q)) bs \<and> readopen q' = readopen q \<and>
     pipewrite_ends p n (s\<lparr>pipes := (pipes s)(p \<mapsto> q')\<rparr>) q' r rest s'"
proof -
  from pipewrite_spec [OF assms] obtain ws q' where h: "bs = ws @ rest" "pipe_ok q'" "contents q' = contents q @ ws"
    "readopen q' = readopen q" "pipewrite_ends p n (s\<lparr>pipes := (pipes s)(p \<mapsto> q')\<rparr>) q' r rest s'" by blast
  let ?k = "PIPESIZE - length (contents q)"
  have le: "length (contents q) + length ws \<le> PIPESIZE" using ring.within [OF h(2)] h(3) by (simp del: length_contents)
  have "rest = [] \<or> length (contents q') = PIPESIZE" using h(5) ring.full [OF h(2)] by (auto simp: pipewrite_ends_def)
  then have "rest = [] \<or> length ws = ?k" using h(3) by (simp del: length_contents) arith
  then have "ws = take ?k bs \<and> rest = drop ?k bs" using h(1) le by auto
  with h show ?thesis by (intro exI [of _ q']) (simp add: fun_upd_def)
qed

text \<open>
  C16: the ring implements a queue of at most 512 bytes. A write of a live process to a pipe with an open
  read end appends as many of its bytes as fit, returns the byte count when all did, and
  otherwise sleeps with the rest still to write; a read takes the oldest bytes, up to \<open>n\<close>,
  and sleeps exactly when there are none and the write end is open. Both always
  return or sleep.
\<close>

theorem pipe_refines_queue:
  assumes "pipes s p = Some q" "pipe_ok q" "curproc s = Some c" "c < length (procs s)" "\<not> killed (procs s ! c)" "readopen q"
  shows "(\<exists>r s' q'. pipewrite p bs n s = Ret (r, drop (PIPESIZE - length (contents q)) bs, s') \<and>
       r = (if length (contents q) + length bs \<le> PIPESIZE then Done n else Sleep) \<and>
       pipes s' p = Some q' \<and> pipe_ok q' \<and> contents q' = contents q @ take (PIPESIZE - length (contents q)) bs) \<and>
     (\<exists>r s' q'. piperead p n s = Ret (r, s') \<and> pipes s' p = Some q' \<and> pipe_ok q' \<and>
       (if contents q = [] \<and> writeopen q then r = Sleep \<and> q' = q
        else r = Done (int (length (take (nat n) (contents q))), take (nat n) (contents q)) \<and>
             contents q' = drop (nat n) (contents q)))"
proof
  obtain r rest s' where w: "pipewrite p bs n s = Ret (r, rest, s')" using pipewrite_returns [OF assms(1-4)] by blast
  from pipewrite_amount [OF assms(1,2) w] obtain q' where h: "pipe_ok q'"
    "contents q' = contents q @ take (PIPESIZE - length (contents q)) bs" "rest = drop (PIPESIZE - length (contents q)) bs"
    "readopen q' = readopen q" "pipewrite_ends p n (s\<lparr>pipes := (pipes s)(p \<mapsto> q')\<rparr>) q' r rest s'" by blast
  have "r = (if length (contents q) + length bs \<le> PIPESIZE then Done n else Sleep) \<and> pipes s' p = Some q'"
    using h(5) assms(3,5,6) h(3,4) ring.within [OF assms(2)]
    by (auto simp: pipewrite_ends_def curproc_def dest: sleep_pipes simp del: length_contents)
  with w h show "\<exists>r s' q'. pipewrite p bs n s = Ret (r, drop (PIPESIZE - length (contents q)) bs, s') \<and>
       r = (if length (contents q) + length bs \<le> PIPESIZE then Done n else Sleep) \<and>
       pipes s' p = Some q' \<and> pipe_ok q' \<and> contents q' = contents q @ take (PIPESIZE - length (contents q)) bs" by blast
next
  show "\<exists>r s' q'. piperead p n s = Ret (r, s') \<and> pipes s' p = Some q' \<and> pipe_ok q' \<and>
       (if contents q = [] \<and> writeopen q then r = Sleep \<and> q' = q
        else r = Done (int (length (take (nat n) (contents q))), take (nat n) (contents q)) \<and>
             contents q' = drop (nat n) (contents q))"
  proof (cases "pipe_empty q \<and> writeopen q")
    case True
    from sleep_returns [OF assms(3,4)] obtain s' where z: "sleep (ChPipeRead p) s = Ret s'" by blast
    with True assms ring.empty [OF assms(2)] sleep_pipes [OF z] show ?thesis by (simp add: piperead_def)
  next
    case False
    obtain bs' q' where c: "piperead_copy (nat n) q = (bs', q')" by fastforce
    from False assms(1) c piperead_copy_spec [OF assms(2) c] ring.empty [OF assms(2)]
    show ?thesis by (simp add: piperead_def if_not_P del: length_contents) 
  qed
qed

text \<open>
  C28: a process that is killed while it fills an empty pipe breaks the wakeup of readers.
  \<open>pipewrite\<close> returns -1 from the full pipe without the wakeup it does on its other
  exits, and a reader that was asleep stays asleep although 512 bytes are there to read.
\<close>

theorem pipewrite_killed_leaves_reader_asleep:
  assumes "pipes s p = Some q" "pipe_ok q" "contents q = []" "curproc s = Some c" "c < length (procs s)" "killed (procs s ! c)"
    "PIPESIZE < length bs" "ChPipeRead p \<in> sleepers (procs s)"
  shows "\<exists>s' q'. pipewrite p bs n s = Ret (Done (-1), drop PIPESIZE bs, s') \<and> pipes s' p = Some q' \<and>
     contents q' = take PIPESIZE bs \<and> ChPipeRead p \<in> sleepers (procs s')"
proof -
  obtain r rest s' where w: "pipewrite p bs n s = Ret (r, rest, s')" using pipewrite_returns [OF assms(1,2,4,5)] by blast
  from pipewrite_amount [OF assms(1,2) w] assms(3) obtain q' where h:
    "contents q' = take PIPESIZE bs" "rest = drop PIPESIZE bs" "pipewrite_ends p n (s\<lparr>pipes := (pipes s)(p \<mapsto> q')\<rparr>) q' r rest s'" by auto
  have ne: "rest \<noteq> []" using assms(7) h(2) by simp
  from h(3) ne assms(4,6) have "r = Done (-1)" "s' = s\<lparr>pipes := (pipes s)(p \<mapsto> q')\<rparr>"
    by (auto simp: pipewrite_ends_def curproc_def)
  with w h assms(8) show ?thesis by simp
qed


section \<open>The claims at work\<close>

definition pipe_demo :: "proc list \<Rightarrow> pipe_history" where
  "pipe_demo ps = \<lparr>mem = (\<lambda>_. 0), freelist = 0, use_lock = True, kend = 0x80115000, kpgdir = 0x803ff000, kdata = 0x80109000,
     procs = ps, initproc = Some 0, nextpid = 2, this = 0, cpu_proc = (\<lambda>_. None)(0 := Some 0),
     sched_pos = (\<lambda>_. 0), sched_idle = (\<lambda>_. True), halted = (\<lambda>_. False), cr3 = (\<lambda>_. 0), esp0 = (\<lambda>_. 0), trapret = 0x80105000, forkret = 0x80103000,
     slocks = (\<lambda>_. \<lparr>slocked = 0, slpid = 0\<rparr>), pipes = (\<lambda>_. None), sent = (\<lambda>_. []), recv = (\<lambda>_. []), cut_off = (\<lambda>_. False)\<rparr>"

definition one_pipe :: "proc list \<Rightarrow> pipe_history" where
  "one_pipe ps = (pipe_demo ps)\<lparr>pipes := [0x80200000 \<mapsto> new_pipe (replicate PIPESIZE 0)]\<rparr>"

lemma one_pipe_simps [simp]:
  "pipes (one_pipe ps) 0x80200000 = Some (new_pipe (replicate PIPESIZE 0))" "procs (one_pipe ps) = ps" "curproc (one_pipe ps) = Some 0"
  "pipe_ok (new_pipe (replicate PIPESIZE 0))" "contents (new_pipe js) = []" "readopen (new_pipe js)"
  by (simp_all add: one_pipe_def pipe_demo_def new_pipe_def pipe_ok_def contents_def curproc_def)

theorem pipe_delivers_witness:
  "\<exists>s. reachable pipe_start pipe_step s \<and> sent s 0x80200000 = [1, 2] \<and> recv s 0x80200000 = [] \<and>
     (\<exists>q. pipes s 0x80200000 = Some q \<and> contents q = [1, 2])"
proof -
  let ?ps = "[first_proc\<lparr>pstate := RUNNING\<rparr>]" and ?p = "0x80200000 :: u32"
  let ?q = "pipe_put 2 (pipe_put 1 (new_pipe (replicate PIPESIZE 0)))"
  let ?s = "wakeup (ChPipeRead ?p) ((one_pipe ?ps)\<lparr>this := 0, pipes := [?p \<mapsto> ?q]\<rparr>)"
  let ?t = "?s\<lparr>sent := (sent (one_pipe ?ps))(?p := sent (one_pipe ?ps) ?p @ take (length [1, 2 :: u8] - length ([] :: u8 list)) [1, 2]),
     cut_off := (cut_off (one_pipe ?ps))(?p := ([] :: u8 list) \<noteq> [] \<and> Done (2 :: int) \<noteq> Sleep)\<rparr>"
  have 0: "reachable pipe_start pipe_step (pipe_demo ?ps)"
    by (rule reachable.start) (simp add: pipe_start_def pipe_demo_def sleepers_def)
  have c: "pipe_step (pipe_demo ?ps) (one_pipe ?ps)"
    using pipe_step.create [of "pipe_demo ?ps" ?p "replicate PIPESIZE 0"] by (simp add: one_pipe_def pipe_demo_def fun_upd_idem)
  have w: "pipewrite ?p [1, 2] 2 ((one_pipe ?ps)\<lparr>this := 0\<rparr>) = Ret (Done 2, [], ?s)"
    by (simp add: one_pipe_def pipe_demo_def new_pipe_def pipe_full_def pipe_put_def)
  have "pipe_step (one_pipe ?ps) ?t" by (rule pipe_step.pwrite [OF w])
  then have r: "reachable pipe_start pipe_step ?t"
    by (rule reachable.step [rotated]) (rule reachable.step [OF 0 c])
  have q: "pipes ?t ?p = Some ?q" and s: "sent ?t ?p = [1, 2]" "recv ?t ?p = []"
    by (simp_all add: one_pipe_def pipe_demo_def)
  from pipe_delivers [OF r q] s have "contents ?q = [1, 2]" by simp
  with r q s show ?thesis by blast
qed

theorem pipe_refines_queue_witness:
  "\<exists>s'. pipewrite 0x80200000 [7, 8, 9] 3 (one_pipe [first_proc\<lparr>pstate := RUNNING\<rparr>]) = Ret (Done 3, [], s') \<and>
     (\<exists>q. pipes s' 0x80200000 = Some q \<and> contents q = [7, 8, 9])"
  using pipe_refines_queue [of "one_pipe [first_proc\<lparr>pstate := RUNNING\<rparr>]" "0x80200000" "new_pipe (replicate PIPESIZE 0)" 0 "[7, 8, 9]" 3,
      THEN conjunct1]
  by (auto simp: first_proc_def blank_proc_def simp del: length_contents)

theorem pipewrite_killed_leaves_reader_asleep_witness:
  "\<exists>s' q'. pipewrite 0x80200000 (replicate 513 65) 513
       (one_pipe [first_proc\<lparr>pstate := RUNNING, killed := True\<rparr>, blank_proc\<lparr>pstate := SLEEPING, pchan := ChPipeRead 0x80200000\<rparr>]) =
         Ret (Done (-1), [65], s') \<and> pipes s' 0x80200000 = Some q' \<and> length (contents q') = 512 \<and> ChPipeRead 0x80200000 \<in> sleepers (procs s')"
proof -
  let ?ps = "[first_proc\<lparr>pstate := RUNNING, killed := True\<rparr>, blank_proc\<lparr>pstate := SLEEPING, pchan := ChPipeRead 0x80200000\<rparr>]"
  have "ChPipeRead 0x80200000 \<in> sleepers ?ps" by (force simp: sleepers_def)
  then show ?thesis
    using pipewrite_killed_leaves_reader_asleep [of "one_pipe ?ps" "0x80200000" "new_pipe (replicate PIPESIZE 0)" 0 "replicate 513 65" 513]
    by (force simp del: length_contents)
qed

end
