(* ===== verification/Bio.thy ===== *)
theory Bio
  imports Pipe
begin

text \<open>
  The buffer cache, \<^verbatim>\<open>bio.c\<close>, over the memory disk, \<^verbatim>\<open>memide.c\<close>. Buffers are
  numbered; number 30 is the head of the list of most recently used ones, which is
  threaded through the buffers as in the code. Walks along the list are bounded by the
  number of links, which is shown to be enough. \<open>trace\<close> records the blocks written to
  the disk, for the crash properties of the log.
\<close>

section \<open>State\<close>

type_synonym block = "u8 list"

record buf =
  bflags :: u32
  bdev :: u32
  bblockno :: u32
  brefcnt :: u32
  bprev :: nat
  bnext :: nat
  bdata :: block

record bio_state = pipe_state +
  bufs :: "buf list"
  disk :: "u32 \<Rightarrow> block"
  disksize :: u32
  trace :: "(u32 \<times> block) list"

abbreviation (input) HEAD :: nat where "HEAD \<equiv> 30"

abbreviation (input) B_VALID :: u32 where "B_VALID \<equiv> 2"

abbreviation (input) B_DIRTY :: u32 where "B_DIRTY \<equiv> 4"

definition upd_buf :: "nat \<Rightarrow> (buf \<Rightarrow> buf) \<Rightarrow> 'a bio_state_scheme \<Rightarrow> 'a bio_state_scheme" where
  "upd_buf i f s = s\<lparr>bufs := (bufs s)[i := f (bufs s ! i)]\<rparr>"

definition ideinit :: "u32 \<Rightarrow> (u32 \<Rightarrow> block) \<Rightarrow> 'a bio_state_scheme \<Rightarrow> 'a bio_state_scheme" where
  "ideinit img_size img s = s\<lparr>disk := img, disksize := img_size div of_nat BSIZE\<rparr>"

section \<open>The memory disk\<close>

definition iderw :: "nat \<Rightarrow> 'a bio_state_scheme \<Rightarrow> 'a bio_state_scheme outcome" where
  "iderw i s =
     (let b = bufs s ! i in
      if \<not> holdingsleep (BufLock i) s then Panic ''iderw: buf not locked''
      else if bflags b AND (B_VALID OR B_DIRTY) = B_VALID then Panic ''iderw: nothing to do''
      else if bdev b \<noteq> 1 then Panic ''iderw: request not for disk 1''
      else if bblockno b \<ge> disksize s then Panic ''iderw: block out of range''
      else
        let s = (if bflags b AND B_DIRTY \<noteq> 0 then
                   (upd_buf i (\<lambda>b. b\<lparr>bflags := bflags b AND NOT B_DIRTY\<rparr>) s)
                     \<lparr>disk := (disk s)(bblockno b := bdata b), trace := trace s @ [(bblockno b, bdata b)]\<rparr>
                 else upd_buf i (\<lambda>c. c\<lparr>bdata := disk s (bblockno b)\<rparr>) s)
        in Ret (upd_buf i (\<lambda>b. b\<lparr>bflags := bflags b OR B_VALID\<rparr>) s))"

section \<open>The cache\<close>

text \<open>Moving a buffer to the front of the list, and taking it out of the list.\<close>

definition link_front :: "nat \<Rightarrow> 'a bio_state_scheme \<Rightarrow> 'a bio_state_scheme" where
  "link_front i s =
     (let s = upd_buf i (\<lambda>b. b\<lparr>bnext := bnext (bufs s ! HEAD)\<rparr>) s;
          s = upd_buf i (\<lambda>b. b\<lparr>bprev := HEAD\<rparr>) s;
          s = upd_buf (bnext (bufs s ! HEAD)) (\<lambda>b. b\<lparr>bprev := i\<rparr>) s
      in upd_buf HEAD (\<lambda>b. b\<lparr>bnext := i\<rparr>) s)"

definition unlink :: "nat \<Rightarrow> 'a bio_state_scheme \<Rightarrow> 'a bio_state_scheme" where
  "unlink i s =
     (let s = upd_buf (bnext (bufs s ! i)) (\<lambda>b. b\<lparr>bprev := bprev (bufs s ! i)\<rparr>) s
      in upd_buf (bprev (bufs s ! i)) (\<lambda>b. b\<lparr>bnext := bnext (bufs s ! i)\<rparr>) s)"

definition binit :: "'a bio_state_scheme \<Rightarrow> 'a bio_state_scheme" where
  "binit s =
     (let s = upd_buf HEAD (\<lambda>b. b\<lparr>bprev := HEAD, bnext := HEAD\<rparr>) s
      in fold (\<lambda>i s. link_front i (initsleeplock (BufLock i) s)) [0..<NBUF] s)"

fun walk :: "nat \<Rightarrow> (nat \<Rightarrow> nat) \<Rightarrow> (nat \<Rightarrow> bool) \<Rightarrow> nat \<Rightarrow> nat option outcome" where
  "walk 0 step P i = Diverged"
| "walk (Suc k) step P i =
     (if i = HEAD then Ret None else if P i then Ret (Some i) else walk k step P (step i))"

definition bget :: "u32 \<Rightarrow> u32 \<Rightarrow> 'a bio_state_scheme \<Rightarrow> (nat \<times> 'a bio_state_scheme) outcome" where
  "bget dev n s =
     obind (walk (NBUF + 1) (\<lambda>i. bnext (bufs s ! i)) (\<lambda>i. bdev (bufs s ! i) = dev \<and> bblockno (bufs s ! i) = n) (bnext (bufs s ! HEAD))) (\<lambda>r.
       case r of
         Some i \<Rightarrow>
           let s = upd_buf i (\<lambda>b. b\<lparr>brefcnt := brefcnt b + 1\<rparr>) s
           in obind (acquiresleep_now (BufLock i) s) (\<lambda>s. Ret (i, s))
       | None \<Rightarrow>
           obind (walk (NBUF + 1) (\<lambda>i. bprev (bufs s ! i)) (\<lambda>i. brefcnt (bufs s ! i) = 0 \<and> bflags (bufs s ! i) AND B_DIRTY = 0) (bprev (bufs s ! HEAD))) (\<lambda>r.
             case r of
               None \<Rightarrow> Panic ''bget: no buffers''
             | Some i \<Rightarrow>
                 let s = upd_buf i (\<lambda>b. b\<lparr>bdev := dev, bblockno := n, bflags := 0, brefcnt := 1\<rparr>) s
                 in obind (acquiresleep_now (BufLock i) s) (\<lambda>s. Ret (i, s))))"

definition bread :: "u32 \<Rightarrow> u32 \<Rightarrow> 'a bio_state_scheme \<Rightarrow> (nat \<times> 'a bio_state_scheme) outcome" where
  "bread dev n s =
     obind (bget dev n s) (\<lambda>(i, s).
       if bflags (bufs s ! i) AND B_VALID = 0 then obind (iderw i s) (\<lambda>s. Ret (i, s)) else Ret (i, s))"

definition bwrite :: "nat \<Rightarrow> 'a bio_state_scheme \<Rightarrow> 'a bio_state_scheme outcome" where
  "bwrite i s =
     (if \<not> holdingsleep (BufLock i) s then Panic ''bwrite''
      else iderw i (upd_buf i (\<lambda>b. b\<lparr>bflags := bflags b OR B_DIRTY\<rparr>) s))"

definition brelse :: "nat \<Rightarrow> 'a bio_state_scheme \<Rightarrow> 'a bio_state_scheme outcome" where
  "brelse i s =
     (if \<not> holdingsleep (BufLock i) s then Panic ''brelse''
      else
        let s = releasesleep (BufLock i) s;
            s = upd_buf i (\<lambda>b. b\<lparr>brefcnt := brefcnt b - 1\<rparr>) s
        in if brefcnt (bufs s ! i) = 0 then Ret (link_front i (unlink i s)) else Ret s)"

section \<open>The list of buffers\<close>

fun chain :: "(nat \<Rightarrow> nat) \<Rightarrow> (nat \<Rightarrow> nat) \<Rightarrow> nat \<Rightarrow> nat list \<Rightarrow> nat \<Rightarrow> bool" where
  "chain nx pv a [] z \<longleftrightarrow> nx a = z \<and> pv z = a"
| "chain nx pv a (x # xs) z \<longleftrightarrow> nx a = x \<and> pv x = a \<and> chain nx pv x xs z"

lemma chain_append: "chain nx pv a (xs @ y # ys) z \<longleftrightarrow> chain nx pv a xs y \<and> chain nx pv y ys z"
  by (induction xs arbitrary: a) auto

lemma chain_rev: "chain nx pv a xs z \<longleftrightarrow> chain pv nx z (rev xs) a"
  by (induction xs arbitrary: a) (auto simp: chain_append)

lemma chain_cong:
  "chain nx pv a xs z \<Longrightarrow> (\<And>i. i \<in> insert a (set xs) \<Longrightarrow> nx' i = nx i) \<Longrightarrow> (\<And>i. i \<in> insert z (set xs) \<Longrightarrow> pv' i = pv i) \<Longrightarrow>
     chain nx' pv' a xs z"
  by (induction xs arbitrary: a) auto

text \<open>Changing the end of a chain.\<close>

lemma chain_retarget:
  "chain nx pv a xs z \<Longrightarrow> distinct (a # xs) \<Longrightarrow> y \<notin> set xs \<Longrightarrow>
     chain (nx(last (a # xs) := y)) (pv(y := last (a # xs))) a xs y"
proof (induction xs arbitrary: a)
  case (Cons x xs)
  then have "last (x # xs) \<noteq> a" by (metis distinct.simps(2) last_in_set list.distinct(1))
  with Cons show ?case by auto
qed simp

lemma chain_ends: "chain nx pv a xs z \<Longrightarrow> nx a = hd (xs @ [z]) \<and> pv z = last (a # xs)"
  by (induction xs arbitrary: a) auto

lemma find_SomeD: "find P xs = Some x \<Longrightarrow> x \<in> set xs \<and> P x"
  by (induction xs) (auto split: if_splits)

lemma walk_chain:
  "chain st pv a xs HEAD \<Longrightarrow> HEAD \<notin> set xs \<Longrightarrow> length xs < k \<Longrightarrow> walk k st P (st a) = Ret (find P xs)"
proof (induction xs arbitrary: a k)
  case Nil
  then show ?case by (cases k) auto
next
  case (Cons x xs)
  then show ?case by (cases k) auto
qed


definition nxt :: "'a bio_state_scheme \<Rightarrow> nat \<Rightarrow> nat" where
  "nxt s i = bnext (bufs s ! i)"

definition prv :: "'a bio_state_scheme \<Rightarrow> nat \<Rightarrow> nat" where
  "prv s i = bprev (bufs s ! i)"

text \<open>\<open>xs\<close> are the buffers in the order of their last use.\<close>

definition ring :: "'a bio_state_scheme \<Rightarrow> nat list \<Rightarrow> bool" where
  "ring s xs \<longleftrightarrow> chain (nxt s) (prv s) HEAD xs HEAD \<and> distinct xs \<and> set xs \<subseteq> {..<NBUF} \<and> length (bufs s) = NBUF + 1"

lemma ringD:
  assumes "ring s xs"
  shows "chain (nxt s) (prv s) HEAD xs HEAD" "distinct xs" "\<And>i. i \<in> set xs \<Longrightarrow> i < NBUF" "length (bufs s) = NBUF + 1" "HEAD \<notin> set xs"
  using assms by (auto simp: ring_def)

lemma upd_buf_simps [simp]:
  "bufs (upd_buf i f s) = (bufs s)[i := f (bufs s ! i)]"
  "slocks (upd_buf i f s) = slocks s" "procs (upd_buf i f s) = procs s" "curproc (upd_buf i f s) = curproc s"
  "disk (upd_buf i f s) = disk s" "disksize (upd_buf i f s) = disksize s" "trace (upd_buf i f s) = trace s"
  "holdingsleep l (upd_buf i f s) = holdingsleep l s"
  by (simp_all add: upd_buf_def curproc_def holdingsleep_def)

lemma nxt_upd: "nxt (upd_buf i f s) j = (if i < length (bufs s) \<and> i = j then bnext (f (bufs s ! j)) else nxt s j)"
  by (simp add: nxt_def nth_upd_cases)

lemma prv_upd: "prv (upd_buf i f s) j = (if i < length (bufs s) \<and> i = j then bprev (f (bufs s ! j)) else prv s j)"
  by (simp add: prv_def nth_upd_cases)

lemma link_front_links:
  assumes "length (bufs s) = NBUF + 1" "i < NBUF" "nxt s HEAD < NBUF + 1" "nxt s HEAD \<noteq> i"
  shows "nxt (link_front i s) = (nxt s)(i := nxt s HEAD, HEAD := i)"
    "prv (link_front i s) = (prv s)(i := HEAD, nxt s HEAD := i)"
  using assms by (auto simp: fun_eq_iff link_front_def Let_def nxt_upd prv_upd nth_upd_cases nxt_def [symmetric] prv_def)

lemma unlink_links:
  assumes "nxt s i < length (bufs s)" "prv s i < length (bufs s)" "nxt s i \<noteq> i"
  shows "nxt (unlink i s) = (nxt s)(prv s i := nxt s i)" "prv (unlink i s) = (prv s)(nxt s i := prv s i)"
  using assms by (auto simp: fun_eq_iff unlink_def Let_def nxt_upd prv_upd nth_upd_cases nxt_def [symmetric] prv_def [symmetric])

lemma ring_link:
  assumes r: "ring s xs" and i: "i < NBUF" "i \<notin> set xs"
  shows "ring (link_front i s) (i # xs)"
proof -
  note d = ringD [OF r]
  have h: "nxt s HEAD = hd (xs @ [HEAD])" using chain_ends [OF d(1)] by simp
  have hn: "nxt s HEAD < NBUF + 1" "nxt s HEAD \<noteq> i" using d(3) i unfolding h by (cases xs; force)+
  note L = link_front_links [OF d(4) i(1) hn]
  have "chain (nxt (link_front i s)) (prv (link_front i s)) i xs HEAD"
  proof (cases xs)
    case Nil
    then show ?thesis using i h by (simp add: L)
  next
    case (Cons x ys)
    then have "chain (nxt s) (prv s) x ys HEAD" using d(1) by simp
    then have "chain (nxt (link_front i s)) (prv (link_front i s)) x ys HEAD"
      by (rule chain_cong) (use d i Cons h in \<open>auto simp: L\<close>)
    then show ?thesis using Cons h i d by (auto simp: L)
  qed
  moreover have "nxt (link_front i s) HEAD = i" "prv (link_front i s) i = HEAD" using i hn by (auto simp: L)
  moreover have "length (bufs (link_front i s)) = NBUF + 1" using d(4) by (simp add: link_front_def Let_def)
  ultimately show ?thesis using d i by (auto simp: ring_def)
qed

lemma ring_unlink:
  assumes r: "ring s (us @ i # vs)"
  shows "ring (unlink i s) (us @ vs)"
proof -
  note d = ringD [OF r]
  have c: "chain (nxt s) (prv s) HEAD us i" "chain (nxt s) (prv s) i vs HEAD" using d(1) by (simp_all add: chain_append)
  have e: "nxt s i = hd (vs @ [HEAD])" "prv s i = last (HEAD # us)" using chain_ends [OF c(1)] chain_ends [OF c(2)] by auto
  have b: "nxt s i < length (bufs s)" "prv s i < length (bufs s)" "nxt s i \<noteq> i" "prv s i \<notin> set (i # vs)" "nxt s i \<notin> set us"
    using d(2-5) unfolding e by (cases vs; cases us rule: rev_cases; force)+
  note L = unlink_links [OF b(1-3)]
  have 1: "chain (nxt (unlink i s)) (prv (unlink i s)) HEAD us (nxt s i)"
    using chain_retarget [OF c(1), of "nxt s i"] d(2,5) b(5) by (simp add: L e)
  have 2: "chain (nxt (unlink i s)) (prv (unlink i s)) x ys HEAD" if "vs = x # ys" for x ys
  proof -
    have "chain (nxt s) (prv s) x ys HEAD" using c(2) that by simp
    then show ?thesis by (rule chain_cong) (use d b that e in \<open>auto simp: L\<close>)
  qed
  have "chain (nxt (unlink i s)) (prv (unlink i s)) HEAD (us @ vs) HEAD"
    using 1 2 by (cases vs) (auto simp: e chain_append)
  moreover have "length (bufs (unlink i s)) = NBUF + 1" using d(4) by (simp add: unlink_def Let_def)
  ultimately show ?thesis using d by (auto simp: ring_def)
qed

lemma ring_to_front:
  assumes "ring s xs" "i \<in> set xs"
  shows "ring (link_front i (unlink i s)) (i # remove1 i xs)"
proof -
  obtain us vs where x: "xs = us @ i # vs" "i \<notin> set us" using assms(2) split_list_first by metis
  then have "remove1 i xs = us @ vs" by (simp add: remove1_append)
  moreover have "i \<notin> set (us @ vs)" "i < NBUF" using ringD(2,3) [OF assms(1)] x by auto
  ultimately show ?thesis using ring_unlink [of s us i vs] ring_link assms(1) x by metis
qed

lemma ring_cong:
  "ring s xs \<Longrightarrow> length (bufs s') = length (bufs s) \<Longrightarrow> (\<And>i. nxt s' i = nxt s i) \<Longrightarrow> (\<And>i. prv s' i = prv s i) \<Longrightarrow> ring s' xs"
  unfolding ring_def by (auto intro: chain_cong)

lemma ring_fields: "ring s xs \<Longrightarrow> (\<And>b. bnext (f b) = bnext b) \<Longrightarrow> (\<And>b. bprev (f b) = bprev b) \<Longrightarrow> ring (upd_buf i f s) xs"
  by (rule ring_cong) (auto simp: nxt_def prv_def nth_upd_cases)


section \<open>Flags\<close>

definition valid :: "buf \<Rightarrow> bool" where
  "valid b \<longleftrightarrow> bit (bflags b) 1"

definition dirty :: "buf \<Rightarrow> bool" where
  "dirty b \<longleftrightarrow> bit (bflags b) 2"

lemma flag_and: "(w :: u32) AND 2 = 0 \<longleftrightarrow> \<not> bit w 1" "w AND 4 = 0 \<longleftrightarrow> \<not> bit w 2"
  using and_exp_eq_0_iff_not_bit [of w 1] and_exp_eq_0_iff_not_bit [of w 2] by simp_all

lemma bit_24: "bit (2 :: u32) n \<longleftrightarrow> n = 1" "bit (4 :: u32) n \<longleftrightarrow> n = 2"
  using bit_exp_iff [where 'a = u32, of 1 n] bit_exp_iff [where 'a = u32, of 2 n] by (auto simp: possible_bit_def)

lemma bit_6: "bit (6 :: u32) n \<longleftrightarrow> n = 1 \<or> n = 2"
proof -
  have "(6 :: u32) = 2 OR 4" by simp
  then show ?thesis by (simp only: bit_or_iff bit_24)
qed

lemma flag_both: "(w :: u32) AND 6 = 2 \<longleftrightarrow> bit w 1 \<and> \<not> bit w 2"
proof
  assume a: "w AND 6 = 2"
  have "bit (w AND 6) 1" "\<not> bit (w AND 6) 2" unfolding a bit_24 by simp_all
  then show "bit w 1 \<and> \<not> bit w 2" unfolding bit_and_iff bit_6 by simp
next
  assume "bit w 1 \<and> \<not> bit w 2"
  then show "w AND 6 = 2" by (intro bit_word_eqI) (unfold bit_and_iff bit_6 bit_24, auto)
qed

lemma flag_bits:
  "bit (w OR 2 :: u32) 1" "bit (w OR 2) 2 = bit w 2" "bit (w OR 4) 2" "bit (w OR 4) 1 = bit w 1"
  "bit (w AND NOT 4) 1 = bit w 1" "\<not> bit (w AND NOT 4 :: u32) 2"
  by (simp_all add: bit_or_iff bit_and_iff bit_not_iff bit_24)

lemma flag_clear: "bit (w AND - 5 :: u32) 1 = bit w 1" "\<not> bit (w AND - 5 :: u32) 2"
proof -
  have "(- 5 :: u32) = NOT 4" by simp
  then show "bit (w AND - 5 :: u32) 1 = bit w 1" "\<not> bit (w AND - 5 :: u32) 2" by (simp_all only: flag_bits not_False_eq_True)
qed

lemmas flag_bits' = flag_bits [unfolded One_nat_def] flag_clear [unfolded One_nat_def]

lemma iderw_eq:
  "iderw i s =
     (let b = bufs s ! i in
      if \<not> holdingsleep (BufLock i) s then Panic ''iderw: buf not locked''
      else if valid b \<and> \<not> dirty b then Panic ''iderw: nothing to do''
      else if bdev b \<noteq> 1 then Panic ''iderw: request not for disk 1''
      else if bblockno b \<ge> disksize s then Panic ''iderw: block out of range''
      else if dirty b then
        Ret ((upd_buf i (\<lambda>b. b\<lparr>bflags := (bflags b AND NOT 4) OR 2\<rparr>) s)
          \<lparr>disk := (disk s)(bblockno b := bdata b), trace := trace s @ [(bblockno b, bdata b)]\<rparr>)
      else Ret (upd_buf i (\<lambda>c. c\<lparr>bdata := disk s (bblockno b), bflags := bflags c OR 2\<rparr>) s))"
proof -
  have "(2 :: u32) OR 4 = 6" by simp
  then show ?thesis
    unfolding iderw_def Let_def valid_def dirty_def flag_and
    by (auto simp: flag_both upd_buf_def nth_upd_cases list_update_beyond)
qed

section \<open>What the cache holds\<close>

text \<open>
  \<open>content s n\<close> is what a user of the cache finds in block \<open>n\<close> of the disk.
  \<open>bio_ok H s\<close> is the state between calls while the buffers \<open>H\<close> are held and no
  other is: the list is intact, no block is cached twice, a buffer nobody holds is equal
  to its block or dirty, and locks and reference counts agree with \<open>H\<close>.
\<close>

definition is_for :: "u32 \<Rightarrow> buf \<Rightarrow> bool" where
  "is_for n b \<longleftrightarrow> bdev b = 1 \<and> bblockno b = n"

definition content :: "'a bio_state_scheme \<Rightarrow> u32 \<Rightarrow> block" where
  "content s n =
     (case scan (\<lambda>b. is_for n b \<and> valid b) (take NBUF (bufs s)) of Some i \<Rightarrow> bdata (bufs s ! i) | None \<Rightarrow> disk s n)"

definition bio_ok :: "nat set \<Rightarrow> 'a bio_state_scheme \<Rightarrow> bool" where
  "bio_ok H s \<longleftrightarrow>
     (\<exists>xs. ring s xs \<and> set xs = {..<NBUF}) \<and> H \<subseteq> {..<NBUF} \<and> curproc s \<noteq> None \<and>
     (\<forall>i < NBUF. \<forall>j < NBUF. \<forall>n. is_for n (bufs s ! i) \<longrightarrow> is_for n (bufs s ! j) \<longrightarrow> i = j) \<and>
     (\<forall>i < NBUF. length (bdata (bufs s ! i)) = BSIZE) \<and> (\<forall>n. length (disk s n) = BSIZE) \<and>
     (\<forall>i < NBUF. dirty (bufs s ! i) \<longrightarrow> valid (bufs s ! i) \<and> bdev (bufs s ! i) = 1) \<and>
     (\<forall>i < NBUF. i \<notin> H \<longrightarrow> valid (bufs s ! i) \<longrightarrow> bdev (bufs s ! i) = 1 \<longrightarrow> \<not> dirty (bufs s ! i) \<longrightarrow>
        bdata (bufs s ! i) = disk s (bblockno (bufs s ! i))) \<and>
     (\<forall>i < NBUF. if i \<in> H then brefcnt (bufs s ! i) = 1 \<and> holdingsleep (BufLock i) s \<and> valid (bufs s ! i) \<and> bdev (bufs s ! i) = 1
        else brefcnt (bufs s ! i) = 0 \<and> \<not> holdingsleep (BufLock i) s)"

lemma bio_okD:
  assumes "bio_ok H s"
  shows "\<exists>xs. ring s xs \<and> set xs = {..<NBUF}" "\<And>i. i \<in> H \<Longrightarrow> i < NBUF" "\<exists>c. curproc s = Some c"
    "\<And>i j n. i < NBUF \<Longrightarrow> j < NBUF \<Longrightarrow> is_for n (bufs s ! i) \<Longrightarrow> is_for n (bufs s ! j) \<Longrightarrow> i = j"
    "\<And>i. i < NBUF \<Longrightarrow> length (bdata (bufs s ! i)) = BSIZE" "\<And>n. length (disk s n) = BSIZE"
    "\<And>i. i < NBUF \<Longrightarrow> dirty (bufs s ! i) \<Longrightarrow> valid (bufs s ! i) \<and> bdev (bufs s ! i) = 1"
    "\<And>i. i < NBUF \<Longrightarrow> i \<notin> H \<Longrightarrow> valid (bufs s ! i) \<Longrightarrow> bdev (bufs s ! i) = 1 \<Longrightarrow> \<not> dirty (bufs s ! i) \<Longrightarrow>
        bdata (bufs s ! i) = disk s (bblockno (bufs s ! i))"
    "\<And>i. i \<in> H \<Longrightarrow> brefcnt (bufs s ! i) = 1 \<and> holdingsleep (BufLock i) s \<and> valid (bufs s ! i) \<and> bdev (bufs s ! i) = 1"
    "\<And>i. i < NBUF \<Longrightarrow> i \<notin> H \<Longrightarrow> brefcnt (bufs s ! i) = 0 \<and> \<not> holdingsleep (BufLock i) s"
    "length (bufs s) = NBUF + 1"
proof -
  show "\<And>i. i \<in> H \<Longrightarrow> brefcnt (bufs s ! i) = 1 \<and> holdingsleep (BufLock i) s \<and> valid (bufs s ! i) \<and> bdev (bufs s ! i) = 1"
    using assms unfolding bio_ok_def by (metis lessThan_iff subsetD)
qed (use assms in \<open>auto simp: bio_ok_def ring_def\<close>)

lemma content_cached:
  assumes "bio_ok H s" "i < NBUF" "is_for n (bufs s ! i)" "valid (bufs s ! i)"
  shows "content s n = bdata (bufs s ! i)"
proof -
  have "\<not> is_for n (bufs s ! j)" if "j < i" for j
    using bio_okD(4) [OF assms(1), of i j n] assms(2,3) that by auto
  then have "scan (\<lambda>b. is_for n b \<and> valid b) (take NBUF (bufs s)) = Some i"
    using assms(2-) bio_okD(11) [OF assms(1)] by (auto simp: scan_Some_iff)
  then show ?thesis by (simp add: content_def)
qed

lemma content_uncached:
  assumes "length (bufs s) = NBUF + 1" "\<And>i. i < NBUF \<Longrightarrow> is_for n (bufs s ! i) \<Longrightarrow> \<not> valid (bufs s ! i)"
  shows "content s n = disk s n"
proof -
  have "scan (\<lambda>b. is_for n b \<and> valid b) (take NBUF (bufs s)) = None"
    using assms by (auto simp: in_set_conv_nth)
  then show ?thesis unfolding content_def by (simp del: scan_None_iff)
qed


section \<open>Finding a buffer\<close>

text \<open>The state in which \<open>bget\<close> returns: the buffer taken and its lock held.\<close>

definition got :: "nat \<Rightarrow> (buf \<Rightarrow> buf) \<Rightarrow> 'a bio_state_scheme \<Rightarrow> 'a bio_state_scheme" where
  "got i f s = upd_slock (BufLock i) (\<lambda>k. k\<lparr>slocked := 1, slpid := pid (procs s ! the (curproc s))\<rparr>) (upd_buf i f s)"

lemma acquire_held: "holdingsleep l s \<Longrightarrow> acquiresleep_now l s \<noteq> Ret t" "acquiresleep_now l s \<noteq> Diverged"
  by (auto simp: acquiresleep_now_def acquiresleep_def holdingsleep_def obind_eq_Ret)
    (auto simp: obind_def sleep_def sched_def Let_def split: outcome.splits option.splits if_splits progress.splits)

lemma acquire_free: "\<not> holdingsleep l s \<Longrightarrow> curproc s = Some c \<Longrightarrow>
    acquiresleep_now l s = Ret (upd_slock l (\<lambda>k. k\<lparr>slocked := 1, slpid := pid (procs s ! c)\<rparr>) s)"
  by (simp add: acquiresleep_now_eq holdingsleep_def)

lemma walks:
  assumes "ring s xs" "length xs \<le> NBUF"
  shows "walk (NBUF + 1) (\<lambda>i. bnext (bufs s ! i)) P (bnext (bufs s ! HEAD)) = Ret (find P xs)"
    "walk (NBUF + 1) (\<lambda>i. bprev (bufs s ! i)) P (bprev (bufs s ! HEAD)) = Ret (find P (rev xs))"
proof -
  note d = ringD [OF assms(1)]
  show "walk (NBUF + 1) (\<lambda>i. bnext (bufs s ! i)) P (bnext (bufs s ! HEAD)) = Ret (find P xs)"
    using walk_chain [OF d(1,5), of "NBUF + 1" P] assms(2) by (simp add: nxt_def [abs_def])
  have "chain (prv s) (nxt s) HEAD (rev xs) HEAD" using d(1) chain_rev by blast
  from walk_chain [OF this, of "NBUF + 1" P] d(5) assms(2)
  show "walk (NBUF + 1) (\<lambda>i. bprev (bufs s ! i)) P (bprev (bufs s ! HEAD)) = Ret (find P (rev xs))"
    by (simp add: prv_def [abs_def])
qed

lemma ring_length: "ring s xs \<Longrightarrow> length xs \<le> NBUF"
  using ringD(2) [of s xs] card_mono [of "{..<NBUF}" "set xs"] by (auto simp: ring_def distinct_card)

text \<open>\<open>bget\<close>, by the list of buffers in the order of their last use.\<close>

lemma bget_cases:
  assumes "bio_ok H s" "ring s xs" "set xs = {..<NBUF}"
  obtains (hit) i where "i < NBUF" "i \<notin> H" "is_for n (bufs s ! i)" "bget 1 n s = Ret (i, got i (\<lambda>b. b\<lparr>brefcnt := brefcnt b + 1\<rparr>) s)"
  | (held) i where "i \<in> H" "is_for n (bufs s ! i)" "\<And>r. bget 1 n s \<noteq> Ret r" "bget 1 n s \<noteq> Diverged"
  | (miss) i where "\<And>j. j < NBUF \<Longrightarrow> \<not> is_for n (bufs s ! j)" "i < NBUF" "i \<notin> H" "\<not> dirty (bufs s ! i)"
      "find (\<lambda>i. i \<notin> H \<and> \<not> dirty (bufs s ! i)) (rev xs) = Some i"
      "bget 1 n s = Ret (i, got i (\<lambda>b. b\<lparr>bdev := 1, bblockno := n, bflags := 0, brefcnt := 1\<rparr>) s)"
  | (full) "\<And>j. j < NBUF \<Longrightarrow> \<not> is_for n (bufs s ! j)" "\<And>i. i < NBUF \<Longrightarrow> i \<notin> H \<Longrightarrow> dirty (bufs s ! i)"
      "bget 1 n s = Panic ''bget: no buffers''"
proof -
  note W = walks [OF assms(2) ring_length [OF assms(2)]] and ok = bio_okD [OF assms(1)]
  obtain c where c: "curproc s = Some c" using ok(3) by blast
  let ?P = "\<lambda>i. bdev (bufs s ! i) = 1 \<and> bblockno (bufs s ! i) = n"
  let ?Q = "\<lambda>i. brefcnt (bufs s ! i) = 0 \<and> bflags (bufs s ! i) AND 4 = 0"
  have Q: "find ?Q (rev xs) = find (\<lambda>i. i \<notin> H \<and> \<not> dirty (bufs s ! i)) (rev xs)"
  proof (rule find_cong)
    fix i assume "i \<in> set (rev xs)"
    then have "i < NBUF" using assms(3) by auto
    then show "?Q i \<longleftrightarrow> i \<notin> H \<and> \<not> dirty (bufs s ! i)"
      using ok(9) [of i] ok(10) [of i] by (cases "i \<in> H") (auto simp: dirty_def flag_and)
  qed simp
  show ?thesis
  proof (cases "find ?P xs")
    case (Some i)
    then have i: "i < NBUF" "is_for n (bufs s ! i)" using assms(3) by (auto simp: find_Some_iff is_for_def)
    have b: "bget 1 n s = obind (acquiresleep_now (BufLock i) (upd_buf i (\<lambda>b. b\<lparr>brefcnt := brefcnt b + 1\<rparr>) s)) (\<lambda>s. Ret (i, s))"
      unfolding bget_def W Some by (simp add: Let_def)
    show ?thesis
    proof (cases "i \<in> H")
      case True
      have "bget 1 n s \<noteq> Diverged"
        unfolding b obind_def using acquire_held(2) [of "BufLock i" "upd_buf i (\<lambda>b. b\<lparr>brefcnt := brefcnt b + 1\<rparr>) s"]
        by (auto split: outcome.splits)
      moreover have "bget 1 n s \<noteq> Ret r" for r
        using True acquire_held(1) [of "BufLock i" "upd_buf i (\<lambda>b. b\<lparr>brefcnt := brefcnt b + 1\<rparr>) s"] ok(9) [of i] unfolding b
        by (auto simp: obind_eq_Ret)
      ultimately show ?thesis using held [of i] True i by blast
    next
      case False
      then have "bget 1 n s = Ret (i, got i (\<lambda>b. b\<lparr>brefcnt := brefcnt b + 1\<rparr>) s)"
        unfolding b using ok(10) [OF i(1) False] c by (simp add: acquire_free got_def Let_def)
      then show ?thesis using hit i False by blast
    qed
  next
    case None
    then have none: "\<not> is_for n (bufs s ! j)" if "j < NBUF" for j
      using that assms(3) by (auto simp: find_None_iff is_for_def)
    show ?thesis
    proof (cases "find ?Q (rev xs)")
      case (Some i)
      have i: "i < NBUF" "i \<notin> H" "\<not> dirty (bufs s ! i)" using find_SomeD [OF Some [unfolded Q]] assms(3) by auto
      have "bget 1 n s = Ret (i, got i (\<lambda>b. b\<lparr>bdev := 1, bblockno := n, bflags := 0, brefcnt := 1\<rparr>) s)"
        unfolding bget_def W None Some using ok(10) [OF i(1,2)] c by (simp add: acquire_free got_def Let_def)
      then show ?thesis using miss none i Some [unfolded Q] by blast
    next
      case N: None
      have "dirty (bufs s ! i)" if "i < NBUF" "i \<notin> H" for i
        using N [unfolded Q] that assms(3) by (auto simp: find_None_iff)
      moreover have "bget 1 n s = Panic ''bget: no buffers''" unfolding bget_def W None N by simp
      ultimately show ?thesis using full none by blast
    qed
  qed
qed


section \<open>Keeping the cache intact\<close>

lemma scan_cong:
  "length xs = length ys \<Longrightarrow> (\<And>i. i < length xs \<Longrightarrow> P (xs ! i) = P (ys ! i)) \<Longrightarrow> scan P xs = scan P ys"
proof (induction xs ys rule: list_induct2')
  case (4 x xs y ys)
  from "4.prems"(2) [of 0] "4.prems"(2) [of "Suc i" for i] "4.prems"(1) "4.IH" show ?case by auto
qed auto

lemma bio_ok_change:
  assumes ok: "bio_ok H s" and i: "i < NBUF" and b: "bufs s' = (bufs s)[i := q]"
    and links: "bnext q = bnext (bufs s ! i)" "bprev q = bprev (bufs s ! i)"
    and cur: "curproc s' = curproc s"
    and others: "\<And>j. j \<noteq> i \<Longrightarrow> holdingsleep (BufLock j) s' = holdingsleep (BufLock j) s"
    and H': "H' - {i} = H - {i}"
    and dk: "\<And>m. disk s' m \<noteq> disk s m \<Longrightarrow> is_for m (bufs s ! i)" "\<And>m. length (disk s' m) = BSIZE"
    and uniq: "\<And>j n. j < NBUF \<Longrightarrow> j \<noteq> i \<Longrightarrow> is_for n (bufs s ! j) \<Longrightarrow> \<not> is_for n q"
    and q: "length (bdata q) = BSIZE" "dirty q \<Longrightarrow> valid q \<and> bdev q = 1"
    and clean: "i \<notin> H' \<Longrightarrow> valid q \<Longrightarrow> bdev q = 1 \<Longrightarrow> \<not> dirty q \<Longrightarrow> bdata q = disk s' (bblockno q)"
    and use: "i \<in> H' \<Longrightarrow> brefcnt q = 1 \<and> holdingsleep (BufLock i) s' \<and> valid q \<and> bdev q = 1"
    and free: "i \<notin> H' \<Longrightarrow> brefcnt q = 0 \<and> \<not> holdingsleep (BufLock i) s'"
  shows "bio_ok H' s'"
    and "\<And>m. \<not> is_for m (bufs s ! i) \<Longrightarrow> \<not> is_for m q \<Longrightarrow> content s' m = content s m"
proof -
  note d = bio_okD [OF ok]
  have li: "i < length (bufs s)" using d(11) i by simp
  have nth: "bufs s' ! j = (if j = i then q else bufs s ! j)" for j using li by (simp add: b nth_list_update)
  have inH: "j \<in> H' \<longleftrightarrow> j \<in> H" if "j \<noteq> i" for j using H' that by auto
  obtain xs where xs: "ring s xs" "set xs = {..<NBUF}" using d(1) by blast
  have len: "length (bufs s') = length (bufs s)" by (simp add: b)
  have r: "ring s' xs" by (rule ring_cong [OF xs(1) len]) (simp_all add: nxt_def prv_def nth links)
  have sub: "H' \<subseteq> {..<NBUF}" using d(2) i inH by (metis lessThan_iff subsetI)
  have un: "\<forall>j < NBUF. \<forall>k < NBUF. \<forall>n. is_for n (bufs s' ! j) \<longrightarrow> is_for n (bufs s' ! k) \<longrightarrow> j = k"
    using uniq d(4) unfolding nth by (metis (full_types))
  have cl: "\<forall>j < NBUF. j \<notin> H' \<longrightarrow> valid (bufs s' ! j) \<longrightarrow> bdev (bufs s' ! j) = 1 \<longrightarrow> \<not> dirty (bufs s' ! j) \<longrightarrow>
        bdata (bufs s' ! j) = disk s' (bblockno (bufs s' ! j))"
  proof (intro allI impI)
    fix j assume j: "j < NBUF" "j \<notin> H'" "valid (bufs s' ! j)" "bdev (bufs s' ! j) = 1" "\<not> dirty (bufs s' ! j)"
    show "bdata (bufs s' ! j) = disk s' (bblockno (bufs s' ! j))"
    proof (cases "j = i")
      case True
      then show ?thesis using clean j by (simp add: nth)
    next
      case False
      have f: "is_for (bblockno (bufs s ! j)) (bufs s ! j)" using j(4) False by (simp add: nth is_for_def)
      have "\<not> is_for (bblockno (bufs s ! j)) (bufs s ! i)" using d(4) [OF j(1) i f] False by auto
      then have "disk s' (bblockno (bufs s ! j)) = disk s (bblockno (bufs s ! j))" using dk(1) by blast
      then show ?thesis using d(8) [OF j(1)] j inH [OF False] False by (simp add: nth)
    qed
  qed
  have us: "\<forall>j < NBUF. if j \<in> H' then brefcnt (bufs s' ! j) = 1 \<and> holdingsleep (BufLock j) s' \<and> valid (bufs s' ! j) \<and> bdev (bufs s' ! j) = 1
        else brefcnt (bufs s' ! j) = 0 \<and> \<not> holdingsleep (BufLock j) s'"
  proof (intro allI impI)
    fix j assume "j < NBUF"
    then show "if j \<in> H' then brefcnt (bufs s' ! j) = 1 \<and> holdingsleep (BufLock j) s' \<and> valid (bufs s' ! j) \<and> bdev (bufs s' ! j) = 1
        else brefcnt (bufs s' ! j) = 0 \<and> \<not> holdingsleep (BufLock j) s'"
      using use free inH [of j] others [of j] d(9) [of j] d(10) [of j] by (cases "j = i") (simp_all add: nth)
  qed
  have "\<exists>xs. ring s' xs \<and> set xs = {..<NBUF}" "curproc s' \<noteq> None" using r xs(2) d(3) cur by auto
  moreover have "\<forall>j < NBUF. length (bdata (bufs s' ! j)) = BSIZE"
    "\<forall>j < NBUF. dirty (bufs s' ! j) \<longrightarrow> valid (bufs s' ! j) \<and> bdev (bufs s' ! j) = 1"
    using d(5,7) q by (simp_all add: nth)
  ultimately show "bio_ok H' s'" unfolding bio_ok_def using dk(2) sub un cl us by (intro conjI) blast+
  fix m assume m: "\<not> is_for m (bufs s ! i)" "\<not> is_for m q"
  have "scan (\<lambda>b. is_for m b \<and> valid b) (take NBUF (bufs s')) = scan (\<lambda>b. is_for m b \<and> valid b) (take NBUF (bufs s))"
    using m i li len by (intro scan_cong) (simp_all add: nth)
  moreover have "disk s' m = disk s m" using dk(1) m by blast
  moreover have "scan (\<lambda>b. is_for m b \<and> valid b) (take NBUF (bufs s)) \<noteq> Some i"
    using m(1) li i by (auto simp: scan_Some_iff)
  ultimately show "content s' m = content s m" unfolding content_def
    by (cases "scan (\<lambda>b. is_for m b \<and> valid b) (take NBUF (bufs s))") (simp_all add: nth del: scan_None_iff)
qed


lemma bio_ok_links:
  assumes ok: "bio_ok H s" and r: "ring s' xs" "set xs = {..<NBUF}"
    and same: "\<And>j. j < NBUF \<Longrightarrow> \<exists>a b. bufs s' ! j = (bufs s ! j)\<lparr>bnext := a, bprev := b\<rparr>"
    and fr: "curproc s' = curproc s" "slocks s' = slocks s" "disk s' = disk s"
  shows "bio_ok H s'" "content s' = content s"
proof -
  note d = bio_okD [OF ok]
  have f: "is_for n (bufs s' ! j) = is_for n (bufs s ! j)" "valid (bufs s' ! j) = valid (bufs s ! j)" "dirty (bufs s' ! j) = dirty (bufs s ! j)"
    "bdata (bufs s' ! j) = bdata (bufs s ! j)" "bdev (bufs s' ! j) = bdev (bufs s ! j)" "bblockno (bufs s' ! j) = bblockno (bufs s ! j)"
    "brefcnt (bufs s' ! j) = brefcnt (bufs s ! j)" if "j < NBUF" for j n
    using same [OF that] by (auto simp: is_for_def valid_def dirty_def)
  have h: "holdingsleep l s' = holdingsleep l s" for l by (simp add: holdingsleep_def fr)
  show "bio_ok H s'" using ok r unfolding bio_ok_def h fr(1,3) by (auto simp: f)
  have len: "length (bufs s') = length (bufs s)" using d(11) ringD(4) [OF r(1)] by simp
  show "content s' = content s"
  proof
    fix n
    have e: "scan (\<lambda>b. is_for n b \<and> valid b) (take NBUF (bufs s')) = scan (\<lambda>b. is_for n b \<and> valid b) (take NBUF (bufs s))"
      using len by (intro scan_cong) (simp_all add: f)
    show "content s' n = content s n"
    proof (cases "scan (\<lambda>b. is_for n b \<and> valid b) (take NBUF (bufs s))")
      case None
      then show ?thesis unfolding content_def e by (simp add: fr del: scan_None_iff)
    next
      case (Some k)
      then have "k < NBUF" using scan_SomeD [OF Some] by simp
      then show ?thesis unfolding content_def e Some by (simp add: f)
    qed
  qed
qed

definition woken :: "proc list \<Rightarrow> proc list \<Rightarrow> bool" where
  "woken ps ps' \<longleftrightarrow> length ps' = length ps \<and>
     (\<forall>i < length ps. ps' ! i = ps ! i \<or> pstate (ps ! i) = SLEEPING \<and> ps' ! i = (ps ! i)\<lparr>pstate := RUNNABLE\<rparr>)"

text \<open>What calls of the cache may change: processes wake up, buffers, their locks, and the disk change.\<close>

definition bio_only :: "'a bio_state_scheme \<Rightarrow> 'a bio_state_scheme \<Rightarrow> bool" where
  "bio_only s s' \<longleftrightarrow> (\<exists>ps sl bf dk tr. s' = s\<lparr>procs := ps, slocks := sl, bufs := bf, disk := dk, trace := tr\<rparr> \<and>
     woken (procs s) ps \<and> (\<forall>l. (\<forall>i. l \<noteq> BufLock i) \<longrightarrow> sl l = slocks s l))"

lemma woken_refl [simp]: "woken ps ps" by (simp add: woken_def)

lemma woken_trans: "woken ps qs \<Longrightarrow> woken qs rs \<Longrightarrow> woken ps rs"
  unfolding woken_def by fastforce

lemma woken_wakeup: "woken (procs s) (procs (wakeup ch s))"
  by (auto simp: woken_def wakeup_def wakeup1_nth)

lemma bio_only_refl [simp]: "bio_only s s"
  unfolding bio_only_def
  by (intro exI [of _ "procs s"] exI [of _ "slocks s"] exI [of _ "bufs s"] exI [of _ "disk s"] exI [of _ "trace s"]) simp

lemma bio_only_trans: "bio_only s s' \<Longrightarrow> bio_only s' s'' \<Longrightarrow> bio_only s s''"
proof -
  assume "bio_only s s'" "bio_only s' s''"
  then obtain ps sl bf dk tr ps' sl' bf' dk' tr' where
    1: "s' = s\<lparr>procs := ps, slocks := sl, bufs := bf, disk := dk, trace := tr\<rparr>" "woken (procs s) ps" "\<forall>l. (\<forall>i. l \<noteq> BufLock i) \<longrightarrow> sl l = slocks s l"
    and 2: "s'' = s'\<lparr>procs := ps', slocks := sl', bufs := bf', disk := dk', trace := tr'\<rparr>" "woken (procs s') ps'" "\<forall>l. (\<forall>i. l \<noteq> BufLock i) \<longrightarrow> sl' l = slocks s' l"
    unfolding bio_only_def by metis
  have "s'' = s\<lparr>procs := ps', slocks := sl', bufs := bf', disk := dk', trace := tr'\<rparr>" using 1 2 by simp
  moreover have "woken (procs s) ps'" using 1 2 woken_trans by simp
  moreover have "\<forall>l. (\<forall>i. l \<noteq> BufLock i) \<longrightarrow> sl' l = slocks s l" using 1 2(3) by simp
  ultimately show ?thesis unfolding bio_only_def by blast
qed


lemma bio_onlyI:
  "s' = s\<lparr>procs := procs s', slocks := slocks s', bufs := bufs s', disk := disk s', trace := trace s'\<rparr> \<Longrightarrow> woken (procs s) (procs s') \<Longrightarrow>
     (\<And>l. (\<And>i. l \<noteq> BufLock i) \<Longrightarrow> slocks s' l = slocks s l) \<Longrightarrow> bio_only s s'"
  unfolding bio_only_def by blast

lemma bio_only_upd_buf: "bio_only s (upd_buf i f s)"
  by (rule bio_onlyI) (simp_all add: upd_buf_def)

lemma bio_only_slock: "bio_only s (upd_slock (BufLock i) f s)"
  by (rule bio_onlyI) (auto simp: upd_slock_def)

lemma wakeup_bufs [simp]:
  "bufs (wakeup ch s) = bufs s" "disk (wakeup ch s) = disk s" "trace (wakeup ch s) = trace s" "disksize (wakeup ch s) = disksize s"
  "holdingsleep l (wakeup ch t) = holdingsleep l t"
  by (simp_all add: wakeup_def wakeup1_def holdingsleep_def)

lemma bio_only_wakeup: "bio_only s (wakeup ch s)"
  by (rule bio_onlyI) (simp_all add: woken_wakeup, simp add: wakeup_def wakeup1_def)

lemma bio_only_got: "bio_only s (got i f s)"
  unfolding got_def using bio_only_trans [OF bio_only_upd_buf bio_only_slock] .

lemma bio_only_iderw: "iderw i s = Ret s' \<Longrightarrow> bio_only s s'"
  by (auto simp: iderw_eq Let_def upd_buf_def split: if_splits intro!: bio_onlyI)

lemma upd_slock_bufs [simp]:
  "bufs (upd_slock l f s) = bufs s" "disk (upd_slock l f s) = disk s" "trace (upd_slock l f s) = trace s" "disksize (upd_slock l f s) = disksize s"
  by (simp_all add: upd_slock_def)

lemma holding_upd_slock [simp]: "holdingsleep l (upd_slock k f s) = (if l = k then slocked (f (slocks s k)) \<noteq> 0 else holdingsleep l s)"
  by (simp add: holdingsleep_def)

lemma got_simps [simp]:
  "bufs (got i f s) = (bufs s)[i := f (bufs s ! i)]" "disk (got i f s) = disk s" "trace (got i f s) = trace s" "disksize (got i f s) = disksize s"
  "curproc (got i f s) = curproc s" "holdingsleep (BufLock j) (got i f s) = (j = i \<or> holdingsleep (BufLock j) s)"
  by (simp_all add: got_def)

text \<open>The dirty blocks: those the cache must not forget.\<close>

definition dirty_blocks :: "'a bio_state_scheme \<Rightarrow> u32 set" where
  "dirty_blocks s = {n. \<exists>i < NBUF. is_for n (bufs s ! i) \<and> dirty (bufs s ! i)}"

lemma dirty_blocks_iff:
  assumes "bio_ok H s" "i < NBUF" "is_for n (bufs s ! i)"
  shows "n \<in> dirty_blocks s \<longleftrightarrow> dirty (bufs s ! i)"
proof
  assume "n \<in> dirty_blocks s"
  then obtain j where "j < NBUF" "is_for n (bufs s ! j)" "dirty (bufs s ! j)" unfolding dirty_blocks_def by blast
  then show "dirty (bufs s ! i)" using bio_okD(4) [OF assms(1,2) \<open>j < NBUF\<close> assms(3)] by simp
qed (use assms in \<open>auto simp: dirty_blocks_def\<close>)

lemma dirty_blocks_change:
  assumes "length (bufs s) = NBUF + 1" "i < NBUF" "bufs s' = (bufs s)[i := q]"
    "\<not> dirty (bufs s ! i) \<or> is_for n (bufs s ! i)" "\<not> dirty q \<or> is_for n q" "n \<in> D \<longleftrightarrow> dirty q"
    "\<And>j. j < NBUF \<Longrightarrow> j \<noteq> i \<Longrightarrow> \<not> is_for n (bufs s ! j)"
    "\<And>m. m \<noteq> n \<Longrightarrow> m \<in> D \<longleftrightarrow> m \<in> dirty_blocks s"
  shows "dirty_blocks s' = D"
proof (rule set_eqI)
  fix m
  have nth: "bufs s' ! j = (if j = i then q else bufs s ! j)" for j using assms(1-3) by (simp add: nth_list_update)
  have u: "is_for m b \<Longrightarrow> is_for n b \<Longrightarrow> m = n" for b by (simp add: is_for_def)
  show "m \<in> dirty_blocks s' \<longleftrightarrow> m \<in> D"
  proof (cases "m = n")
    case True
    then show ?thesis using assms(2,5-7) unfolding dirty_blocks_def by (auto simp: nth)
  next
    case False
    have "is_for m (bufs s' ! j) \<and> dirty (bufs s' ! j) \<longleftrightarrow> is_for m (bufs s ! j) \<and> dirty (bufs s ! j)" for j
      using u [of q] u [of "bufs s ! i"] False assms(4,5) by (cases "j = i") (auto simp: nth)
    then have "m \<in> dirty_blocks s' \<longleftrightarrow> m \<in> dirty_blocks s" unfolding dirty_blocks_def mem_Collect_eq by simp
    then show ?thesis using assms(8) False by simp
  qed
qed


section \<open>Reading a block\<close>

lemma bio_ok_refetch:
  assumes ok: "bio_ok H s" and i: "i < NBUF" "i \<notin> H" and b: "bufs s' = (bufs s)[i := q]"
    and links: "bnext q = bnext (bufs s ! i)" "bprev q = bprev (bufs s ! i)"
    and fr: "curproc s' = curproc s" "disk s' = disk s" "\<And>j. holdingsleep (BufLock j) s' = (j = i \<or> holdingsleep (BufLock j) s)"
    and q: "is_for n q" "valid q" "brefcnt q = 1" "bdata q = content s n"
    and was: "is_for n (bufs s ! i) \<and> dirty q = dirty (bufs s ! i) \<or> (\<forall>j < NBUF. \<not> is_for n (bufs s ! j)) \<and> \<not> dirty (bufs s ! i) \<and> \<not> dirty q"
  shows "bio_ok (insert i H) s'" "content s' = content s" "dirty_blocks s' = dirty_blocks s" "length (content s n) = BSIZE"
proof -
  note d = bio_okD [OF ok]
  have uniq: "\<not> is_for n (bufs s ! j)" if "j < NBUF" "j \<noteq> i" for j
    using was d(4) [OF i(1) that(1), of n] that by auto
  have one: "is_for m q \<Longrightarrow> m = n" for m using q(1) by (simp add: is_for_def)
  have clen: "length (content s m) = BSIZE" for m
  proof (cases "scan (\<lambda>b. is_for m b \<and> valid b) (take NBUF (bufs s))")
    case None
    then show ?thesis unfolding content_def None using d(6) by simp
  next
    case (Some k)
    then show ?thesis unfolding content_def Some using scan_SomeD [OF Some] d(5) by simp
  qed
  then show "length (content s n) = BSIZE" .
  have use: "brefcnt q = 1 \<and> holdingsleep (BufLock i) s' \<and> valid q \<and> bdev q = 1" using q fr(3) by (simp add: is_for_def)
  have uniq': "\<not> is_for m q" if "j < NBUF" "j \<noteq> i" "is_for m (bufs s ! j)" for j m
    using uniq [OF that(1,2)] one [of m] that(3) by auto
  note C = bio_ok_change [OF ok i(1) b links fr(1), of "insert i H"]
  show ok': "bio_ok (insert i H) s'"
    by (rule C(1)) (simp_all add: fr(2,3) d(6) q(2,4) clen use uniq')
  have other: "content s' m = content s m" if "\<not> is_for m (bufs s ! i)" "m \<noteq> n" for m
    by (rule C(2) [OF _ _ _ _ _ _ _ _ _ _ that(1)]) (use one [of m] that(2) in \<open>auto simp: fr(2,3) d(6) q(2,4) clen use uniq'\<close>)
  have nth: "bufs s' ! j = (if j = i then q else bufs s ! j)" for j using d(11) i(1) by (simp add: b nth_list_update)
  show "content s' = content s"
  proof
    fix m
    show "content s' m = content s m"
    proof (cases "m = n")
      case True
      then show ?thesis using content_cached [OF ok' i(1), of n] q by (simp add: nth)
    next
      case m: False
      show ?thesis
      proof (cases "is_for m (bufs s ! i)")
        case True
        have nd: "\<not> dirty (bufs s ! i)" using was True m by (auto simp: is_for_def)
        have no: "\<not> is_for m (bufs s ! j)" if "j < NBUF" "j \<noteq> i" for j using d(4) [OF i(1) that(1) True] that by auto
        have "\<not> is_for m (bufs s' ! j)" if "j < NBUF" for j using no [OF that] one [of m] m by (auto simp: nth)
        then have "content s' m = disk s m" using content_uncached [of s' m] d(11) fr(2) by (simp add: b)
        moreover have "content s m = disk s m"
        proof (cases "valid (bufs s ! i)")
          case V: True
          then show ?thesis using content_cached [OF ok i(1) True V] d(8) [OF i V _ nd] True by (simp add: is_for_def)
        next
          case False
          then have "\<And>j. j < NBUF \<Longrightarrow> is_for m (bufs s ! j) \<Longrightarrow> \<not> valid (bufs s ! j)" using no by metis
          then show ?thesis by (rule content_uncached [OF d(11)])
        qed
        ultimately show ?thesis by simp
      next
        case False
        then show ?thesis using other m by blast
      qed
    qed
  qed
  show "dirty_blocks s' = dirty_blocks s"
  proof (rule dirty_blocks_change [OF d(11) i(1) b, of n])
    show "n \<in> dirty_blocks s \<longleftrightarrow> dirty q"
      using was dirty_blocks_iff [OF ok i(1), of n] by (auto simp: dirty_blocks_def)
  qed (use was q(1) uniq in auto)
qed


lemma content_invalid:
  assumes "bio_ok H s" "i < NBUF" "is_for n (bufs s ! i)" "\<not> valid (bufs s ! i)"
  shows "content s n = disk s n"
proof (rule content_uncached [OF bio_okD(11) [OF assms(1)]])
  fix j assume "j < NBUF" "is_for n (bufs s ! j)"
  then show "\<not> valid (bufs s ! j)" using bio_okD(4) [OF assms(1,2) \<open>j < NBUF\<close> assms(3)] assms(4) by simp
qed

lemma bread_cases:
  assumes ok: "bio_ok H s" and r: "bread 1 n s = Ret (i, s')"
  obtains q where "i < NBUF" "i \<notin> H" "bufs s' = (bufs s)[i := q]" "bnext q = bnext (bufs s ! i)" "bprev q = bprev (bufs s ! i)"
    "curproc s' = curproc s" "disk s' = disk s" "trace s' = trace s" "\<forall>j. holdingsleep (BufLock j) s' = (j = i \<or> holdingsleep (BufLock j) s)"
    "is_for n q" "valid q" "brefcnt q = 1" "bdata q = content s n" "bio_only s s'"
    "is_for n (bufs s ! i) \<and> dirty q = dirty (bufs s ! i) \<or> (\<forall>j < NBUF. \<not> is_for n (bufs s ! j)) \<and> \<not> dirty (bufs s ! i) \<and> \<not> dirty q"
proof -
  note d = bio_okD [OF ok]
  obtain xs where xs: "ring s xs" "set xs = {..<NBUF}" using d(1) by blast
  have fetch: "s' = upd_buf i (\<lambda>c. c\<lparr>bdata := disk s n, bflags := bflags c OR 2\<rparr>) t \<and> bio_only s s'"
    if g: "bget 1 n s = Ret (i, t)" "bio_only s t" "is_for n (bufs t ! i)" "\<not> valid (bufs t ! i)" "\<not> dirty (bufs t ! i)" "disk t = disk s" for t
  proof -
    have "iderw i t = Ret s'" using r g(1,4) by (auto simp: bread_def valid_def flag_and obind_eq_Ret)
    moreover from this have "s' = upd_buf i (\<lambda>c. c\<lparr>bdata := disk s n, bflags := bflags c OR 2\<rparr>) t"
      using g(3-6) by (auto simp: iderw_eq Let_def is_for_def split: if_splits)
    ultimately show ?thesis using bio_only_trans [OF g(2) bio_only_iderw] by simp
  qed
  from ok xs show ?thesis
  proof (cases rule: bget_cases [where n = n])
    case (hit k)
    have k: "k = i" using r hit(4) by (auto simp: bread_def obind_eq_Ret split: if_splits)
    let ?t = "got k (\<lambda>b. b\<lparr>brefcnt := brefcnt b + 1\<rparr>) s"
    have bt: "bufs ?t ! k = (bufs s ! k)\<lparr>brefcnt := 1\<rparr>" using hit(1) d(11) d(10) [OF hit(1,2)] by simp
    have f: "is_for n (bufs ?t ! k)" "valid (bufs ?t ! k) = valid (bufs s ! k)" "dirty (bufs ?t ! k) = dirty (bufs s ! k)"
      using hit(3) unfolding bt by (simp_all add: is_for_def valid_def dirty_def)
    show ?thesis
    proof (cases "valid (bufs s ! k)")
      case True
      have s': "s' = ?t" using r True f(2) unfolding bread_def hit(4) by (auto simp: valid_def flag_and)
      show ?thesis
        by (rule that [of "(bufs s ! k)\<lparr>brefcnt := 1\<rparr>"])
          (use hit k bt f True content_cached [OF ok hit(1,3) True] d(10) [OF hit(1,2)] in
            \<open>auto simp: s' bio_only_got is_for_def valid_def dirty_def\<close>)
    next
      case False
      then have nd: "\<not> dirty (bufs s ! k)" using d(7) [OF hit(1)] by blast
      have F: "s' = upd_buf i (\<lambda>c. c\<lparr>bdata := disk s n, bflags := bflags c OR 2\<rparr>) ?t \<and> bio_only s s'"
        by (rule fetch) (use hit(4) k f False nd bio_only_got in auto)
      show ?thesis
        by (rule that [of "(bufs s ! k)\<lparr>brefcnt := 1, bdata := disk s n, bflags := bflags (bufs s ! k) OR 2\<rparr>"])
          (use F hit(1-3) k nd d(11) d(10) [OF hit(1,2)] content_invalid [OF ok hit(1,3) False] in
            \<open>auto simp: is_for_def valid_def dirty_def flag_bits'\<close>)
    qed
  next
    case (held k)
    then show ?thesis using r by (auto simp: bread_def obind_eq_Ret)
  next
    case (miss k)
    have k: "k = i" using r miss(6) by (auto simp: bread_def obind_eq_Ret split: if_splits)
    let ?t = "got k (\<lambda>b. b\<lparr>bdev := 1, bblockno := n, bflags := 0, brefcnt := 1\<rparr>) s"
    have bt: "bufs ?t ! k = (bufs s ! k)\<lparr>bdev := 1, bblockno := n, bflags := 0, brefcnt := 1\<rparr>" using miss(2) d(11) by simp
    have F: "s' = upd_buf i (\<lambda>c. c\<lparr>bdata := disk s n, bflags := bflags c OR 2\<rparr>) ?t \<and> bio_only s s'"
      by (rule fetch) (use miss(6) k bio_only_got bt in \<open>auto simp: is_for_def valid_def dirty_def\<close>)
    have c: "content s n = disk s n" using content_uncached [OF d(11)] miss(1) by blast
    show ?thesis
      by (rule that [of "(bufs s ! k)\<lparr>bdev := 1, bblockno := n, brefcnt := 1, bdata := disk s n, bflags := 0 OR 2\<rparr>"])
        (use F miss(1-4) k d(11) c in \<open>auto simp: is_for_def valid_def dirty_def flag_bits' bit_24\<close>)
  next
    case full
    then show ?thesis using r by (simp add: bread_def)
  qed
qed

lemma bread_spec:
  assumes ok: "bio_ok H s" and r: "bread 1 n s = Ret (i, s')"
  shows "i < NBUF" "i \<notin> H" "bio_ok (insert i H) s'" "is_for n (bufs s' ! i)" "bdata (bufs s' ! i) = content s n"
    "content s' = content s" "disk s' = disk s" "trace s' = trace s" "dirty_blocks s' = dirty_blocks s"
    "\<And>j. j \<noteq> i \<Longrightarrow> bufs s' ! j = bufs s ! j" "bio_only s s'" "n \<notin> dirty_blocks s \<Longrightarrow> content s n = disk s n"
proof -
  obtain q where q: "i < NBUF" "i \<notin> H" "bufs s' = (bufs s)[i := q]" "bnext q = bnext (bufs s ! i)" "bprev q = bprev (bufs s ! i)"
    "curproc s' = curproc s" "disk s' = disk s" "trace s' = trace s" "\<forall>j. holdingsleep (BufLock j) s' = (j = i \<or> holdingsleep (BufLock j) s)"
    "is_for n q" "valid q" "brefcnt q = 1" "bdata q = content s n" "bio_only s s'"
    "is_for n (bufs s ! i) \<and> dirty q = dirty (bufs s ! i) \<or> (\<forall>j < NBUF. \<not> is_for n (bufs s ! j)) \<and> \<not> dirty (bufs s ! i) \<and> \<not> dirty q" by (rule bread_cases [OF ok r])
  note R = bio_ok_refetch [OF ok q(1-7) q(9) [rule_format] q(10-13,15)]
  show "i < NBUF" "i \<notin> H" "disk s' = disk s" "trace s' = trace s" "bio_only s s'" using q by simp_all
  show "bio_ok (insert i H) s'" "content s' = content s" "dirty_blocks s' = dirty_blocks s" using R by simp_all
  have "i < length (bufs s)" using q(1) bio_okD(11) [OF ok] by simp
  then show "is_for n (bufs s' ! i)" "bdata (bufs s' ! i) = content s n" using q(3,10,13) by simp_all
  show "\<And>j. j \<noteq> i \<Longrightarrow> bufs s' ! j = bufs s ! j" by (simp add: q(3))
  show "content s n = disk s n" if "n \<notin> dirty_blocks s"
  proof (cases "\<exists>j < NBUF. is_for n (bufs s ! j) \<and> valid (bufs s ! j)")
    case True
    then obtain j where j: "j < NBUF" "is_for n (bufs s ! j)" "valid (bufs s ! j)" by blast
    have "\<not> dirty (bufs s ! j)" using dirty_blocks_iff [OF ok j(1,2)] that by simp
    moreover have "j \<notin> H"
    proof
      assume "j \<in> H"
      have "j = i" using bio_okD(4) [OF ok q(1) j(1), of n] j(2) q(15) j(1) by auto
      then show False using q(2) \<open>j \<in> H\<close> by simp
    qed
    ultimately show ?thesis using bio_okD(8) [OF ok j(1)] j content_cached [OF ok j] by (simp add: is_for_def)
  next
    case False
    then show ?thesis using content_uncached [OF bio_okD(11) [OF ok]] by blast
  qed
qed


lemma bread_returns:
  assumes ok: "bio_ok H s" and n: "n < disksize s" and free: "\<And>i. i \<in> H \<Longrightarrow> \<not> is_for n (bufs s ! i)"
    and room: "\<exists>i < NBUF. i \<notin> H \<and> (\<not> dirty (bufs s ! i) \<or> is_for n (bufs s ! i))"
  shows "\<exists>i s'. bread 1 n s = Ret (i, s')"
proof -
  note d = bio_okD [OF ok]
  obtain xs where xs: "ring s xs" "set xs = {..<NBUF}" using d(1) by blast
  have fetch: "\<exists>i s'. bread 1 n s = Ret (i, s')"
    if g: "bget 1 n s = Ret (i, t)" "is_for n (bufs t ! i)" "dirty (bufs t ! i) \<longrightarrow> valid (bufs t ! i)" "disksize t = disksize s" "holdingsleep (BufLock i) t" for i t
    using g n by (auto simp: bread_def iderw_eq Let_def is_for_def valid_def flag_and)
  from ok xs show ?thesis
  proof (cases rule: bget_cases [where n = n])
    case (hit i)
    show ?thesis by (rule fetch [OF hit(4)]) (use hit(1,3) d(7) [OF hit(1)] d(11) in \<open>auto simp: is_for_def valid_def dirty_def\<close>)
  next
    case (held i)
    then show ?thesis using free by blast
  next
    case (miss i)
    show ?thesis by (rule fetch [OF miss(6)]) (use miss(2) d(11) in \<open>auto simp: is_for_def valid_def dirty_def\<close>)
  next
    case full
    then show ?thesis using room by blast
  qed
qed

section \<open>Changing, writing and releasing a block\<close>

lemma set_data_spec:
  assumes ok: "bio_ok H s" and i: "i \<in> H" and n: "is_for n (bufs s ! i)" and len: "length bs = BSIZE"
  shows "bio_ok H (upd_buf i (\<lambda>b. b\<lparr>bdata := bs\<rparr>) s)"
    "content (upd_buf i (\<lambda>b. b\<lparr>bdata := bs\<rparr>) s) = (content s)(n := bs)"
    "dirty_blocks (upd_buf i (\<lambda>b. b\<lparr>bdata := bs\<rparr>) s) = dirty_blocks s"
    "is_for n (bufs (upd_buf i (\<lambda>b. b\<lparr>bdata := bs\<rparr>) s) ! i)"
proof -
  note d = bio_okD [OF ok]
  let ?s = "upd_buf i (\<lambda>b. b\<lparr>bdata := bs\<rparr>) s" and ?q = "(bufs s ! i)\<lparr>bdata := bs\<rparr>"
  have lt: "i < NBUF" using d(2) i .
  have b: "bufs ?s = (bufs s)[i := ?q]" by simp
  have q: "is_for m ?q = is_for m (bufs s ! i)" "dirty ?q = dirty (bufs s ! i)" "valid ?q = valid (bufs s ! i)" for m
    by (simp_all add: is_for_def dirty_def valid_def)
  have uniq: "\<not> is_for m (bufs s ! i)" if "j < NBUF" "j \<noteq> i" "is_for m (bufs s ! j)" for j m
    using d(4) [OF that(1) lt that(3)] that(2) by auto
  note C = bio_ok_change [OF ok lt b, of H]
  show ok': "bio_ok H ?s" by (rule C(1)) (use i d(9) [OF i] in \<open>simp_all add: d(6) len q uniq\<close>)
  show "is_for n (bufs ?s ! i)" using lt d(11) n by (simp add: q)
  show "content ?s = (content s)(n := bs)"
  proof
    fix m
    show "content ?s m = ((content s)(n := bs)) m"
    proof (cases "m = n")
      case True
      then show ?thesis using content_cached [OF ok' lt, of n] lt d(9) [OF i] d(11) n by (simp add: q)
    next
      case False
      then have m: "\<not> is_for m (bufs s ! i)" using n by (simp add: is_for_def)
      have "content ?s m = content s m"
        by (rule C(2)) (use i d(9) [OF i] m in \<open>simp_all add: d(6) len q uniq\<close>)
      with False show ?thesis by simp
    qed
  qed
  show "dirty_blocks ?s = dirty_blocks s"
    by (rule dirty_blocks_change [OF d(11) lt b, of n]) (use n dirty_blocks_iff [OF ok lt n] d(4) [OF _ lt _ n] in \<open>auto simp: q\<close>)
qed

lemma set_dirty_spec:
  assumes ok: "bio_ok H s" and i: "i \<in> H" and n: "is_for n (bufs s ! i)"
  shows "bio_ok H (upd_buf i (\<lambda>b. b\<lparr>bflags := bflags b OR 4\<rparr>) s)"
    "content (upd_buf i (\<lambda>b. b\<lparr>bflags := bflags b OR 4\<rparr>) s) = content s"
    "dirty_blocks (upd_buf i (\<lambda>b. b\<lparr>bflags := bflags b OR 4\<rparr>) s) = insert n (dirty_blocks s)"
    "is_for n (bufs (upd_buf i (\<lambda>b. b\<lparr>bflags := bflags b OR 4\<rparr>) s) ! i)"
proof -
  note d = bio_okD [OF ok]
  let ?s = "upd_buf i (\<lambda>b. b\<lparr>bflags := bflags b OR 4\<rparr>) s" and ?q = "(bufs s ! i)\<lparr>bflags := bflags (bufs s ! i) OR 4\<rparr>"
  have lt: "i < NBUF" using d(2) i .
  have b: "bufs ?s = (bufs s)[i := ?q]" by simp
  have q: "is_for m ?q = is_for m (bufs s ! i)" "dirty ?q" "valid ?q = valid (bufs s ! i)" for m
    by (simp_all add: is_for_def dirty_def valid_def flag_bits')
  have uniq: "\<not> is_for m (bufs s ! i)" if "j < NBUF" "j \<noteq> i" "is_for m (bufs s ! j)" for j m
    using d(4) [OF that(1) lt that(3)] that(2) by auto
  note C = bio_ok_change [OF ok lt b, of H]
  show ok': "bio_ok H ?s" by (rule C(1)) (use i d(9) [OF i] in \<open>simp_all add: d(5) [OF lt] d(6) q uniq\<close>)
  show "is_for n (bufs ?s ! i)" using lt d(11) n by (simp add: q)
  show "content ?s = content s"
  proof
    fix m
    show "content ?s m = content s m"
    proof (cases "m = n")
      case True
      then show ?thesis
        using content_cached [OF ok' lt, of n] content_cached [OF ok lt n] lt d(9) [OF i] d(11) n by (simp add: q)
    next
      case False
      then have m: "\<not> is_for m (bufs s ! i)" using n by (simp add: is_for_def)
      show ?thesis by (rule C(2)) (use i d(9) [OF i] m in \<open>simp_all add: d(5) [OF lt] d(6) q uniq\<close>)
    qed
  qed
  show "dirty_blocks ?s = insert n (dirty_blocks s)"
    by (rule dirty_blocks_change [OF d(11) lt b, of n]) (use n d(4) [OF _ lt _ n] in \<open>auto simp: q\<close>)
qed

lemma bwrite_spec:
  assumes ok: "bio_ok H s" and i: "i \<in> H" and n: "is_for n (bufs s ! i)" "n < disksize s"
  shows "\<exists>s'. bwrite i s = Ret s' \<and> bio_ok H s' \<and> content s' = content s \<and> dirty_blocks s' = dirty_blocks s - {n} \<and>
    disk s' = (disk s)(n := content s n) \<and> trace s' = trace s @ [(n, content s n)] \<and> bio_only s s' \<and>
    (\<forall>m. \<forall>j. is_for m (bufs s' ! j) = is_for m (bufs s ! j))"
proof -
  note d = bio_okD [OF ok]
  define q where "q = (bufs s ! i)\<lparr>bflags := ((bflags (bufs s ! i) OR 4) AND NOT 4) OR 2\<rparr>"
  define t where "t = (upd_buf i (\<lambda>_. q) s)\<lparr>disk := (disk s)(n := content s n), trace := trace s @ [(n, content s n)]\<rparr>"
  have lt: "i < NBUF" using d(2) i .
  have c: "content s n = bdata (bufs s ! i)" using content_cached [OF ok lt n(1)] d(9) [OF i] by simp
  have w: "bwrite i s = Ret t"
    using d(9) [OF i] n lt d(11) c
    by (auto simp: t_def q_def bwrite_def iderw_eq Let_def dirty_def flag_bits' is_for_def upd_buf_def holdingsleep_def)
  have b: "bufs t = (bufs s)[i := q]" by (simp add: t_def)
  have q: "is_for m q = is_for m (bufs s ! i)" "\<not> dirty q" "valid q" "bnext q = bnext (bufs s ! i)" "bprev q = bprev (bufs s ! i)"
    "bdata q = bdata (bufs s ! i)" "brefcnt q = brefcnt (bufs s ! i)" "bdev q = bdev (bufs s ! i)" for m
    unfolding q_def by (simp_all add: is_for_def dirty_def valid_def flag_bits')
  have uniq: "\<not> is_for m (bufs s ! i)" if "j < NBUF" "j \<noteq> i" "is_for m (bufs s ! j)" for j m
    using d(4) [OF that(1) lt that(3)] that(2) by auto
  have len: "length (content s n) = BSIZE" using c d(5) [OF lt] by simp
  note C = bio_ok_change [OF ok lt b, of H]
  have side: "curproc t = curproc s" "holdingsleep (BufLock j) t = holdingsleep (BufLock j) s"
    "disk t m \<noteq> disk s m \<Longrightarrow> is_for m (bufs s ! i)" "length (disk t m) = BSIZE" for j m
    using n(1) d(6) len by (auto simp: t_def upd_buf_def curproc_def holdingsleep_def split: if_splits)
  have ok': "bio_ok H t"
    by (rule C(1)) (use i d(9) [OF i] in \<open>simp_all add: side d(5) [OF lt] q uniq\<close>)
  have "content t = content s"
  proof
    fix m
    show "content t m = content s m"
    proof (cases "m = n")
      case True
      then show ?thesis using content_cached [OF ok' lt, of n] lt d(11) n(1) c by (simp add: q b)
    next
      case False
      then have m: "\<not> is_for m (bufs s ! i)" using n(1) by (simp add: is_for_def)
      show ?thesis by (rule C(2)) (use i d(9) [OF i] m in \<open>simp_all add: side d(5) [OF lt] q uniq\<close>)
    qed
  qed
  moreover have "dirty_blocks t = dirty_blocks s - {n}"
    by (rule dirty_blocks_change [OF d(11) lt b, of n]) (use n(1) d(4) [OF _ lt _ n(1)] in \<open>auto simp: q\<close>)
  moreover have "bio_only s t" by (rule bio_onlyI) (simp_all add: t_def upd_buf_def)
  moreover have "is_for m (bufs t ! j) = is_for m (bufs s ! j)" for m j
    using q lt d(11) by (auto simp: b nth_upd_cases)
  ultimately show ?thesis using w ok' by (intro exI [of _ t]) (simp add: t_def)
qed


definition relinked :: "'a bio_state_scheme \<Rightarrow> 'a bio_state_scheme \<Rightarrow> bool" where
  "relinked s s' \<longleftrightarrow> (\<forall>j. \<exists>a b. bufs s' ! j = (bufs s ! j)\<lparr>bnext := a, bprev := b\<rparr>)"

lemma relinked_trans: "relinked s s' \<Longrightarrow> relinked s' s'' \<Longrightarrow> relinked s s''"
  unfolding relinked_def
proof
  fix j assume 1: "\<forall>j. \<exists>a b. bufs s' ! j = (bufs s ! j)\<lparr>bnext := a, bprev := b\<rparr>"
    and 2: "\<forall>j. \<exists>a b. bufs s'' ! j = (bufs s' ! j)\<lparr>bnext := a, bprev := b\<rparr>"
  from 1 2 obtain a b c d where "bufs s' ! j = (bufs s ! j)\<lparr>bnext := a, bprev := b\<rparr>"
    "bufs s'' ! j = (bufs s' ! j)\<lparr>bnext := c, bprev := d\<rparr>" by blast
  then show "\<exists>a b. bufs s'' ! j = (bufs s ! j)\<lparr>bnext := a, bprev := b\<rparr>" by auto
qed

lemma relinked_same: "(\<And>j. bufs s' ! j = bufs s ! j) \<Longrightarrow> relinked s s'"
  unfolding relinked_def
proof
  fix j assume "\<And>j. bufs s' ! j = bufs s ! j"
  then show "\<exists>a b. bufs s' ! j = (bufs s ! j)\<lparr>bnext := a, bprev := b\<rparr>"
    by (intro exI [of _ "bnext (bufs s ! j)"] exI [of _ "bprev (bufs s ! j)"]) simp
qed

lemma relinked_upd:
  assumes "\<And>b. \<exists>x y. f b = b\<lparr>bnext := x, bprev := y\<rparr>"
  shows "relinked s (upd_buf i f s)"
  unfolding relinked_def
proof
  fix j
  have e: "\<exists>a b. bufs s ! j = (bufs s ! j)\<lparr>bnext := a, bprev := b\<rparr>"
    by (rule exI [of _ "bnext (bufs s ! j)"], rule exI [of _ "bprev (bufs s ! j)"]) simp
  show "\<exists>a b. bufs (upd_buf i f s) ! j = (bufs s ! j)\<lparr>bnext := a, bprev := b\<rparr>"
  proof (cases "i < length (bufs s) \<and> i = j")
    case True
    then show ?thesis using assms [of "bufs s ! j"] by simp
  next
    case False
    then have "bufs (upd_buf i f s) ! j = bufs s ! j" by (auto simp: nth_upd_cases)
    then show ?thesis using e by simp
  qed
qed

lemma relinked_links: "relinked s (link_front i s)" "relinked s (unlink i s)"
proof -
  have n: "\<exists>x y. b\<lparr>bnext := v\<rparr> = b\<lparr>bnext := x, bprev := y\<rparr>" and p: "\<exists>x y. b\<lparr>bprev := v\<rparr> = b\<lparr>bnext := x, bprev := y\<rparr>" for b v
    by (rule exI [of _ v], rule exI [of _ "bprev b"], simp) (rule exI [of _ "bnext b"], rule exI [of _ v], simp)
  show "relinked s (link_front i s)" "relinked s (unlink i s)"
    unfolding link_front_def unlink_def Let_def by (intro relinked_trans [OF _ relinked_upd] relinked_upd n p)+
qed

lemma link_frame [simp]:
  "curproc (link_front i (unlink i s)) = curproc s" "slocks (link_front i (unlink i s)) = slocks s"
  "disk (link_front i (unlink i s)) = disk s" "trace (link_front i (unlink i s)) = trace s"
  by (simp_all add: link_front_def unlink_def Let_def)

lemma bio_only_links: "bio_only s (link_front i (unlink i s))"
  unfolding link_front_def unlink_def Let_def by (intro bio_only_trans [OF _ bio_only_upd_buf] bio_only_upd_buf)

lemma brelse_spec:
  assumes ok: "bio_ok H s" and i: "i \<in> H" and n: "is_for n (bufs s ! i)" and clean: "n \<in> dirty_blocks s \<or> content s n = disk s n"
  shows "\<exists>s'. brelse i s = Ret s' \<and> bio_ok (H - {i}) s' \<and> content s' = content s \<and> dirty_blocks s' = dirty_blocks s \<and>
    disk s' = disk s \<and> trace s' = trace s \<and> bio_only s s' \<and> (\<forall>m. \<forall>j. is_for m (bufs s' ! j) = is_for m (bufs s ! j))"
proof -
  note d = bio_okD [OF ok]
  define q where "q = (bufs s ! i)\<lparr>brefcnt := 0\<rparr>"
  define t where "t = upd_buf i (\<lambda>b. b\<lparr>brefcnt := brefcnt b - 1\<rparr>) (releasesleep (BufLock i) s)"
  have lt: "i < NBUF" using d(2) i .
  have r: "bufs (releasesleep (BufLock i) s) = bufs s" by (simp add: releasesleep_def)
  have b: "bufs t = (bufs s)[i := q]" using d(9) [OF i] by (simp add: t_def q_def r)
  have q: "is_for m q = is_for m (bufs s ! i)" "dirty q = dirty (bufs s ! i)" "valid q = valid (bufs s ! i)" "bnext q = bnext (bufs s ! i)"
    "bprev q = bprev (bufs s ! i)" "bdata q = bdata (bufs s ! i)" "brefcnt q = 0" "bdev q = bdev (bufs s ! i)" "bblockno q = bblockno (bufs s ! i)" for m
    unfolding q_def by (simp_all add: is_for_def dirty_def valid_def)
  have c: "content s n = bdata (bufs s ! i)" using content_cached [OF ok lt n] d(9) [OF i] by simp
  have uniq: "\<not> is_for m (bufs s ! i)" if "j < NBUF" "j \<noteq> i" "is_for m (bufs s ! j)" for j m
    using d(4) [OF that(1) lt that(3)] that(2) by auto
  have side: "curproc t = curproc s" "holdingsleep (BufLock j) t \<longleftrightarrow> j \<noteq> i \<and> holdingsleep (BufLock j) s" "disk t = disk s" "trace t = trace s" for j
    by (simp_all add: t_def releasesleep_def)
  have cl: "\<not> dirty (bufs s ! i) \<Longrightarrow> bdata (bufs s ! i) = disk s (bblockno (bufs s ! i))"
    using clean dirty_blocks_iff [OF ok lt n] c n by (simp add: is_for_def)
  note C = bio_ok_change [OF ok lt b, of "H - {i}"]
  have ok': "bio_ok (H - {i}) t"
    by (rule C(1)) (use d(9) [OF i] cl in \<open>simp_all add: side d(5) [OF lt] d(6) q uniq\<close>)
  have ct: "content t = content s"
  proof
    fix m
    show "content t m = content s m"
    proof (cases "m = n")
      case True
      then show ?thesis using content_cached [OF ok' lt, of n] lt d(9) [OF i] d(11) n c by (simp add: q b)
    next
      case False
      then have m: "\<not> is_for m (bufs s ! i)" using n by (simp add: is_for_def)
      show ?thesis by (rule C(2)) (use d(9) [OF i] cl m in \<open>simp_all add: side d(5) [OF lt] d(6) q uniq\<close>)
    qed
  qed
  have dt: "dirty_blocks t = dirty_blocks s"
    by (rule dirty_blocks_change [OF d(11) lt b, of n]) (use n dirty_blocks_iff [OF ok lt n] d(4) [OF _ lt _ n] in \<open>auto simp: q\<close>)
  have ot: "bio_only s t"
    unfolding t_def releasesleep_def by (intro bio_only_trans [OF _ bio_only_upd_buf] bio_only_trans [OF _ bio_only_wakeup] bio_only_slock)
  let ?u = "link_front i (unlink i t)"
  have rel: "relinked t ?u" using relinked_trans [OF relinked_links(2) relinked_links(1)] .
  obtain xs where xs: "ring t xs" "set xs = {..<NBUF}" using bio_okD(1) [OF ok'] by blast
  have ru: "ring ?u (i # remove1 i xs)" using ring_to_front [OF xs(1)] xs(2) lt by simp
  have su: "set (i # remove1 i xs) = {..<NBUF}" using xs lt ringD(2) [OF xs(1)] by auto
  have same: "\<And>j. j < NBUF \<Longrightarrow> \<exists>a b. bufs ?u ! j = (bufs t ! j)\<lparr>bnext := a, bprev := b\<rparr>" using rel by (simp add: relinked_def)
  note L = bio_ok_links [OF ok' ru su same]
  have f: "is_for m (bufs ?u ! j) = is_for m (bufs t ! j)" "dirty (bufs ?u ! j) = dirty (bufs t ! j)" for m j
  proof -
    obtain a b where "bufs ?u ! j = (bufs t ! j)\<lparr>bnext := a, bprev := b\<rparr>" using rel unfolding relinked_def by blast
    then show "is_for m (bufs ?u ! j) = is_for m (bufs t ! j)" "dirty (bufs ?u ! j) = dirty (bufs t ! j)"
      by (simp_all add: is_for_def dirty_def)
  qed
  have "brelse i s = Ret ?u"
    using d(9) [OF i] lt d(11) by (simp add: brelse_def t_def [symmetric] Let_def b q r)
  moreover have "bio_ok (H - {i}) ?u" "content ?u = content s" using L ct side by simp_all
  moreover have "dirty_blocks ?u = dirty_blocks s" using dt by (simp add: dirty_blocks_def f)
  moreover have "bio_only s ?u" using bio_only_trans [OF ot bio_only_links] .
  moreover have "is_for m (bufs ?u ! j) = is_for m (bufs s ! j)" for m j
    unfolding f using q lt d(11) by (auto simp: b nth_upd_cases)
  ultimately show ?thesis using side by (intro exI [of _ ?u]) simp
qed


section \<open>The cache after boot\<close>

text \<open>The buffers as the loader leaves them: all zero.\<close>

definition zero_buf :: buf where
  "zero_buf = \<lparr>bflags = 0, bdev = 0, bblockno = 0, brefcnt = 0, bprev = 0, bnext = 0, bdata = replicate BSIZE 0\<rparr>"

lemma initsleeplock_simps [simp]:
  "bufs (initsleeplock l s) = bufs s" "disk (initsleeplock l s) = disk s" "trace (initsleeplock l s) = trace s"
  "curproc (initsleeplock l s) = curproc s" "holdingsleep k (initsleeplock l s) = (k \<noteq> l \<and> holdingsleep k s)"
  by (simp_all add: initsleeplock_def)

lemma link_front_frame [simp]:
  "slocks (link_front i s) = slocks s" "disk (link_front i s) = disk s" "trace (link_front i s) = trace s"
  "curproc (link_front i s) = curproc s" "holdingsleep k (link_front i s) = holdingsleep k s"
  by (simp_all add: link_front_def Let_def)

lemma binit_loop:
  assumes "ring s []"
  shows "k \<le> NBUF \<Longrightarrow> (let t = fold (\<lambda>i s. link_front i (initsleeplock (BufLock i) s)) [0..<k] s in
     ring t (rev [0..<k]) \<and> relinked s t \<and> disk t = disk s \<and> trace t = trace s \<and> curproc t = curproc s \<and>
     (\<forall>i < k. \<not> holdingsleep (BufLock i) t))"
proof (induction k)
  case 0
  show ?case using assms by (simp add: relinked_same)
next
  case (Suc k)
  let ?t = "fold (\<lambda>i s. link_front i (initsleeplock (BufLock i) s)) [0..<k] s"
  let ?u = "initsleeplock (BufLock k) ?t"
  have t: "ring ?t (rev [0..<k])" "relinked s ?t" "disk ?t = disk s" "trace ?t = trace s" "curproc ?t = curproc s"
    "\<forall>i < k. \<not> holdingsleep (BufLock i) ?t" using Suc by (simp_all add: Let_def)
  have "ring ?u (rev [0..<k])" by (rule ring_cong [OF t(1)]) (simp_all add: nxt_def prv_def)
  then have r: "ring (link_front k ?u) (rev [0..<Suc k])" using ring_link [of ?u "rev [0..<k]" k] Suc.prems by simp
  have u: "relinked ?t ?u" by (rule relinked_same) simp
  have "relinked s (link_front k ?u)" by (rule relinked_trans [OF relinked_trans [OF t(2) u] relinked_links(1)])
  with r t show ?case by (auto simp: Let_def less_Suc_eq)
qed

text \<open>The cache \<open>binit\<close> leaves is intact and empty.\<close>

lemma binit_ok:
  assumes "bufs s = replicate (NBUF + 1) zero_buf" "\<And>n. length (disk s n) = BSIZE" "curproc s \<noteq> None"
  shows "bio_ok {} (binit s) \<and> content (binit s) = disk s \<and> disk (binit s) = disk s \<and> dirty_blocks (binit s) = {}"
proof -
  let ?h = "upd_buf HEAD (\<lambda>b. b\<lparr>bprev := HEAD, bnext := HEAD\<rparr>) s"
  have "ring ?h []" using assms(1) by (simp add: ring_def nxt_def prv_def)
  from binit_loop [OF this, of NBUF] have t: "ring (binit s) (rev [0..<NBUF])" "relinked ?h (binit s)" "disk (binit s) = disk s"
    "curproc (binit s) = curproc s" "\<forall>i < NBUF. \<not> holdingsleep (BufLock i) (binit s)" by (simp_all add: binit_def Let_def)
  have z: "\<exists>a b. bufs (binit s) ! j = zero_buf\<lparr>bnext := a, bprev := b\<rparr>" if "j < NBUF" for j
  proof -
    have "bufs ?h ! j = zero_buf" using that assms(1) by simp
    then show ?thesis using t(2) [unfolded relinked_def, rule_format, of j] by simp
  qed
  have f: "\<not> is_for n (bufs (binit s) ! j)" "\<not> valid (bufs (binit s) ! j)" "\<not> dirty (bufs (binit s) ! j)" "brefcnt (bufs (binit s) ! j) = 0"
    "length (bdata (bufs (binit s) ! j)) = BSIZE" if "j < NBUF" for j n
    using z [OF that] by (auto simp: zero_buf_def is_for_def valid_def dirty_def)
  have "bio_ok {} (binit s)" unfolding bio_ok_def using t f assms by (auto intro!: exI [of _ "rev [0..<NBUF]"])
  moreover have "content (binit s) n = disk (binit s) n" for n
    by (rule content_uncached) (use ringD(4) [OF t(1)] f in auto)
  moreover have "dirty_blocks (binit s) = {}" using f by (auto simp: dirty_blocks_def)
  ultimately show ?thesis using t(3) by auto
qed

lemma brelse_ring:
  assumes ok: "bio_ok H s" and i: "i \<in> H" and xs: "ring s xs" "set xs = {..<NBUF}" and r: "brelse i s = Ret s'"
  shows "ring s' (i # remove1 i xs)"
proof -
  note d = bio_okD [OF ok]
  let ?t = "upd_buf i (\<lambda>b. b\<lparr>brefcnt := brefcnt b - 1\<rparr>) (releasesleep (BufLock i) s)"
  have b: "bufs (releasesleep (BufLock i) s) = bufs s" by (simp add: releasesleep_def)
  have "ring ?t xs" by (rule ring_cong [OF xs(1)]) (simp_all add: b nxt_def prv_def nth_upd_cases)
  moreover have "s' = link_front i (unlink i ?t)"
    using r d(9) [OF i] d(2) [OF i] d(11) by (simp add: brelse_def Let_def b)
  ultimately show ?thesis using ring_to_front d(2) [OF i] xs(2) by blast
qed

section \<open>The properties of the cache\<close>

text \<open>
  C4: a block written is the block read back. On an intact cache with a free buffer, reading block \<open>n\<close> yields
  a locked buffer with its content; changing the data, writing and releasing it puts the new data on
  the disk and changes no other block, and reading the block again yields the new data.
\<close>

theorem block_write_read:
  assumes ok: "bio_ok {} s" and n: "n < disksize s" and bs: "length bs = BSIZE" and room: "\<exists>i < NBUF. \<not> dirty (bufs s ! i)"
  shows "\<exists>i s1 s2 s3 j s4. bread 1 n s = Ret (i, s1) \<and> holdingsleep (BufLock i) s1 \<and> bdata (bufs s1 ! i) = content s n \<and>
    bwrite i (upd_buf i (\<lambda>b. b\<lparr>bdata := bs\<rparr>) s1) = Ret s2 \<and> brelse i s2 = Ret s3 \<and>
    disk s3 = (disk s)(n := bs) \<and> content s3 = (content s)(n := bs) \<and>
    bread 1 n s3 = Ret (j, s4) \<and> bdata (bufs s4 ! j) = bs"
proof -
  obtain i s1 where r: "bread 1 n s = Ret (i, s1)" using bread_returns [OF ok n] room by auto
  note R = bread_spec [OF ok r]
  have i: "i \<in> insert i {}" by simp
  note D = set_data_spec [OF R(3) i R(4) bs]
  let ?t = "upd_buf i (\<lambda>b. b\<lparr>bdata := bs\<rparr>) s1"
  obtain ps sl bf dk tr where o1: "s1 = s\<lparr>procs := ps, slocks := sl, bufs := bf, disk := dk, trace := tr\<rparr>"
    using R(11) unfolding bio_only_def by blast
  have n1: "n < disksize ?t" using n by (simp add: o1)
  from bwrite_spec [OF D(1) i D(4) n1] obtain s2 where w: "bwrite i ?t = Ret s2" "bio_ok {i} s2" "content s2 = content ?t"
    "dirty_blocks s2 = dirty_blocks ?t - {n}" "disk s2 = (disk ?t)(n := content ?t n)" "bio_only ?t s2"
    "is_for n (bufs s2 ! i)" using D(4) by auto
  obtain ps' sl' bf' dk' tr' where o2: "s2 = ?t\<lparr>procs := ps', slocks := sl', bufs := bf', disk := dk', trace := tr'\<rparr>"
    using w(6) unfolding bio_only_def by blast
  have cl: "content s2 n = disk s2 n" using w(3,5) by simp
  from brelse_spec [OF w(2) i w(7)] cl obtain s3 where z: "brelse i s2 = Ret s3" "bio_ok ({i} - {i}) s3" "content s3 = content s2"
    "dirty_blocks s3 = dirty_blocks s2" "disk s3 = disk s2" "bio_only s2 s3" by auto
  obtain ps'' sl'' bf'' dk'' tr'' where o3: "s3 = s2\<lparr>procs := ps'', slocks := sl'', bufs := bf'', disk := dk'', trace := tr''\<rparr>"
    using z(6) unfolding bio_only_def by blast
  have n3: "n < disksize s3" using n by (simp add: o3 o2 o1 upd_buf_def)
  have ok3: "bio_ok {} s3" using z(2) by simp
  have "n \<notin> dirty_blocks s3" using w(4) z(4) by simp
  moreover obtain k where k: "k < NBUF" "k = i" using R(1) by blast
  have "is_for n (bufs s3 ! i)" using brelse_spec [OF w(2) i w(7)] cl z(1) w(7) by auto
  ultimately have "\<not> dirty (bufs s3 ! i)" using dirty_blocks_iff [OF ok3 R(1)] by simp
  then obtain j s4 where r4: "bread 1 n s3 = Ret (j, s4)" using bread_returns [OF ok3 n3] R(1) by auto
  have "holdingsleep (BufLock i) s1" using bio_okD(9) [OF R(3) i] by simp
  moreover have "content s3 = (content s)(n := bs)" "disk s3 = (disk s)(n := bs)"
    using z w D R by simp_all
  moreover have "bdata (bufs s4 ! j) = bs" using bread_spec(5) [OF ok3 r4] calculation by simp
  ultimately show ?thesis using r R(5) w(1) z(1) r4 by blast
qed

text \<open>
  C19: the doubly linked list implements a list in order of last use. The walks of \<open>bget\<close>
  always end; a block that is not cached takes over the buffer that was released longest ago among those that
  are neither in use nor dirty, and \<open>bget\<close> panics exactly when there is none;
  \<open>brelse\<close> moves the buffer to the front and keeps the order of all others.
\<close>

theorem bcache_lru:
  assumes ok: "bio_ok H s" and xs: "ring s xs" "set xs = {..<NBUF}"
  shows "bget 1 n s \<noteq> Diverged \<and>
    ((\<forall>j < NBUF. \<not> is_for n (bufs s ! j)) \<longrightarrow>
      (case find (\<lambda>i. i \<notin> H \<and> \<not> dirty (bufs s ! i)) (rev xs) of
         Some i \<Rightarrow> \<exists>s'. bget 1 n s = Ret (i, s') \<and> is_for n (bufs s' ! i) \<and> ring s' xs
       | None \<Rightarrow> bget 1 n s = Panic ''bget: no buffers'')) \<and>
    (\<forall>i s'. i \<in> H \<longrightarrow> brelse i s = Ret s' \<longrightarrow> ring s' (i # remove1 i xs))"
proof (intro conjI allI impI)
  from ok xs show "bget 1 n s \<noteq> Diverged" by (cases rule: bget_cases [where n = n]) simp_all
next
  note d = bio_okD [OF ok]
  assume "\<forall>j < NBUF. \<not> is_for n (bufs s ! j)"
  with ok xs show "case find (\<lambda>i. i \<notin> H \<and> \<not> dirty (bufs s ! i)) (rev xs) of
         Some i \<Rightarrow> \<exists>s'. bget 1 n s = Ret (i, s') \<and> is_for n (bufs s' ! i) \<and> ring s' xs
       | None \<Rightarrow> bget 1 n s = Panic ''bget: no buffers''"
  proof (cases rule: bget_cases [where n = n])
    case (miss i)
    have "ring (got i (\<lambda>b. b\<lparr>bdev := 1, bblockno := n, bflags := 0, brefcnt := 1\<rparr>) s) xs"
      by (rule ring_cong [OF xs(1)]) (simp_all add: nxt_def prv_def nth_upd_cases)
    with miss show ?thesis using d(11) by (simp add: is_for_def)
  next
    case full
    then have "find (\<lambda>i. i \<notin> H \<and> \<not> dirty (bufs s ! i)) (rev xs) = None" using xs(2) by (auto simp: find_None_iff)
    with full show ?thesis by simp
  next
    case (held i)
    then show ?thesis using d(2) \<open>\<forall>j < NBUF. \<not> is_for n (bufs s ! j)\<close> by blast
  qed auto
next
  fix i s' assume "i \<in> H" "brelse i s = Ret s'"
  then show "ring s' (i # remove1 i xs)" using brelse_ring [OF ok _ xs] by blast
qed

section \<open>The claims at work\<close>

text \<open>A machine that has just booted, with one process running and a disk of 1000 zero blocks.\<close>

definition bio_demo :: "'a \<Rightarrow> 'a bio_state_scheme" where
  "bio_demo m = binit \<lparr>mem = (\<lambda>_. 0), freelist = 0, use_lock = True, kend = 0x80115000, kpgdir = 0x803ff000, kdata = 0x80109000,
     procs = [first_proc\<lparr>pstate := RUNNING\<rparr>], initproc = Some 0, nextpid = 2, this = 0, cpu_proc = (\<lambda>_. None)(0 := Some 0),
     sched_pos = (\<lambda>_. 0), sched_idle = (\<lambda>_. True), halted = (\<lambda>_. False), cr3 = (\<lambda>_. 0), esp0 = (\<lambda>_. 0), trapret = 0x80105000, forkret = 0x80103000,
     slocks = (\<lambda>_. \<lparr>slocked = 0, slpid = 0\<rparr>), pipes = (\<lambda>_. None), bufs = replicate (NBUF + 1) zero_buf,
     disk = (\<lambda>_. replicate BSIZE 0), disksize = 1000, trace = [], \<dots> = m\<rparr>"

lemma bio_demo_ok: "bio_ok {} (bio_demo m)" "content (bio_demo m) = (\<lambda>_. replicate BSIZE 0)" "dirty_blocks (bio_demo m) = {}"
  "disk (bio_demo m) = (\<lambda>_. replicate BSIZE 0)"
  unfolding bio_demo_def by (subst binit_ok; simp add: curproc_def)+

lemma binit_disksize: "disksize (binit s) = disksize s"
proof -
  have "disksize (fold (\<lambda>i s. link_front i (initsleeplock (BufLock i) s)) xs s) = disksize s" for xs and s :: "'a bio_state_scheme"
    by (induction xs arbitrary: s) (simp_all add: link_front_def initsleeplock_def Let_def)
  then show ?thesis by (simp add: binit_def Let_def)
qed

lemma bio_demo_disksize [simp]: "disksize (bio_demo m) = 1000"
  by (simp add: bio_demo_def binit_disksize)

lemma not_dirty: "bio_ok H s \<Longrightarrow> dirty_blocks s = {} \<Longrightarrow> i < NBUF \<Longrightarrow> \<not> dirty (bufs s ! i)"
  using bio_okD(7) [of H s i] by (auto simp: dirty_blocks_def is_for_def)

theorem block_write_read_witness:
  "\<exists>i s1 s2 s3 j s4. bread 1 7 (bio_demo ()) = Ret (i, s1) \<and>
    bwrite i (upd_buf i (\<lambda>b. b\<lparr>bdata := replicate 512 65\<rparr>) s1) = Ret s2 \<and> brelse i s2 = Ret s3 \<and>
    bread 1 7 s3 = Ret (j, s4) \<and> bdata (bufs s4 ! j) = replicate 512 65"
proof -
  have "\<not> dirty (bufs (bio_demo ()) ! 0)" by (rule not_dirty [OF bio_demo_ok(1,3)]) simp
  then have "\<exists>i < NBUF. \<not> dirty (bufs (bio_demo ()) ! i)" by (intro exI [of _ 0]) simp
  moreover have "(7 :: u32) < disksize (bio_demo ())" "length (replicate 512 (65 :: u8)) = BSIZE" by simp_all
  ultimately show ?thesis using block_write_read [OF bio_demo_ok(1) [of "()"], of 7 "replicate 512 65"]
    by blast
qed

theorem bcache_lru_witness:
  "\<exists>xs. ring (bio_demo ()) xs \<and> bget 1 7 (bio_demo ()) \<noteq> Diverged"
proof -
  obtain xs where "ring (bio_demo ()) xs" "set xs = {..<NBUF}" using bio_okD(1) [OF bio_demo_ok(1) [of "()"]] by blast
  then show ?thesis using bcache_lru [OF bio_demo_ok(1) [of "()"], of xs 7, THEN conjunct1] by (intro exI [of _ xs] conjI)
qed

end
