(* ===== verification/Log.thy ===== *)
theory Log
  imports Bio
begin

text \<open>
  The write-ahead log, \<^verbatim>\<open>log.c\<close>: transactions, commit, and recovery after a crash. The
  blocks of a transaction are pinned in the buffer cache as dirty until the commit. A
  header on the disk with more entries than the array of the log in memory, which the
  code would copy past its end, is a panic of the model.
\<close>

section \<open>State and operations\<close>

record superblock =
  sb_size :: u32
  sb_nblocks :: u32
  sb_ninodes :: u32
  sb_nlog :: u32
  sb_logstart :: u32
  sb_inodestart :: u32
  sb_bmapstart :: u32

record log_state = bio_state +
  lstart :: u32
  lsize :: u32
  loutstanding :: int
  lcommitting :: bool
  ldev :: u32
  lhn :: int
  lhblock :: "u32 list"

definition get_superblock :: "block \<Rightarrow> superblock" where
  "get_superblock d = \<lparr>sb_size = get32 d 0, sb_nblocks = get32 d 4, sb_ninodes = get32 d 8, sb_nlog = get32 d 12,
     sb_logstart = get32 d 16, sb_inodestart = get32 d 20, sb_bmapstart = get32 d 24\<rparr>"

definition readsb :: "u32 \<Rightarrow> 'a bio_state_scheme \<Rightarrow> (superblock \<times> 'a bio_state_scheme) outcome" where
  "readsb dev s =
     obind (bread dev 1 s) (\<lambda>(i, s).
       let sb = get_superblock (bdata (bufs s ! i)) in obind (brelse i s) (\<lambda>s. Ret (sb, s)))"

definition install_block :: "nat \<Rightarrow> 'a log_state_scheme \<Rightarrow> 'a log_state_scheme outcome" where
  "install_block tail s =
     obind (bread (ldev s) (lstart s + of_nat tail + 1) s) (\<lambda>(l, s).
     obind (bread (ldev s) (lhblock s ! tail) s) (\<lambda>(d, s).
     let s = upd_buf d (\<lambda>b. b\<lparr>bdata := bdata (bufs s ! l)\<rparr>) s in
     obind (bwrite d s) (\<lambda>s.
     obind (brelse l s) (\<lambda>s. brelse d s))))"

definition install_trans :: "'a log_state_scheme \<Rightarrow> 'a log_state_scheme outcome" where
  "install_trans s = ofor install_block [0..<nat (lhn s)] s"

definition read_head :: "'a log_state_scheme \<Rightarrow> 'a log_state_scheme outcome" where
  "read_head s =
     obind (bread (ldev s) (lstart s) s) (\<lambda>(i, s).
       let d = bdata (bufs s ! i); n = sint (get32 d 0) in
       if n > int LOGSIZE then Panic ''log header out of range''
       else
         let s = s\<lparr>lhn := n, lhblock := map (\<lambda>i. get32 d (4 + 4 * i)) [0..<nat n] @ drop (nat n) (lhblock s)\<rparr>
         in brelse i s)"

definition put_head :: "int \<Rightarrow> u32 list \<Rightarrow> block \<Rightarrow> block" where
  "put_head n bs d = fold (\<lambda>i d. put32 d (4 + 4 * i) (bs ! i)) [0..<nat n] (put32 d 0 (of_int n))"

definition write_head :: "'a log_state_scheme \<Rightarrow> 'a log_state_scheme outcome" where
  "write_head s =
     obind (bread (ldev s) (lstart s) s) (\<lambda>(i, s).
       let s = upd_buf i (\<lambda>b. b\<lparr>bdata := put_head (lhn s) (lhblock s) (bdata b)\<rparr>) s
       in obind (bwrite i s) (\<lambda>s. brelse i s))"

definition recover_from_log :: "'a log_state_scheme \<Rightarrow> 'a log_state_scheme outcome" where
  "recover_from_log s =
     obind (read_head s) (\<lambda>s. obind (install_trans s) (\<lambda>s. write_head (s\<lparr>lhn := 0\<rparr>)))"

definition initlog :: "u32 \<Rightarrow> 'a log_state_scheme \<Rightarrow> 'a log_state_scheme outcome" where
  "initlog dev s =
     obind (readsb dev s) (\<lambda>(sb, s).
       recover_from_log (s\<lparr>lstart := sb_logstart sb, lsize := sb_nlog sb, ldev := dev\<rparr>))"

text \<open>One round of the loop of \<open>begin_op\<close>.\<close>

definition begin_op :: "'a log_state_scheme \<Rightarrow> (unit progress \<times> 'a log_state_scheme) outcome" where
  "begin_op s =
     (if lcommitting s then obind (sleep ChLog s) (\<lambda>s. Ret (Sleep, s))
      else if lhn s + (loutstanding s + 1) * int MAXOPBLOCKS > int LOGSIZE then obind (sleep ChLog s) (\<lambda>s. Ret (Sleep, s))
      else Ret (Done (), s\<lparr>loutstanding := loutstanding s + 1\<rparr>))"

definition write_log_block :: "nat \<Rightarrow> 'a log_state_scheme \<Rightarrow> 'a log_state_scheme outcome" where
  "write_log_block tail s =
     obind (bread (ldev s) (lstart s + of_nat tail + 1) s) (\<lambda>(t, s).
     obind (bread (ldev s) (lhblock s ! tail) s) (\<lambda>(f, s).
     let s = upd_buf t (\<lambda>b. b\<lparr>bdata := bdata (bufs s ! f)\<rparr>) s in
     obind (bwrite t s) (\<lambda>s.
     obind (brelse f s) (\<lambda>s. brelse t s))))"

definition write_log :: "'a log_state_scheme \<Rightarrow> 'a log_state_scheme outcome" where
  "write_log s = ofor write_log_block [0..<nat (lhn s)] s"

definition commit :: "'a log_state_scheme \<Rightarrow> 'a log_state_scheme outcome" where
  "commit s =
     (if lhn s > 0 then
        obind (write_log s) (\<lambda>s. obind (write_head s) (\<lambda>s. obind (install_trans s) (\<lambda>s. write_head (s\<lparr>lhn := 0\<rparr>))))
      else Ret s)"

definition end_op :: "'a log_state_scheme \<Rightarrow> 'a log_state_scheme outcome" where
  "end_op s =
     (let s = s\<lparr>loutstanding := loutstanding s - 1\<rparr> in
      if lcommitting s then Panic ''log.committing''
      else if loutstanding s = 0 then
        obind (commit (s\<lparr>lcommitting := True\<rparr>)) (\<lambda>s. Ret (wakeup ChLog (s\<lparr>lcommitting := False\<rparr>)))
      else Ret (wakeup ChLog s))"

definition log_write :: "nat \<Rightarrow> 'a log_state_scheme \<Rightarrow> 'a log_state_scheme outcome" where
  "log_write i s =
     (if lhn s \<ge> int LOGSIZE \<or> lhn s \<ge> sint (lsize s) - 1 then Panic ''too big a transaction''
      else if loutstanding s < 1 then Panic ''log_write outside of trans''
      else
        let n = bblockno (bufs s ! i);
            k = (case scan (\<lambda>b. b = n) (take (nat (lhn s)) (lhblock s)) of Some k \<Rightarrow> k | None \<Rightarrow> nat (lhn s));
            s = s\<lparr>lhblock := (lhblock s)[k := n]\<rparr>;
            s = (if int k = lhn s then s\<lparr>lhn := lhn s + 1\<rparr> else s)
        in Ret (upd_buf i (\<lambda>b. b\<lparr>bflags := bflags b OR B_DIRTY\<rparr>) s))"

section \<open>Copying a block\<close>

text \<open>The buffers of two blocks are held; one is copied to the other, which is written; both are released.\<close>

lemma copy_held:
  assumes ok: "bio_ok {i, j} s" and ij: "i \<noteq> j" and x: "is_for x (bufs s ! i)" and y: "is_for y (bufs s ! j)" "y < disksize s"
    and cx: "x \<in> dirty_blocks s \<or> content s x = disk s x"
  shows "\<exists>s1 s2 s3. bwrite j (upd_buf j (\<lambda>b. b\<lparr>bdata := bdata (bufs s ! i)\<rparr>) s) = Ret s1 \<and> brelse i s1 = Ret s2 \<and> brelse j s2 = Ret s3 \<and>
    bio_ok {} s3 \<and> content s3 = (content s)(y := content s x) \<and> disk s3 = (disk s)(y := content s x) \<and>
    trace s3 = trace s @ [(y, content s x)] \<and> dirty_blocks s3 = dirty_blocks s - {y} \<and> bio_only s s3"
proof -
  have I: "i \<in> {i, j}" and J: "j \<in> {i, j}" by simp_all
  note d = bio_okD [OF ok]
  have xy: "x \<noteq> y" using d(4) [OF d(2) [OF I] d(2) [OF J] x] y ij by auto
  have ci: "content s x = bdata (bufs s ! i)" using content_cached [OF ok d(2) [OF I] x] d(9) [OF I] by simp
  let ?t = "upd_buf j (\<lambda>b. b\<lparr>bdata := bdata (bufs s ! i)\<rparr>) s"
  note D = set_data_spec [OF ok J y(1), of "bdata (bufs s ! i)"]
  have len: "length (bdata (bufs s ! i)) = BSIZE" using d(5) [OF d(2) [OF I]] .
  note D = set_data_spec [OF ok J y(1) len]
  from bwrite_spec [OF D(1) J D(4)] y(2) obtain s1 where w: "bwrite j ?t = Ret s1" "bio_ok {i, j} s1" "content s1 = content ?t"
    "dirty_blocks s1 = dirty_blocks ?t - {y}" "disk s1 = (disk ?t)(y := content ?t y)" "trace s1 = trace ?t @ [(y, content ?t y)]"
    "bio_only ?t s1" "\<forall>m j. is_for m (bufs s1 ! j) = is_for m (bufs ?t ! j)" by auto
  have x1: "is_for x (bufs s1 ! i)" using w(8) x ij by simp
  have "x \<in> dirty_blocks s1 \<or> content s1 x = disk s1 x" using cx xy w(3-5) D(2,3) by auto
  from brelse_spec [OF w(2) I x1 this] obtain s2 where r: "brelse i s1 = Ret s2" "bio_ok ({i, j} - {i}) s2" "content s2 = content s1"
    "dirty_blocks s2 = dirty_blocks s1" "disk s2 = disk s1" "trace s2 = trace s1" "bio_only s1 s2"
    "\<forall>m j. is_for m (bufs s2 ! j) = is_for m (bufs s1 ! j)" by auto
  have J2: "j \<in> {i, j} - {i}" using ij by simp
  have y2: "is_for y (bufs s2 ! j)" using r(8) w(8) D(4) by simp
  have "y \<in> dirty_blocks s2 \<or> content s2 y = disk s2 y" using r w by simp
  from brelse_spec [OF r(2) J2 y2 this] obtain s3 where q: "brelse j s2 = Ret s3" "bio_ok ({i, j} - {i} - {j}) s3" "content s3 = content s2"
    "dirty_blocks s3 = dirty_blocks s2" "disk s3 = disk s2" "trace s3 = trace s2" "bio_only s2 s3" by auto
  have "{i, j} - {i} - {j} = {}" by auto
  then have ok3: "bio_ok {} s3" using q(2) by metis
  have "bio_only s s3" using bio_only_trans [OF bio_only_upd_buf bio_only_trans [OF w(7) bio_only_trans [OF r(7) q(7)]]] .
  moreover have "content s3 = (content s)(y := content s x)" "disk s3 = (disk s)(y := content s x)" "trace s3 = trace s @ [(y, content s x)]"
    "dirty_blocks s3 = dirty_blocks s - {y}" using q r w D ci by (simp_all add: fun_eq_iff)
  ultimately show ?thesis using w(1) r(1) q(1) ok3 by blast
qed


lemma log_frame:
  "bio_only s s' \<Longrightarrow> ldev s' = ldev s \<and> lstart s' = lstart s \<and> lhn s' = lhn s \<and> lhblock s' = lhblock s \<and> lsize s' = lsize s \<and>
     loutstanding s' = loutstanding s \<and> lcommitting s' = lcommitting s"
  by (auto simp: bio_only_def)

lemma disksize_frame: "bio_only s s' \<Longrightarrow> disksize s' = disksize s"
  by (auto simp: bio_only_def)

lemma bio_only_log_fields: "bio_only s s' \<Longrightarrow> bio_only (s\<lparr>lhn := n, lhblock := b\<rparr>) (s'\<lparr>lhn := n, lhblock := b\<rparr>)"
proof -
  assume "bio_only s s'"
  then obtain ps sl bf dk tr where x: "s' = s\<lparr>procs := ps, slocks := sl, bufs := bf, disk := dk, trace := tr\<rparr>" "woken (procs s) ps"
    "\<forall>l. (\<forall>i. l \<noteq> BufLock i) \<longrightarrow> sl l = slocks s l" unfolding bio_only_def by blast
  then show ?thesis by (intro bio_onlyI) simp_all
qed

text \<open>With fewer dirty blocks than buffers some buffer is clean.\<close>

lemma clean_buffer:
  assumes ok: "bio_ok H s" and D: "finite D" "dirty_blocks s \<subseteq> D" "card D < NBUF"
  shows "\<exists>i < NBUF. \<not> dirty (bufs s ! i)"
proof (rule ccontr)
  assume "\<not> ?thesis"
  then have all: "dirty (bufs s ! i)" if "i < NBUF" for i using that by blast
  have f: "is_for (bblockno (bufs s ! i)) (bufs s ! i)" if "i < NBUF" for i
    using bio_okD(7) [OF ok that all [OF that]] by (simp add: is_for_def)
  have "inj_on (\<lambda>i. bblockno (bufs s ! i)) {..<NBUF}"
  proof (rule inj_onI)
    fix i j assume ij: "i \<in> {..<NBUF}" "j \<in> {..<NBUF}" "bblockno (bufs s ! i) = bblockno (bufs s ! j)"
    then show "i = j" using bio_okD(4) [OF ok, of i j "bblockno (bufs s ! i)"] f [of i] f [of j] by simp
  qed
  moreover have "(\<lambda>i. bblockno (bufs s ! i)) ` {..<NBUF} \<subseteq> D" using f all D(2) by (auto simp: dirty_blocks_def)
  ultimately have "NBUF \<le> card D" using card_inj_on_le [OF _ _ D(1)] by fastforce
  then show False using D(3) by simp
qed

lemma two_breads:
  assumes ok: "bio_ok {} s" and x: "x \<noteq> y" "x < disksize s" "y < disksize s"
    and room: "\<exists>i < NBUF. \<not> dirty (bufs s ! i)" "y \<in> dirty_blocks s \<or> dirty_blocks s = {}"
  shows "\<exists>i s1 j s2. bread 1 x s = Ret (i, s1) \<and> bread 1 y s1 = Ret (j, s2) \<and> bio_only s s1 \<and> bio_only s s2 \<and> i \<noteq> j \<and>
    bio_ok {i, j} s2 \<and> is_for x (bufs s2 ! i) \<and> is_for y (bufs s2 ! j) \<and>
    content s2 = content s \<and> disk s2 = disk s \<and> trace s2 = trace s \<and> dirty_blocks s2 = dirty_blocks s \<and>
    (x \<in> dirty_blocks s \<or> content s x = disk s x) \<and> (y \<in> dirty_blocks s \<or> content s y = disk s y)"
proof -
  obtain i s1 where r: "bread 1 x s = Ret (i, s1)" using bread_returns [OF ok x(2)] room(1) by auto
  note R = bread_spec [OF ok r]
  have d1: "y < disksize s1" using disksize_frame [OF R(11)] x(3) by simp
  have free: "\<And>k. k \<in> {i} \<Longrightarrow> \<not> is_for y (bufs s1 ! k)" using R(4) x(1) by (auto simp: is_for_def)
  have "\<exists>k < NBUF. k \<notin> {i} \<and> (\<not> dirty (bufs s1 ! k) \<or> is_for y (bufs s1 ! k))"
  proof (cases "dirty_blocks s = {}")
    case True
    define k where "k = (if i = 0 then 1 else 0 :: nat)"
    have k: "k < NBUF" "k \<noteq> i" by (auto simp: k_def)
    have "dirty_blocks s1 = {}" using True R(9) by simp
    then have "\<not> dirty (bufs s1 ! k)" using not_dirty [OF R(3) _ k(1)] by simp
    with k show ?thesis by blast
  next
    case False
    then have "y \<in> dirty_blocks s1" using room(2) R(9) by simp
    then obtain k where "k < NBUF" "is_for y (bufs s1 ! k)" by (auto simp: dirty_blocks_def)
    then show ?thesis using free by blast
  qed
  then obtain j s2 where r2: "bread 1 y s1 = Ret (j, s2)" using bread_returns [OF R(3) d1 free] by blast
  note Q = bread_spec [OF R(3) r2]
  have ij: "i \<noteq> j" using Q(2) by auto
  have "bufs s2 ! i = bufs s1 ! i" using Q(10) ij by simp
  then have "is_for x (bufs s2 ! i)" using R(4) by simp
  moreover have "bio_ok {i, j} s2" using Q(3) by (simp add: insert_commute)
  moreover have "bio_only s s2" using bio_only_trans [OF R(11) Q(11)] .
  moreover have "x \<in> dirty_blocks s \<or> content s x = disk s x" "y \<in> dirty_blocks s \<or> content s y = disk s y"
    using R(12) Q(12) R(6,7,9) by auto
  ultimately show ?thesis using r r2 R Q ij by (intro exI [of _ i] exI [of _ s1] exI [of _ j] exI [of _ s2]) simp
qed

lemma install_block_spec:
  assumes ok: "bio_ok {} s" and dev: "ldev s = 1" and x: "x = lstart s + of_nat k + 1" "y = lhblock s ! k" "x \<noteq> y" "x < disksize s" "y < disksize s"
    and room: "\<exists>i < NBUF. \<not> dirty (bufs s ! i)" "y \<in> dirty_blocks s \<or> dirty_blocks s = {}"
  shows "\<exists>s'. install_block k s = Ret s' \<and> bio_ok {} s' \<and> content s' = (content s)(y := content s x) \<and>
    disk s' = (disk s)(y := content s x) \<and> trace s' = trace s @ [(y, content s x)] \<and> dirty_blocks s' = dirty_blocks s - {y} \<and> bio_only s s'"
proof -
  from two_breads [OF ok x(3-5) room] obtain i s1 j s2 where b: "bread 1 x s = Ret (i, s1)" "bread 1 y s1 = Ret (j, s2)" "bio_only s s1" "bio_only s s2"
    "i \<noteq> j" "bio_ok {i, j} s2" "is_for x (bufs s2 ! i)" "is_for y (bufs s2 ! j)"
    "content s2 = content s" "disk s2 = disk s" "trace s2 = trace s" "dirty_blocks s2 = dirty_blocks s"
    "x \<in> dirty_blocks s2 \<or> content s2 x = disk s2 x" by (metis (no_types, lifting))
  have y2: "y < disksize s2" using disksize_frame [OF b(4)] x(5) by simp
  from copy_held [OF b(6,5,7,8) y2 b(13)] obtain s3 s4 s5 where
    c: "bwrite j (upd_buf j (\<lambda>b. b\<lparr>bdata := bdata (bufs s2 ! i)\<rparr>) s2) = Ret s3" "brelse i s3 = Ret s4" "brelse j s4 = Ret s5"
    "bio_ok {} s5" "content s5 = (content s2)(y := content s2 x)" "disk s5 = (disk s2)(y := content s2 x)"
    "trace s5 = trace s2 @ [(y, content s2 x)]" "dirty_blocks s5 = dirty_blocks s2 - {y}" "bio_only s2 s5" by auto
  have "install_block k s = Ret s5"
    unfolding install_block_def using b(1,2) c(1-3) log_frame [OF b(3)] dev x(1,2) by (simp add: Let_def)
  with b c bio_only_trans [OF b(4) c(9)] show ?thesis by (intro exI [of _ s5]) simp
qed

lemma write_log_block_spec:
  assumes ok: "bio_ok {} s" and dev: "ldev s = 1" and x: "x = lstart s + of_nat k + 1" "y = lhblock s ! k" "x \<noteq> y" "x < disksize s" "y < disksize s"
    and room: "\<exists>i < NBUF. \<not> dirty (bufs s ! i)" "y \<in> dirty_blocks s \<or> dirty_blocks s = {}"
  shows "\<exists>s'. write_log_block k s = Ret s' \<and> bio_ok {} s' \<and> content s' = (content s)(x := content s y) \<and>
    disk s' = (disk s)(x := content s y) \<and> trace s' = trace s @ [(x, content s y)] \<and> dirty_blocks s' = dirty_blocks s - {x} \<and> bio_only s s'"
proof -
  from two_breads [OF ok x(3-5) room] obtain i s1 j s2 where b: "bread 1 x s = Ret (i, s1)" "bread 1 y s1 = Ret (j, s2)" "bio_only s s1" "bio_only s s2"
    "i \<noteq> j" "bio_ok {i, j} s2" "is_for x (bufs s2 ! i)" "is_for y (bufs s2 ! j)"
    "content s2 = content s" "disk s2 = disk s" "trace s2 = trace s" "dirty_blocks s2 = dirty_blocks s"
    "y \<in> dirty_blocks s2 \<or> content s2 y = disk s2 y" by (metis (no_types, lifting))
  have x2: "x < disksize s2" using disksize_frame [OF b(4)] x(4) by simp
  have ok': "bio_ok {j, i} s2" using b(6) by (simp add: insert_commute)
  from copy_held [OF ok' b(5) [symmetric] b(8,7) x2 b(13)] obtain s3 s4 s5 where
    c: "bwrite i (upd_buf i (\<lambda>b. b\<lparr>bdata := bdata (bufs s2 ! j)\<rparr>) s2) = Ret s3" "brelse j s3 = Ret s4" "brelse i s4 = Ret s5"
    "bio_ok {} s5" "content s5 = (content s2)(x := content s2 y)" "disk s5 = (disk s2)(x := content s2 y)"
    "trace s5 = trace s2 @ [(x, content s2 y)]" "dirty_blocks s5 = dirty_blocks s2 - {x}" "bio_only s2 s5" by auto
  have "write_log_block k s = Ret s5"
    unfolding write_log_block_def using b(1,2) c(1-3) log_frame [OF b(3)] dev x(1,2) by (simp add: Let_def)
  with b c bio_only_trans [OF b(4) c(9)] show ?thesis by (intro exI [of _ s5]) simp
qed


section \<open>Sequences of block writes\<close>

definition apply_writes :: "(u32 \<times> block) list \<Rightarrow> (u32 \<Rightarrow> block) \<Rightarrow> u32 \<Rightarrow> block" where
  "apply_writes ws d = fold (\<lambda>(n, b) d. d(n := b)) ws d"

lemma apply_writes_simps [simp]:
  "apply_writes [] d = d" "apply_writes ((n, b) # ws) d = apply_writes ws (d(n := b))"
  "apply_writes (vs @ ws) d = apply_writes ws (apply_writes vs d)"
  by (simp_all add: apply_writes_def)

lemma apply_writes_notin: "n \<notin> fst ` set ws \<Longrightarrow> apply_writes ws d n = d n"
  by (induction ws arbitrary: d) auto

lemma apply_writes_map:
  "inj_on f (set ks) \<Longrightarrow> apply_writes (map (\<lambda>k. (f k, g k)) ks) d n = (if n \<in> f ` set ks then g (the_inv_into (set ks) f n) else d n)"
proof (induction ks arbitrary: d rule: rev_induct)
  case (snoc k ks)
  have inj: "inj_on f (set ks)" using snoc.prems by (auto simp: inj_on_def)
  show ?case
  proof (cases "n = f k")
    case True
    then show ?thesis using the_inv_into_f_f [OF snoc.prems, of k] by simp
  next
    case F: False
    show ?thesis
    proof (cases "n \<in> f ` set ks")
      case True
      then obtain j where j: "j \<in> set ks" "n = f j" by auto
      then have "the_inv_into (set ks) f n = j" "the_inv_into (set (ks @ [k])) f n = j"
        using the_inv_into_f_f [OF inj] the_inv_into_f_f [OF snoc.prems, of j] by auto
      then show ?thesis using snoc.IH [OF inj] F True by simp
    qed (use snoc.IH [OF inj] F in simp)
  qed
qed simp

lemma apply_writes_map_at:
  "inj_on f (set ks) \<Longrightarrow> k \<in> set ks \<Longrightarrow> apply_writes (map (\<lambda>k. (f k, g k)) ks) d (f k) = g k"
  by (simp add: apply_writes_map the_inv_into_f_f)

text \<open>\<open>does W s s'\<close>: from an idle cache, the code has written the blocks \<open>W\<close>, in this order, and is idle again.\<close>

definition does :: "(u32 \<times> block) list \<Rightarrow> 'a bio_state_scheme \<Rightarrow> 'a bio_state_scheme \<Rightarrow> bool" where
  "does W s s' \<longleftrightarrow> bio_ok {} s' \<and> content s' = apply_writes W (content s) \<and> disk s' = apply_writes W (disk s) \<and>
     trace s' = trace s @ W \<and> dirty_blocks s' = dirty_blocks s - fst ` set W \<and> bio_only s s'"

lemma does_refl: "bio_ok {} s \<Longrightarrow> does [] s s"
  by (simp add: does_def)

lemma does_trans: "does V s t \<Longrightarrow> does W t u \<Longrightarrow> does (V @ W) s u"
  by (auto simp: does_def intro: bio_only_trans)

lemma doesD:
  assumes "does W s s'"
  shows "bio_ok {} s'" "content s' = apply_writes W (content s)" "disk s' = apply_writes W (disk s)" "trace s' = trace s @ W"
    "dirty_blocks s' = dirty_blocks s - fst ` set W" "bio_only s s'"
  using assms by (simp_all add: does_def)

lemma bio_cong:
  assumes "bufs s' = bufs s" "slocks s' = slocks s" "curproc s' = curproc s" "disk s' = disk s"
  shows "bio_ok H s' = bio_ok H s" "content s' = content s" "dirty_blocks s' = dirty_blocks s"
proof -
  have n: "nxt s' = nxt s" "prv s' = prv s" by (simp_all add: fun_eq_iff nxt_def prv_def assms(1))
  have h: "holdingsleep l s' = holdingsleep l s" for l by (simp add: holdingsleep_def assms(2))
  show "bio_ok H s' = bio_ok H s" by (simp add: bio_ok_def ring_def n h assms(1,3,4))
  show "content s' = content s" "dirty_blocks s' = dirty_blocks s" by (simp_all add: fun_eq_iff content_def dirty_blocks_def assms(1,4) cong: option.case_cong)
qed

text \<open>Changing the log in memory does not concern the cache.\<close>

lemma bio_log_upd [simp]:
  "bio_ok H (s\<lparr>lhn := v\<rparr>) = bio_ok H s" "content (s\<lparr>lhn := v\<rparr>) = content s" "dirty_blocks (s\<lparr>lhn := v\<rparr>) = dirty_blocks s"
  "bio_ok H (s\<lparr>lhblock := b\<rparr>) = bio_ok H s" "content (s\<lparr>lhblock := b\<rparr>) = content s" "dirty_blocks (s\<lparr>lhblock := b\<rparr>) = dirty_blocks s"
  "bio_ok H (s\<lparr>loutstanding := v\<rparr>) = bio_ok H s" "content (s\<lparr>loutstanding := v\<rparr>) = content s" "dirty_blocks (s\<lparr>loutstanding := v\<rparr>) = dirty_blocks s"
  "bio_ok H (s\<lparr>lcommitting := c\<rparr>) = bio_ok H s" "content (s\<lparr>lcommitting := c\<rparr>) = content s" "dirty_blocks (s\<lparr>lcommitting := c\<rparr>) = dirty_blocks s"
  by (rule bio_cong; simp add: curproc_def)+

section \<open>The transaction\<close>

definition lpos :: "'a log_state_scheme \<Rightarrow> nat \<Rightarrow> u32" where
  "lpos s k = lstart s + of_nat k + 1"

definition log_area :: "'a log_state_scheme \<Rightarrow> u32 set" where
  "log_area s = {m. unat (lstart s) \<le> unat m \<and> unat m < unat (lstart s) + unat (lsize s)}"

text \<open>The log lies on the disk; the blocks of the transaction are distinct, on the disk, outside the log, and fit into it.\<close>

definition log_ok :: "'a log_state_scheme \<Rightarrow> bool" where
  "log_ok s \<longleftrightarrow> ldev s = 1 \<and> 0 < unat (lsize s) \<and> unat (lsize s) \<le> NBUF \<and> unat (lstart s) + unat (lsize s) \<le> unat (disksize s) \<and>
     0 \<le> lhn s \<and> nat (lhn s) < NBUF \<and> nat (lhn s) < unat (lsize s) \<and> length (lhblock s) = LOGSIZE \<and>
     distinct (take (nat (lhn s)) (lhblock s)) \<and>
     (\<forall>k < nat (lhn s). lhblock s ! k < disksize s \<and> lhblock s ! k \<notin> log_area s)"

lemma log_okD:
  assumes "log_ok s"
  shows "ldev s = 1" "unat (lstart s) + unat (lsize s) \<le> unat (disksize s)" "nat (lhn s) < NBUF" "nat (lhn s) < unat (lsize s)"
    "length (lhblock s) = LOGSIZE" "distinct (take (nat (lhn s)) (lhblock s))" "0 < unat (lsize s)" "0 \<le> lhn s"
    "\<And>k. k < nat (lhn s) \<Longrightarrow> lhblock s ! k < disksize s" "\<And>k. k < nat (lhn s) \<Longrightarrow> lhblock s ! k \<notin> log_area s" "unat (lsize s) \<le> NBUF"
  using assms by (simp_all add: log_ok_def)

lemma lpos_unat:
  assumes "log_ok s" "k + 1 < unat (lsize s)"
  shows "unat (lpos s k) = unat (lstart s) + k + 1" "lpos s k \<in> log_area s" "lpos s k < disksize s" "lpos s k \<noteq> lstart s"
proof -
  note d = log_okD [OF assms(1)]
  have b: "unat (lstart s) + k + 1 < 2 ^ 32" using d(2) assms(2) unsigned_less [of "disksize s", where ?'a = nat] by simp
  have e: "lpos s k = lstart s + of_nat (k + 1)" by (simp add: lpos_def)
  show u: "unat (lpos s k) = unat (lstart s) + k + 1"
    unfolding e using unat_plus_small [of "lstart s" "k + 1"] b by (simp del: of_nat_add of_nat_Suc)
  then show "lpos s k \<in> log_area s" using assms(2) by (simp add: log_area_def)
  show "lpos s k < disksize s" using u assms(2) d(2) by (simp add: word_less_nat_alt)
  show "lpos s k \<noteq> lstart s" using u by auto
qed

lemma lpos_inj: "log_ok s \<Longrightarrow> inj_on (lpos s) {k. k + 1 < unat (lsize s)}"
  by (intro inj_onI) (metis (mono_tags) lpos_unat(1) mem_Collect_eq add_right_cancel add_left_cancel)


lemma log_ok_frame: "bio_only s t \<Longrightarrow> log_ok t = log_ok s \<and> lpos t = lpos s \<and> log_area t = log_area s"
  using log_frame [of s t] disksize_frame [of s t] by (simp add: log_ok_def lpos_def fun_eq_iff log_area_def)

lemma log_block_mem: "log_ok s \<Longrightarrow> k < nat (lhn s) \<Longrightarrow> lhblock s ! k \<in> set (take (nat (lhn s)) (lhblock s))"
  by (auto simp: log_ok_def in_set_conv_nth intro!: exI [of _ k])

lemma log_block_inj: "log_ok s \<Longrightarrow> inj_on (\<lambda>k. lhblock s ! k) {..<nat (lhn s)}"
proof (rule inj_onI)
  fix x y assume l: "log_ok s" and xy: "x \<in> {..<nat (lhn s)}" "y \<in> {..<nat (lhn s)}" "lhblock s ! x = lhblock s ! y"
  then show "x = y"
    using nth_eq_iff_index_eq [OF log_okD(6) [OF l], of x y] log_okD(3,5) [OF l] by simp
qed

lemma log_room:
  assumes "bio_ok {} t" "log_ok s" "dirty_blocks t \<subseteq> set (take (nat (lhn s)) (lhblock s))"
  shows "\<exists>i < NBUF. \<not> dirty (bufs t ! i)"
proof -
  have "card (set (take (nat (lhn s)) (lhblock s))) \<le> nat (lhn s)" by (metis card_length length_take min.bounded_iff order_trans order_refl)
  then show ?thesis using clean_buffer [OF assms(1) _ assms(3)] log_okD(3) [OF assms(2)] by simp
qed

lemma log_blocks_outside: "log_ok s \<Longrightarrow> set (take (nat (lhn s)) (lhblock s)) \<inter> log_area s = {}"
  using log_okD(10) by (fastforce simp: in_set_conv_nth)

lemma write_log_loop:
  assumes ok: "bio_ok {} s" and l: "log_ok s" and D: "dirty_blocks s = set (take (nat (lhn s)) (lhblock s))"
  shows "j \<le> nat (lhn s) \<Longrightarrow> \<exists>t. ofor write_log_block [0..<j] s = Ret t \<and>
    does (map (\<lambda>k. (lpos s k, content s (lhblock s ! k))) [0..<j]) s t"
proof (induction j)
  case 0
  then show ?case using does_refl [OF ok] by simp
next
  case (Suc j)
  let ?W = "map (\<lambda>k. (lpos s k, content s (lhblock s ! k))) [0..<j]"
  from Suc obtain t where t: "ofor write_log_block [0..<j] s = Ret t" "does ?W s t" by auto
  note d = doesD [OF t(2)] and L = log_okD [OF l] and F = log_frame [OF doesD(6) [OF t(2)]] log_ok_frame [OF doesD(6) [OF t(2)]]
  have j: "j < nat (lhn s)" "j + 1 < unat (lsize s)" using Suc.prems L(4) by simp_all
  have P: "lpos s k \<in> log_area s" if "k < nat (lhn s)" for k using lpos_unat(2) [OF l, of k] that L(4) by simp
  have disj: "lhblock s ! k \<notin> fst ` set ?W" if "k < nat (lhn s)" for k using P L(10) [OF that] Suc.prems by auto
  have "fst ` set ?W \<subseteq> log_area s" using P Suc.prems by auto
  then have dt: "dirty_blocks t = dirty_blocks s" using d(5) D log_blocks_outside [OF l] by blast
  have "\<exists>t'. write_log_block j t = Ret t' \<and> bio_ok {} t' \<and> content t' = (content t)(lpos s j := content t (lhblock s ! j)) \<and>
      disk t' = (disk t)(lpos s j := content t (lhblock s ! j)) \<and> trace t' = trace t @ [(lpos s j, content t (lhblock s ! j))] \<and>
      dirty_blocks t' = dirty_blocks t - {lpos s j} \<and> bio_only t t'"
  proof (rule write_log_block_spec [OF d(1)])
    show "lpos s j \<noteq> lhblock s ! j" using P [OF j(1)] L(10) [OF j(1)] by auto
    show "\<exists>i < NBUF. \<not> dirty (bufs t ! i)" using log_room [OF d(1) l] dt D by simp
    show "lhblock s ! j \<in> dirty_blocks t \<or> dirty_blocks t = {}" using log_block_mem [OF l j(1)] D dt by simp
  qed (use F L(1,9) j lpos_unat(3) [OF l j(2)] disksize_frame [OF d(6)] in \<open>simp_all add: lpos_def\<close>)
  then obtain t' where t': "write_log_block j t = Ret t'" "bio_ok {} t'" "content t' = (content t)(lpos s j := content t (lhblock s ! j))"
      "disk t' = (disk t)(lpos s j := content t (lhblock s ! j))" "trace t' = trace t @ [(lpos s j, content t (lhblock s ! j))]"
      "dirty_blocks t' = dirty_blocks t - {lpos s j}" "bio_only t t'" by blast
  have c: "content t (lhblock s ! j) = content s (lhblock s ! j)" using d(2) apply_writes_notin [OF disj [OF j(1)]] by simp
  have "does [(lpos s j, content s (lhblock s ! j))] t t'" using t' c by (simp add: does_def)
  from does_trans [OF t(2) this] t(1) t'(1) show ?case by (simp add: ofor_snoc)
qed

lemma install_loop:
  assumes ok: "bio_ok {} s" and l: "log_ok s" and D: "dirty_blocks s = set (take (nat (lhn s)) (lhblock s)) \<or> dirty_blocks s = {}"
  shows "j \<le> nat (lhn s) \<Longrightarrow> \<exists>t. ofor install_block [0..<j] s = Ret t \<and>
    does (map (\<lambda>k. (lhblock s ! k, content s (lpos s k))) [0..<j]) s t"
proof (induction j)
  case 0
  then show ?case using does_refl [OF ok] by simp
next
  case (Suc j)
  let ?W = "map (\<lambda>k. (lhblock s ! k, content s (lpos s k))) [0..<j]"
  from Suc obtain t where t: "ofor install_block [0..<j] s = Ret t" "does ?W s t" by auto
  note d = doesD [OF t(2)] and L = log_okD [OF l] and F = log_frame [OF doesD(6) [OF t(2)]] log_ok_frame [OF doesD(6) [OF t(2)]]
  have j: "j < nat (lhn s)" "j + 1 < unat (lsize s)" using Suc.prems L(4) by simp_all
  have P: "lpos s k \<in> log_area s" if "k < nat (lhn s)" for k using lpos_unat(2) [OF l, of k] that L(4) by simp
  have disj: "lpos s k \<notin> fst ` set ?W" if "k < nat (lhn s)" for k using P [OF that] L(10) Suc.prems by auto
  have mem: "lhblock s ! j \<in> dirty_blocks t \<or> dirty_blocks t = {}"
  proof (cases "dirty_blocks s = {}")
    case False
    have "lhblock s ! j \<notin> fst ` set ?W"
    proof
      assume "lhblock s ! j \<in> fst ` set ?W"
      then obtain k where k: "k < j" "lhblock s ! j = lhblock s ! k" by auto
      then show False using inj_onD [OF log_block_inj [OF l], of j k] j(1) by simp
    qed
    then show ?thesis using D False d(5) log_block_mem [OF l j(1)] by simp
  qed (use d(5) in simp)
  have "\<exists>t'. install_block j t = Ret t' \<and> bio_ok {} t' \<and> content t' = (content t)(lhblock s ! j := content t (lpos s j)) \<and>
      disk t' = (disk t)(lhblock s ! j := content t (lpos s j)) \<and> trace t' = trace t @ [(lhblock s ! j, content t (lpos s j))] \<and>
      dirty_blocks t' = dirty_blocks t - {lhblock s ! j} \<and> bio_only t t'"
  proof (rule install_block_spec [OF d(1)])
    show "lpos s j \<noteq> lhblock s ! j" using P [OF j(1)] L(10) [OF j(1)] by auto
    show "\<exists>i < NBUF. \<not> dirty (bufs t ! i)" using log_room [OF d(1) l] D d(5) by auto
    show "lhblock s ! j \<in> dirty_blocks t \<or> dirty_blocks t = {}" by (rule mem)
  qed (use F L(1,9) j lpos_unat(3) [OF l j(2)] disksize_frame [OF d(6)] in \<open>simp_all add: lpos_def\<close>)
  then obtain t' where t': "install_block j t = Ret t'" "bio_ok {} t'" "content t' = (content t)(lhblock s ! j := content t (lpos s j))"
      "disk t' = (disk t)(lhblock s ! j := content t (lpos s j))" "trace t' = trace t @ [(lhblock s ! j, content t (lpos s j))]"
      "dirty_blocks t' = dirty_blocks t - {lhblock s ! j}" "bio_only t t'" by blast
  have c: "content t (lpos s j) = content s (lpos s j)" using d(2) apply_writes_notin [OF disj [OF j(1)]] by simp
  have "does [(lhblock s ! j, content s (lpos s j))] t t'" using t' c by (simp add: does_def)
  from does_trans [OF t(2) this] t(1) t'(1) show ?case by (simp add: ofor_snoc)
qed

lemma length_put_head [simp]: "length (put_head n bs d) = length d"
proof -
  have "length (fold (\<lambda>i d. put32 d (4 + 4 * i) (bs ! i)) ks d) = length d" for ks d
    by (induction ks arbitrary: d) simp_all
  then show ?thesis by (simp add: put_head_def)
qed

lemma write_head_spec:
  assumes ok: "bio_ok {} s" and l: "log_ok s" and room: "\<exists>i < NBUF. \<not> dirty (bufs s ! i)" and nd: "lstart s \<notin> dirty_blocks s"
  shows "\<exists>t. write_head s = Ret t \<and> does [(lstart s, put_head (lhn s) (lhblock s) (content s (lstart s)))] s t"
proof -
  note L = log_okD [OF l]
  have n: "lstart s < disksize s" using L(2,7) by (simp add: word_less_nat_alt)
  obtain i s1 where r: "bread 1 (lstart s) s = Ret (i, s1)" using bread_returns [OF ok n] room by auto
  note R = bread_spec [OF ok r]
  have I: "i \<in> {i}" by simp
  let ?h = "put_head (lhn s) (lhblock s) (content s (lstart s))"
  have F: "lhn s1 = lhn s" "lhblock s1 = lhblock s" using log_frame [OF R(11)] by simp_all
  let ?t = "upd_buf i (\<lambda>b. b\<lparr>bdata := put_head (lhn s1) (lhblock s1) (bdata b)\<rparr>) s1"
  have e: "?t = upd_buf i (\<lambda>b. b\<lparr>bdata := ?h\<rparr>) s1" using R(5) F by (simp add: upd_buf_def)
  have len: "length ?h = BSIZE" using bio_okD(5) [OF R(3,1)] R(5) by simp
  note D = set_data_spec [OF R(3) I R(4) len]
  from bwrite_spec [OF D(1) I D(4)] n disksize_frame [OF R(11)] obtain s2 where w: "bwrite i ?t = Ret s2" "bio_ok {i} s2" "content s2 = content ?t"
    "dirty_blocks s2 = dirty_blocks ?t - {lstart s}" "disk s2 = (disk ?t)(lstart s := content ?t (lstart s))"
    "trace s2 = trace ?t @ [(lstart s, content ?t (lstart s))]" "bio_only ?t s2" "is_for (lstart s) (bufs s2 ! i)"
    unfolding e using D(4) by auto
  have "lstart s \<in> dirty_blocks s2 \<or> content s2 (lstart s) = disk s2 (lstart s)" using w by simp
  from brelse_spec [OF w(2) I w(8) this] obtain s3 where z: "brelse i s2 = Ret s3" "bio_ok ({i} - {i}) s3" "content s3 = content s2"
    "dirty_blocks s3 = dirty_blocks s2" "disk s3 = disk s2" "trace s3 = trace s2" "bio_only s2 s3" by auto
  have "write_head s = Ret s3"
    unfolding write_head_def using r w(1) z(1) L(1) by (simp add: Let_def)
  moreover have "bio_only s s3"
    using bio_only_trans [OF R(11) bio_only_trans [OF bio_only_upd_buf bio_only_trans [OF w(7) z(7)]]] .
  ultimately show ?thesis using z w D R nd e by (intro exI [of _ s3]) (simp add: does_def)
qed


section \<open>The header of the log\<close>

lemma get32_fold_put32:
  "(\<And>i. i \<in> set ks \<Longrightarrow> j + 4 \<le> f i \<or> f i + 4 \<le> j) \<Longrightarrow> get32 (fold (\<lambda>i d. put32 d (f i) (g i)) ks d) j = get32 d j"
  by (induction ks arbitrary: d) simp_all

lemma put_head_n:
  assumes "length d = BSIZE" "0 \<le> n" "n \<le> int LOGSIZE"
  shows "sint (get32 (put_head n bs d) 0) = n"
proof -
  have "get32 (put_head n bs d) 0 = get32 (put32 d 0 (of_int n)) 0"
    unfolding put_head_def by (rule get32_fold_put32) simp
  moreover have "sint (of_int n :: u32) = n" using assms(2,3) by (simp add: signed_of_int signed_take_bit_int_eq_self)
  ultimately show ?thesis using assms(1) by simp
qed

lemma put_head_block:
  assumes "length d = BSIZE" "int k < n" "n \<le> int LOGSIZE"
  shows "get32 (put_head n bs d) (4 + 4 * k) = bs ! k"
proof -
  have k: "k < nat n" "nat n \<le> 30" using assms by simp_all
  have split: "[0..<nat n] = [0..<k] @ k # [Suc k..<nat n]"
    using k(1) by (metis less_imp_le_nat upt_add_eq_append upt_conv_Cons le0 add_0 le_add_diff_inverse)
  have len: "length (fold (\<lambda>i d. put32 d (4 + 4 * i) (bs ! i)) ks e) = length e" for ks e
    by (induction ks arbitrary: e) simp_all
  let ?e = "fold (\<lambda>i d. put32 d (4 + 4 * i) (bs ! i)) [0..<k] (put32 d 0 (of_int n))"
  have "get32 (put_head n bs d) (4 + 4 * k) = get32 (put32 ?e (4 + 4 * k) (bs ! k)) (4 + 4 * k)"
    unfolding put_head_def split by (simp, rule get32_fold_put32) auto
  then show ?thesis using assms(1) k len by simp
qed

lemma put_head_0: "put_head 0 bs d = put32 d 0 0"
  by (simp add: put_head_def)

text \<open>What recovery makes of a disk: it installs the blocks the header names and clears the header.\<close>

definition recover_disk :: "u32 \<Rightarrow> (u32 \<Rightarrow> block) \<Rightarrow> u32 \<Rightarrow> block" where
  "recover_disk start d =
     (let h = d start; n = nat (sint (get32 h 0)) in
      (apply_writes (map (\<lambda>k. (get32 h (4 + 4 * k), d (start + of_nat k + 1))) [0..<n]) d)(start := put32 h 0 0))"

lemma content_clean:
  assumes ok: "bio_ok {} s" and m: "m \<notin> dirty_blocks s"
  shows "content s m = disk s m"
proof (cases "\<exists>j < NBUF. is_for m (bufs s ! j) \<and> valid (bufs s ! j)")
  case True
  then obtain j where j: "j < NBUF" "is_for m (bufs s ! j)" "valid (bufs s ! j)" by blast
  have "\<not> dirty (bufs s ! j)" using dirty_blocks_iff [OF ok j(1,2)] m by simp
  then show ?thesis using bio_okD(8) [OF ok j(1)] j content_cached [OF ok j] by (simp add: is_for_def)
next
  case False
  then show ?thesis using content_uncached [OF bio_okD(11) [OF ok]] by blast
qed

section \<open>Commit\<close>

definition commit_writes :: "'a log_state_scheme \<Rightarrow> (u32 \<times> block) list" where
  "commit_writes s =
     (let n = nat (lhn s); h = put_head (lhn s) (lhblock s) (content s (lstart s)) in
      map (\<lambda>k. (lpos s k, content s (lhblock s ! k))) [0..<n] @ [(lstart s, h)] @
      map (\<lambda>k. (lhblock s ! k, content s (lhblock s ! k))) [0..<n] @ [(lstart s, put32 h 0 0)])"

lemma start_in_area: "log_ok s \<Longrightarrow> lstart s \<in> log_area s"
  by (simp add: log_ok_def log_area_def)

lemma commit_spec:
  assumes ok: "bio_ok {} s" and l: "log_ok s" and n: "lhn s > 0" and D: "dirty_blocks s = set (take (nat (lhn s)) (lhblock s))"
  shows "\<exists>t. commit s = Ret t \<and> bio_ok {} t \<and> trace t = trace s @ commit_writes s \<and>
    disk t = apply_writes (commit_writes s) (disk s) \<and> content t = disk t \<and> dirty_blocks t = {} \<and>
    lhn t = 0 \<and> bio_only (s\<lparr>lhn := 0\<rparr>) t"
proof -
  let ?n = "nat (lhn s)" and ?h = "put_head (lhn s) (lhblock s) (content s (lstart s))"
  let ?L = "map (\<lambda>k. (lpos s k, content s (lhblock s ! k))) [0..<?n]"
  let ?I = "map (\<lambda>k. (lhblock s ! k, content s (lhblock s ! k))) [0..<?n]"
  note L = log_okD [OF l]
  have P: "lpos s k \<in> log_area s" "lpos s k \<noteq> lstart s" if "k < ?n" for k using lpos_unat [OF l, of k] that L(4) by simp_all
  have inj: "inj_on (lpos s) {..<?n}" using lpos_inj [OF l] by (rule inj_on_subset) (use L(4) in auto)
  from write_log_loop [OF ok l D, of ?n] obtain s1 where s1: "write_log s = Ret s1" "does ?L s s1" by (auto simp: write_log_def)
  note d1 = doesD [OF s1(2)] and F1 = log_frame [OF doesD(6) [OF s1(2)]] log_ok_frame [OF doesD(6) [OF s1(2)]]
  have "fst ` set ?L \<subseteq> log_area s" using P by auto
  then have D1: "dirty_blocks s1 = set (take ?n (lhblock s))" using d1(5) D log_blocks_outside [OF l] by blast
  have ns: "lstart s \<notin> fst ` set ?L"
  proof
    assume "lstart s \<in> fst ` set ?L"
    then obtain k where "k < ?n" "lpos s k = lstart s" by auto
    then show False using P(2) by blast
  qed
  have c1: "content s1 (lstart s) = content s (lstart s)" unfolding d1(2) by (rule apply_writes_notin [OF ns])
  have nd: "lstart s \<notin> set (take ?n (lhblock s))" using log_blocks_outside [OF l] start_in_area [OF l] by blast
  have "\<exists>t. write_head s1 = Ret t \<and> does [(lstart s1, put_head (lhn s1) (lhblock s1) (content s1 (lstart s1)))] s1 t"
    by (rule write_head_spec [OF d1(1)]) (use F1 l nd D1 log_room [OF d1(1) l] in simp_all)
  then obtain s2 where s2: "write_head s1 = Ret s2" "does [(lstart s, ?h)] s1 s2" using F1 c1 by auto
  note d2 = doesD [OF s2(2)] and F2 = log_frame [OF doesD(6) [OF s2(2)]] log_ok_frame [OF doesD(6) [OF s2(2)]]
  have D2: "dirty_blocks s2 = set (take ?n (lhblock s))" using d2(5) D1 nd by simp
  have c2: "content s2 (lpos s k) = content s (lhblock s ! k)" if "k < ?n" for k
    unfolding d2(2) d1(2) using P(2) [OF that] that inj apply_writes_map_at [of "lpos s" "[0..<?n]" k] by (simp add: atLeast0LessThan)
  have "\<exists>t. ofor install_block [0..<?n] s2 = Ret t \<and> does (map (\<lambda>k. (lhblock s2 ! k, content s2 (lpos s2 k))) [0..<?n]) s2 t"
    by (rule install_loop [OF d2(1)]) (use F1 F2 l D2 in simp_all)
  then obtain s3 where i3: "ofor install_block [0..<?n] s2 = Ret s3"
    "does (map (\<lambda>k. (lhblock s2 ! k, content s2 (lpos s2 k))) [0..<?n]) s2 s3" by blast
  have m: "map (\<lambda>k. (lhblock s2 ! k, content s2 (lpos s2 k))) [0..<?n] = ?I" using F1 F2 c2 by simp
  have s3: "install_trans s2 = Ret s3" "does ?I s2 s3"
    using i3(1) F1 F2 i3(2) [unfolded m] by (simp_all add: install_trans_def)
  note d3 = doesD [OF s3(2)] and F3 = log_frame [OF doesD(6) [OF s3(2)]] log_ok_frame [OF doesD(6) [OF s3(2)]]
  have "set (take ?n (lhblock s)) \<subseteq> fst ` set ?I"
    using L(3,5) nth_image [of ?n "lhblock s"] by (simp add: image_image)
  then have D3: "dirty_blocks s3 = {}" using d3(5) D2 by auto
  have c3: "content s3 (lstart s) = ?h"
  proof -
    have "lstart s \<notin> fst ` set ?I" using log_block_mem [OF l] nd by auto
    then show ?thesis unfolding d3(2) d2(2) using apply_writes_notin by simp
  qed
  let ?s3 = "s3\<lparr>lhn := 0\<rparr>"
  have ok3: "log_ok ?s3" using l F1 F2 F3 disksize_frame [OF d1(6)] disksize_frame [OF d2(6)] disksize_frame [OF d3(6)] L
    by (simp add: log_ok_def)
  have "\<exists>t. write_head ?s3 = Ret t \<and> does [(lstart ?s3, put_head (lhn ?s3) (lhblock ?s3) (content ?s3 (lstart ?s3)))] ?s3 t"
    by (rule write_head_spec) (use d3(1) ok3 D3 not_dirty [OF d3(1) D3, of 0] in \<open>auto intro!: exI [of _ 0]\<close>)
  then obtain t where t: "write_head ?s3 = Ret t" "does [(lstart s, put32 ?h 0 0)] ?s3 t" using F1 F2 F3 c3 by (auto simp: put_head_0)
  note d4 = doesD [OF t(2)]
  have "commit s = Ret t" using n s1(1) s2(1) s3(1) t(1) by (simp add: commit_def)
  moreover have "bio_only (s\<lparr>lhn := 0\<rparr>) t"
  proof -
    have "bio_only s s3" using bio_only_trans [OF d1(6) bio_only_trans [OF d2(6) d3(6)]] .
    then have "bio_only (s\<lparr>lhn := 0, lhblock := lhblock s3\<rparr>) (s3\<lparr>lhn := 0, lhblock := lhblock s3\<rparr>)" by (rule bio_only_log_fields)
    moreover have "s\<lparr>lhn := 0, lhblock := lhblock s3\<rparr> = s\<lparr>lhn := 0\<rparr>" using F1 F2 F3 by simp
    moreover have "s3\<lparr>lhn := 0, lhblock := lhblock s3\<rparr> = ?s3" by simp
    ultimately have "bio_only (s\<lparr>lhn := 0\<rparr>) ?s3" by (simp only:)
    then show ?thesis using bio_only_trans d4(6) by blast
  qed
  moreover have "lhn t = 0" using log_frame [OF d4(6)] by simp
  moreover have "dirty_blocks t = {}" using d4(5) D3 by simp
  moreover have "trace t = trace s @ commit_writes s" using d4(4) d3(4) d2(4) d1(4) by (simp add: commit_writes_def Let_def)
  moreover have "disk t = apply_writes (commit_writes s) (disk s)"
    using d4(3) d3(3) d2(3) d1(3) by (simp add: commit_writes_def Let_def)
  moreover have "content t = disk t" using content_clean [OF d4(1)] calculation(4) by auto
  ultimately show ?thesis using d4(1) by blast
qed


section \<open>Crashes\<close>

text \<open>A disk with the transaction of \<open>s\<close> in its log: recovery installs it.\<close>

lemma recover_installs:
  assumes l: "log_ok s" and n: "lhn s > 0" and h: "sint (get32 (d (lstart s)) 0) = lhn s"
    "\<And>k. k < nat (lhn s) \<Longrightarrow> get32 (d (lstart s)) (4 + 4 * k) = lhblock s ! k"
    and logged: "\<And>k. k < nat (lhn s) \<Longrightarrow> d (lpos s k) = c (lhblock s ! k)" and m: "m \<notin> log_area s"
  shows "recover_disk (lstart s) d m = (if m \<in> set (take (nat (lhn s)) (lhblock s)) then c m else d m)"
proof -
  let ?n = "nat (lhn s)"
  have e: "map (\<lambda>k. (get32 (d (lstart s)) (4 + 4 * k), d (lstart s + of_nat k + 1))) [0..<?n] =
      map (\<lambda>k. (lhblock s ! k, c (lhblock s ! k))) [0..<?n]" using h(2) logged by (simp add: lpos_def)
  have r: "recover_disk (lstart s) d m = apply_writes (map (\<lambda>k. (lhblock s ! k, c (lhblock s ! k))) [0..<?n]) d m"
    unfolding recover_disk_def Let_def h(1) e using m start_in_area [OF l] by auto
  have inj: "inj_on (\<lambda>k. lhblock s ! k) (set [0..<?n])" using log_block_inj [OF l] by (simp add: atLeast0LessThan)
  show ?thesis
  proof (cases "m \<in> set (take ?n (lhblock s))")
    case True
    then obtain k where k: "k < ?n" "m = lhblock s ! k" by (auto simp: in_set_conv_nth)
    then have "recover_disk (lstart s) d m = c m" using apply_writes_map_at [OF inj, of k "\<lambda>k. c (lhblock s ! k)" d] r by simp
    then show ?thesis using True by simp
  next
    case False
    then have "m \<notin> fst ` set (map (\<lambda>k. (lhblock s ! k, c (lhblock s ! k))) [0..<?n])" using log_block_mem [OF l] by auto
    then show ?thesis using False apply_writes_notin by (simp add: r)
  qed
qed

lemma recover_empty: "get32 (d st) 0 = 0 \<Longrightarrow> m \<noteq> st \<Longrightarrow> recover_disk st d m = d m"
  by (simp add: recover_disk_def Let_def)

lemma commit_final:
  assumes ok: "bio_ok {} s" and l: "log_ok s" and n: "lhn s > 0" and D: "dirty_blocks s = set (take (nat (lhn s)) (lhblock s))"
    and len: "length (content s (lstart s)) = BSIZE" and m: "m \<notin> log_area s"
  shows "apply_writes (commit_writes s) (disk s) m = content s m"
proof -
  let ?n = "nat (lhn s)" and ?h = "put_head (lhn s) (lhblock s) (content s (lstart s))"
  let ?L = "map (\<lambda>k. (lpos s k, content s (lhblock s ! k))) [0..<?n]"
  let ?I = "map (\<lambda>k. (lhblock s ! k, content s (lhblock s ! k))) [0..<?n]"
  have t: "commit_writes s = ?L @ [(lstart s, ?h)] @ ?I @ [(lstart s, put32 ?h 0 0)]" by (simp add: commit_writes_def Let_def)
  have "fst ` set ?L \<subseteq> log_area s" using lpos_unat(2) [OF l] log_okD(4) [OF l] by auto
  then have ne: "m \<noteq> lstart s" "m \<notin> fst ` set ?L" using m start_in_area [OF l] by auto
  show ?thesis
  proof (cases "m \<in> set (take ?n (lhblock s))")
    case True
    then obtain i where i: "i < ?n" "m = lhblock s ! i" by (auto simp: in_set_conv_nth)
    have "inj_on (\<lambda>k. lhblock s ! k) (set [0..<?n])" using log_block_inj [OF l] by (simp add: atLeast0LessThan)
    then show ?thesis unfolding t using i ne(1) apply_writes_map_at [of "\<lambda>k. lhblock s ! k" "[0..<?n]" i] by simp
  next
    case False
    then have "m \<notin> fst ` set ?I" using log_block_mem [OF l] by auto
    then show ?thesis unfolding t using ne content_clean [OF ok] D False by (simp add: apply_writes_notin)
  qed
qed

lemma commit_prefix:
  assumes ok: "bio_ok {} s" and l: "log_ok s" and n: "lhn s > 0" and D: "dirty_blocks s = set (take (nat (lhn s)) (lhblock s))"
    and empty: "get32 (disk s (lstart s)) 0 = 0" and len: "length (content s (lstart s)) = BSIZE"
  shows "(\<forall>m. m \<notin> log_area s \<longrightarrow> recover_disk (lstart s) (apply_writes (take k (commit_writes s)) (disk s)) m = disk s m) \<or>
    (\<forall>m. m \<notin> log_area s \<longrightarrow> recover_disk (lstart s) (apply_writes (take k (commit_writes s)) (disk s)) m = content s m)"
proof -
  let ?n = "nat (lhn s)" and ?h = "put_head (lhn s) (lhblock s) (content s (lstart s))"
  let ?L = "map (\<lambda>k. (lpos s k, content s (lhblock s ! k))) [0..<?n]"
  let ?I = "map (\<lambda>k. (lhblock s ! k, content s (lhblock s ! k))) [0..<?n]"
  let ?d = "apply_writes (take k (commit_writes s)) (disk s)"
  note L = log_okD [OF l]
  have P: "lpos s k \<in> log_area s" "lpos s k \<noteq> lstart s" if "k < ?n" for k using lpos_unat [OF l, of k] that L(4) by simp_all
  have inj: "inj_on (lpos s) {..<?n}" using lpos_inj [OF l] by (rule inj_on_subset) (use L(4) in auto)
  have La: "fst ` set ?L \<subseteq> log_area s" using P(1) by auto
  have Ls: "lstart s \<notin> fst ` set ?L"
  proof
    assume "lstart s \<in> fst ` set ?L"
    then obtain k where "k < ?n" "lpos s k = lstart s" by auto
    then show False using P(2) by blast
  qed
  have Ia: "fst ` set ?I \<inter> log_area s = {}" using L(10) by auto
  have ni: "int ?n = lhn s" "lhn s \<le> int LOGSIZE" using n L(3) by simp_all
  consider (a) "k \<le> ?n" | (mid) "?n < k" "k \<le> 2 * ?n + 1" | (c) "k \<ge> 2 * ?n + 2" by linarith
  then show ?thesis
  proof cases
    case a
    have t: "take k (commit_writes s) = take k ?L" using a by (simp add: commit_writes_def Let_def)
    have sub: "fst ` set (take k ?L) \<subseteq> fst ` set ?L" by (intro image_mono set_take_subset)
    have keep: "?d m = disk s m" if "m \<notin> fst ` set ?L" for m unfolding t using sub that by (intro apply_writes_notin) blast
    have "recover_disk (lstart s) ?d m = disk s m" if "m \<notin> log_area s" for m
    proof -
      have "m \<noteq> lstart s" "m \<notin> fst ` set ?L" using that start_in_area [OF l] La by auto
      then show ?thesis using recover_empty [of ?d "lstart s" m] keep [OF Ls] empty keep [of m] by simp
    qed
    then show ?thesis by blast
  next
    case mid
    define j where "j = k - ?n - 1"
    have b: "k = ?n + 1 + j" "j \<le> ?n" using mid by (simp_all add: j_def)
    have t: "take k (commit_writes s) = ?L @ [(lstart s, ?h)] @ take j ?I" using b by (simp add: commit_writes_def Let_def)
    have sub: "fst ` set (take j ?I) \<subseteq> fst ` set ?I" by (intro image_mono set_take_subset)
    have dh: "?d (lstart s) = ?h"
      unfolding t using sub Ia start_in_area [OF l] by (simp, subst apply_writes_notin) auto
    have dl: "?d (lpos s i) = content s (lhblock s ! i)" if "i < ?n" for i
    proof -
      have "lpos s i \<notin> fst ` set (take j ?I)" using sub Ia P(1) [OF that] by blast
      then show ?thesis unfolding t using P(2) [OF that] apply_writes_map_at [of "lpos s" "[0..<?n]" i] inj that
        by (simp add: apply_writes_notin atLeast0LessThan)
    qed
    have "recover_disk (lstart s) ?d m = content s m" if m: "m \<notin> log_area s" for m
    proof -
      have "recover_disk (lstart s) ?d m = (if m \<in> set (take ?n (lhblock s)) then content s m else ?d m)"
      proof (rule recover_installs [OF l n])
        show "sint (get32 (?d (lstart s)) 0) = lhn s" unfolding dh using put_head_n [OF len] ni n by simp
        show "get32 (?d (lstart s)) (4 + 4 * i) = lhblock s ! i" if "i < ?n" for i
          unfolding dh using put_head_block [OF len] ni that by (simp add: nat_less_iff)
      qed (use dl m in simp_all)
      moreover have "?d m = disk s m" if "m \<notin> set (take ?n (lhblock s))"
      proof -
        have "m \<notin> fst ` set ?I" using that log_block_mem [OF l] by auto
        then have "m \<notin> fst ` set (take j ?I)" "m \<notin> fst ` set ?L" "m \<noteq> lstart s" using m La start_in_area [OF l] sub by blast+
        then show ?thesis unfolding t by (intro apply_writes_notin) (simp only: set_append image_Un list.set image_insert fst_conv, blast)
      qed
      ultimately show ?thesis using content_clean [OF ok] D by auto
    qed
    then show ?thesis by blast
  next
    case c
    have t: "take k (commit_writes s) = commit_writes s" using c by (simp add: commit_writes_def Let_def)
    have dh: "get32 (?d (lstart s)) 0 = 0" unfolding t using len by (simp add: commit_writes_def Let_def)
    have "recover_disk (lstart s) ?d m = content s m" if m: "m \<notin> log_area s" for m
      using recover_empty [of ?d "lstart s" m] dh m start_in_area [OF l] commit_final [OF ok l n D len m] unfolding t by auto
    then show ?thesis by blast
  qed
qed


text \<open>
  C1: a commit is atomic. Of a transaction of at most 29 blocks over an idle cache and an empty log, \<open>commit\<close>
  returns; and wherever a crash cuts the sequence of its disk writes, recovery brings every block outside
  the log either to its content before the transaction or to its content after it, and the
  same way for all blocks. After a complete commit the disk holds the new contents.
\<close>

theorem commit_atomic:
  assumes "bio_ok {} s" "log_ok s" "lhn s > 0" "dirty_blocks s = set (take (nat (lhn s)) (lhblock s))"
    "get32 (disk s (lstart s)) 0 = 0"
  shows "\<exists>t ws. commit s = Ret t \<and> trace t = trace s @ ws \<and> disk t = apply_writes ws (disk s) \<and>
    (\<forall>m. m \<notin> log_area s \<longrightarrow> disk t m = content s m) \<and>
    (\<forall>k. let d = recover_disk (lstart s) (apply_writes (take k ws) (disk s)) in
       (\<forall>m. m \<notin> log_area s \<longrightarrow> d m = disk s m) \<or> (\<forall>m. m \<notin> log_area s \<longrightarrow> d m = content s m))"
proof -
  from commit_spec [OF assms(1-4)] obtain t where t: "commit s = Ret t" "trace t = trace s @ commit_writes s"
    "disk t = apply_writes (commit_writes s) (disk s)" by blast
  have "lstart s \<notin> dirty_blocks s" using assms(4) log_blocks_outside [OF assms(2)] start_in_area [OF assms(2)] by blast
  then have len: "length (content s (lstart s)) = BSIZE" using content_clean [OF assms(1)] bio_okD(6) [OF assms(1)] by simp
  note C = commit_prefix [OF assms len]
  have "disk t m = content s m" if "m \<notin> log_area s" for m
    using commit_final [OF assms(1-4) len that] t(3) by simp
  with t C show ?thesis by (intro exI [of _ t] exI [of _ "commit_writes s"]) (simp add: Let_def)
qed

text \<open>Recovery at boot does what \<open>recover_disk\<close> says.\<close>

definition header_ok :: "'a log_state_scheme \<Rightarrow> bool" where
  "header_ok s \<longleftrightarrow> (let h = disk s (lstart s); n = sint (get32 h 0) in
     ldev s = 1 \<and> unat (lsize s) \<le> NBUF \<and> unat (lstart s) + unat (lsize s) \<le> unat (disksize s) \<and> length (lhblock s) = LOGSIZE \<and>
     0 \<le> n \<and> nat n < NBUF \<and> nat n < unat (lsize s) \<and> distinct (map (\<lambda>k. get32 h (4 + 4 * k)) [0..<nat n]) \<and>
     (\<forall>k < nat n. get32 h (4 + 4 * k) < disksize s \<and> get32 h (4 + 4 * k) \<notin> log_area s))"

lemma read_head_spec:
  assumes ok: "bio_ok {} s" and D: "dirty_blocks s = {}" and h: "header_ok s"
  shows "\<exists>t. read_head s = Ret t \<and> log_ok t \<and> bio_ok {} t \<and> dirty_blocks t = {} \<and> disk t = disk s \<and> lstart t = lstart s \<and> log_area t = log_area s \<and>
    lhn t = sint (get32 (disk s (lstart s)) 0) \<and> (\<forall>k < nat (lhn t). lhblock t ! k = get32 (disk s (lstart s)) (4 + 4 * k))"
proof -
  let ?h = "disk s (lstart s)"
  let ?n = "sint (get32 ?h 0)"
  have H: "ldev s = 1" "unat (lstart s) + unat (lsize s) \<le> unat (disksize s)" "length (lhblock s) = LOGSIZE" "0 \<le> ?n" "nat ?n < NBUF" "nat ?n < unat (lsize s)"
    "distinct (map (\<lambda>k. get32 ?h (4 + 4 * k)) [0..<nat ?n])" "\<forall>k < nat ?n. get32 ?h (4 + 4 * k) < disksize s \<and> get32 ?h (4 + 4 * k) \<notin> log_area s" "unat (lsize s) \<le> NBUF"
    using h by (simp_all add: header_ok_def Let_def)
  have n: "lstart s < disksize s" using H(2,6) by (simp add: word_less_nat_alt)
  obtain i s1 where r: "bread 1 (lstart s) s = Ret (i, s1)"
    using bread_returns [OF ok n] not_dirty [OF ok D, of 0] by fastforce
  note R = bread_spec [OF ok r]
  have c: "bdata (bufs s1 ! i) = ?h" using R(5) content_clean [OF ok, of "lstart s"] D by simp
  let ?bs = "map (\<lambda>k. get32 ?h (4 + 4 * k)) [0..<nat ?n] @ drop (nat ?n) (lhblock s)"
  let ?s2 = "s1\<lparr>lhn := ?n, lhblock := ?bs\<rparr>"
  have ok2: "bio_ok {i} ?s2" "is_for (lstart s) (bufs ?s2 ! i)" using R(3,4) by simp_all
  have cl: "lstart s \<in> dirty_blocks ?s2 \<or> content ?s2 (lstart s) = disk ?s2 (lstart s)" using R(6,7) content_clean [OF ok, of "lstart s"] D by simp
  from brelse_spec [OF ok2(1) _ ok2(2) cl] obtain t where z: "brelse i ?s2 = Ret t" "bio_ok ({i} - {i}) t" "content t = content ?s2"
    "dirty_blocks t = dirty_blocks ?s2" "disk t = disk ?s2" "bio_only ?s2 t" by auto
  have F: "ldev s1 = ldev s" "lhblock s1 = lhblock s" "lstart s1 = lstart s" "lsize s1 = lsize s" "disksize s1 = disksize s"
    using log_frame [OF R(11)] disksize_frame [OF R(11)] by simp_all
  have "read_head s = Ret t"
    unfolding read_head_def using r z(1) H(1,5) F c by (simp add: Let_def)
  moreover have G: "ldev t = 1" "lhn t = ?n" "lhblock t = ?bs" "lstart t = lstart s" "lsize t = lsize s" "disksize t = disksize s"
    using log_frame [OF z(6)] disksize_frame [OF z(6)] F H(1) by simp_all
  moreover have "log_area t = log_area s" using G by (simp add: log_area_def)
  moreover from this have "log_ok t"
    unfolding log_ok_def using H G by (simp add: nth_append)
  moreover have "lhblock t ! k = get32 ?h (4 + 4 * k)" if "k < nat ?n" for k using that G by (simp add: nth_append)
  ultimately show ?thesis using z R D by (intro exI [of _ t]) simp
qed

text \<open>
  C7: recovery refines its specification. On a freshly booted cache, with a log header that
  names distinct blocks outside the log, \<open>recover_from_log\<close> returns, the disk becomes the one
  \<open>recover_disk\<close> computes from the old one, and the log is empty.
\<close>

theorem recovery_refines:
  assumes ok: "bio_ok {} s" and D: "dirty_blocks s = {}" and h: "header_ok s"
  shows "\<exists>t. recover_from_log s = Ret t \<and> disk t = recover_disk (lstart s) (disk s) \<and> content t = disk t \<and>
    bio_ok {} t \<and> lhn t = 0 \<and> get32 (disk t (lstart s)) 0 = 0"
proof -
  from read_head_spec [OF ok D h] obtain s1 where r: "read_head s = Ret s1" "log_ok s1" "bio_ok {} s1" "dirty_blocks s1 = {}" "disk s1 = disk s"
    "lstart s1 = lstart s" "log_area s1 = log_area s"
    "lhn s1 = sint (get32 (disk s (lstart s)) 0)" "\<forall>k < nat (lhn s1). lhblock s1 ! k = get32 (disk s (lstart s)) (4 + 4 * k)" by blast
  let ?n = "nat (lhn s1)" and ?h = "disk s (lstart s)"
  let ?W = "map (\<lambda>k. (get32 ?h (4 + 4 * k), disk s (lstart s + of_nat k + 1))) [0..<?n]"
  note L = log_okD [OF r(2)]
  have cc: "content s1 = disk s" using content_clean [OF r(3)] r(4,5) by auto
  have "map (\<lambda>k. (lhblock s1 ! k, content s1 (lpos s1 k))) [0..<?n] = ?W" using r(6,9) cc by (simp add: lpos_def)
  with install_loop [OF r(3,2), of ?n] r(4) obtain s2 where i: "install_trans s1 = Ret s2" "does ?W s1 s2" by (auto simp: install_trans_def)
  note d = doesD [OF i(2)] and F = log_frame [OF doesD(6) [OF i(2)]] disksize_frame [OF doesD(6) [OF i(2)]]
  have D2: "dirty_blocks s2 = {}" using d(5) r(4) by simp
  let ?s3 = "s2\<lparr>lhn := 0\<rparr>"
  have l3: "log_ok ?s3" using L F by (simp add: log_ok_def)
  have room: "\<exists>i < NBUF. \<not> dirty (bufs ?s3 ! i)" using not_dirty [OF d(1) D2, of 0] by (auto intro!: exI [of _ 0])
  have "\<exists>t. write_head ?s3 = Ret t \<and> does [(lstart ?s3, put_head (lhn ?s3) (lhblock ?s3) (content ?s3 (lstart ?s3)))] ?s3 t"
    by (rule write_head_spec [OF _ l3 room]) (use d(1) D2 in simp_all)
  then obtain t where t: "write_head ?s3 = Ret t" "does [(lstart s, put32 (content s2 (lstart s)) 0 0)] ?s3 t" using F r(6) by (auto simp: put_head_0)
  note e = doesD [OF t(2)]
  have "lstart s \<notin> fst ` set ?W"
  proof
    assume "lstart s \<in> fst ` set ?W"
    then obtain k where "k < ?n" "lhblock s1 ! k = lstart s1" using r(6,9) by auto
    then show False using L(10) start_in_area [OF r(2)] by metis
  qed
  then have hd: "content s2 (lstart s) = ?h" using d(2) cc apply_writes_notin by simp
  have dt: "disk t = recover_disk (lstart s) (disk s)"
    using e(3) d(3) r(5,8) hd by (simp add: recover_disk_def Let_def)
  moreover have "content t = disk t" using content_clean [OF e(1)] e(5) D2 by auto
  moreover have "recover_from_log s = Ret t" using r(1) i(1) t(1) by (simp add: recover_from_log_def)
  moreover have "lhn t = 0" using log_frame [OF e(6)] by simp
  moreover have "get32 (disk t (lstart s)) 0 = 0" using dt bio_okD(6) [OF ok] by (simp add: recover_disk_def Let_def)
  ultimately show ?thesis using e(1) by blast
qed


section \<open>Writing through the log\<close>

text \<open>Between system calls that write, the dirty blocks are those the log remembers.\<close>

definition trans_ok :: "'a log_state_scheme \<Rightarrow> bool" where
  "trans_ok s \<longleftrightarrow> log_ok s \<and> dirty_blocks s = set (take (nat (lhn s)) (lhblock s))"

lemma upd_buf_log [simp]:
  "lhn (upd_buf i f s) = lhn s" "lhblock (upd_buf i f s) = lhblock s" "lstart (upd_buf i f s) = lstart s" "lsize (upd_buf i f s) = lsize s"
  "ldev (upd_buf i f s) = ldev s" "loutstanding (upd_buf i f s) = loutstanding s" "lcommitting (upd_buf i f s) = lcommitting s"
  by (simp_all add: upd_buf_def)

text \<open>What \<open>log_write\<close> may change.\<close>

definition log_only :: "'a log_state_scheme \<Rightarrow> 'a log_state_scheme \<Rightarrow> bool" where
  "log_only s s' \<longleftrightarrow> (\<exists>n b. bio_only (s\<lparr>lhn := n, lhblock := b\<rparr>) s')"

lemma log_only_refl [simp]: "log_only s s"
  unfolding log_only_def by (intro exI [of _ "lhn s"] exI [of _ "lhblock s"]) simp

lemma bio_only_log_only: "bio_only s s' \<Longrightarrow> log_only s s'"
  unfolding log_only_def by (intro exI [of _ "lhn s"] exI [of _ "lhblock s"]) simp

lemma log_only_trans:
  assumes "log_only s t" "log_only t u"
  shows "log_only s u"
proof -
  obtain n b n' b' where 1: "bio_only (s\<lparr>lhn := n, lhblock := b\<rparr>) t" and 2: "bio_only (t\<lparr>lhn := n', lhblock := b'\<rparr>) u"
    using assms by (auto simp: log_only_def)
  have "bio_only (s\<lparr>lhn := n', lhblock := b'\<rparr>) (t\<lparr>lhn := n', lhblock := b'\<rparr>)" using bio_only_log_fields [OF 1, where n = n' and b = b'] by simp
  then show ?thesis using bio_only_trans [OF _ 2] unfolding log_only_def by blast
qed

lemma log_write_spec:
  assumes ok: "bio_ok H s" and t: "trans_ok s" and i: "i \<in> H" and n: "is_for n (bufs s ! i)" "n < disksize s" "n \<notin> log_area s"
    and r: "log_write i s = Ret s'"
  shows "bio_ok H s'" "content s' = content s" "disk s' = disk s" "trace s' = trace s" "trans_ok s'" "dirty_blocks s' = insert n (dirty_blocks s)"
    "log_only s s'" "\<And>j. is_for m (bufs s' ! j) = is_for m (bufs s ! j)" "lstart s' = lstart s" "log_area s' = log_area s" "loutstanding s' = loutstanding s"
proof -
  let ?n = "nat (lhn s)" and ?bs = "lhblock s"
  have l: "log_ok s" and D: "dirty_blocks s = set (take ?n ?bs)" using t by (simp_all add: trans_ok_def)
  note L = log_okD [OF l]
  have b: "bblockno (bufs s ! i) = n" using n(1) by (simp add: is_for_def)
  let ?k = "case scan (\<lambda>b. b = n) (take ?n ?bs) of Some k \<Rightarrow> k | None \<Rightarrow> ?n"
  define s1 where "s1 = s\<lparr>lhblock := ?bs[?k := n], lhn := (if int ?k = lhn s then lhn s + 1 else lhn s)\<rparr>"
  have lim: "lhn s < int LOGSIZE" "lhn s < sint (lsize s) - 1" using r by (auto simp: log_write_def Let_def split: if_splits)
  have sz: "sint (lsize s) = int (unat (lsize s))"
    using L(11) by (intro sint_small) simp
  have lim2: "nat (lhn s + 1) < unat (lsize s)" "nat (lhn s + 1) < NBUF" using lim(2) L(8,11) unfolding sz by linarith+
  have s': "s' = upd_buf i (\<lambda>b. b\<lparr>bflags := bflags b OR 4\<rparr>) s1"
    using r lim unfolding log_write_def b s1_def by (auto simp: Let_def split: if_splits)
  have rel: "take (nat (lhn s1)) (lhblock s1) = (if n \<in> set (take ?n ?bs) then take ?n ?bs else take ?n ?bs @ [n]) \<and>
      (if n \<in> set (take ?n ?bs) then lhn s1 = lhn s else lhn s1 = lhn s + 1) \<and> length (lhblock s1) = LOGSIZE"
  proof (cases "scan (\<lambda>b. b = n) (take ?n ?bs)")
    case None
    then have "n \<notin> set (take ?n ?bs)" by auto
    then show ?thesis using None lim(1) L(5,8) unfolding s1_def None by (simp add: take_Suc_conv_app_nth nat_add_distrib)
  next
    case (Some k)
    note k = scan_SomeD [OF Some]
    have "?bs[k := n] = ?bs" using k by auto
    moreover have "n \<in> set (take ?n ?bs)" using k by (metis nth_mem)
    ultimately show ?thesis using k L(5) unfolding s1_def Some by auto
  qed
  have F: "disksize s1 = disksize s" "log_area s1 = log_area s" "ldev s1 = ldev s" "lstart s1 = lstart s" "lsize s1 = lsize s"
    by (simp_all add: s1_def log_area_def)
  have mem: "x < disksize s" "x \<notin> log_area s" if "x \<in> set (take ?n ?bs)" for x using that L(9,10) by (auto simp: in_set_conv_nth)
  have l1: "log_ok s1"
    unfolding log_ok_def
  proof (intro conjI allI impI)
    fix k assume k: "k < nat (lhn s1)"
    then have "lhblock s1 ! k = take (nat (lhn s1)) (lhblock s1) ! k" by simp
    also have "\<dots> \<in> set (take (nat (lhn s1)) (lhblock s1))"
      using k rel lim(1) L(5) by (intro nth_mem) (auto split: if_splits)
    finally have "lhblock s1 ! k \<in> insert n (set (take ?n ?bs))" using rel by (auto split: if_splits)
    then show "lhblock s1 ! k < disksize s1" "lhblock s1 ! k \<notin> log_area s1"
      using n(2,3) mem unfolding F by auto
  next
    show "distinct (take (nat (lhn s1)) (lhblock s1))" using rel L(6) by (simp split: if_splits)
  qed (use rel L lim2 in \<open>simp_all add: F split: if_splits\<close>)
  have ok1: "bio_ok H s1" "content s1 = content s" "dirty_blocks s1 = dirty_blocks s" "is_for n (bufs s1 ! i)"
    using ok n(1) by (simp_all add: s1_def)
  note Q = set_dirty_spec [OF ok1(1) i ok1(4), folded s']
  show "bio_ok H s'" "content s' = content s" "dirty_blocks s' = insert n (dirty_blocks s)" using Q ok1 by simp_all
  show "disk s' = disk s" "trace s' = trace s" "lstart s' = lstart s" "log_area s' = log_area s" "loutstanding s' = loutstanding s"
    by (simp_all add: s' s1_def log_area_def)
  show "is_for m (bufs s' ! j) = is_for m (bufs s ! j)" for j by (auto simp: s' s1_def nth_upd_cases is_for_def)
  have "log_ok s'" using l1 unfolding s' log_ok_def by (simp add: log_area_def)
  moreover have "insert n (set (take ?n ?bs)) = set (take (nat (lhn s1)) (lhblock s1))" using rel by auto
  ultimately show "trans_ok s'" unfolding trans_ok_def using Q(3) ok1(3) D by (simp add: s')
  have "bio_only s1 s'" unfolding s' by (rule bio_only_upd_buf)
  moreover have "s1 = s\<lparr>lhn := lhn s1, lhblock := lhblock s1\<rparr>" by (cases s) (simp add: s1_def)
  ultimately have "bio_only (s\<lparr>lhn := lhn s1, lhblock := lhblock s1\<rparr>) s'" by (simp only:)
  then show "log_only s s'" unfolding log_only_def by blast
qed

text \<open>The logged update of a block: read it, change the bytes, \<open>log_write\<close>, release.\<close>

definition can_log :: "'a log_state_scheme \<Rightarrow> u32 \<Rightarrow> bool" where
  "can_log s n \<longleftrightarrow> n < disksize s \<and> n \<notin> log_area s \<and> 1 \<le> loutstanding s \<and> lhn s < int LOGSIZE \<and> lhn s < sint (lsize s) - 1"

lemma cache_room:
  assumes ok: "bio_ok H s" and t: "trans_ok s" and f: "finite H" "card H + nat (lhn s) < NBUF"
  shows "\<exists>i < NBUF. i \<notin> H \<and> \<not> dirty (bufs s ! i)"
proof (rule ccontr)
  assume a: "\<not> ?thesis"
  have sub: "(\<lambda>i. bblockno (bufs s ! i)) ` ({..<NBUF} - H) \<subseteq> dirty_blocks s"
    using a bio_okD(7) [OF ok] by (auto simp: dirty_blocks_def is_for_def)
  have inj: "inj_on (\<lambda>i. bblockno (bufs s ! i)) ({..<NBUF} - H)"
  proof (rule inj_onI)
    fix x y assume x: "x \<in> {..<NBUF} - H" and y: "y \<in> {..<NBUF} - H" and e: "bblockno (bufs s ! x) = bblockno (bufs s ! y)"
    have "bdev (bufs s ! x) = 1" "bdev (bufs s ! y) = 1" using a x y bio_okD(7) [OF ok] by auto
    then show "x = y" using bio_okD(4) [OF ok, of x y "bblockno (bufs s ! x)"] x y e by (simp add: is_for_def)
  qed
  have D: "dirty_blocks s = set (take (nat (lhn s)) (lhblock s))" using t by (simp add: trans_ok_def)
  have "NBUF - card H \<le> card ({..<NBUF} - H)" using f(1) diff_card_le_card_Diff [of H "{..<NBUF}"] by simp
  also have "\<dots> = card ((\<lambda>i. bblockno (bufs s ! i)) ` ({..<NBUF} - H))" using inj by (simp add: card_image)
  also have "\<dots> \<le> card (dirty_blocks s)" using sub unfolding D by (intro card_mono) simp_all
  also have "\<dots> \<le> nat (lhn s)" unfolding D using card_length [of "take (nat (lhn s)) (lhblock s)"] by simp
  finally show False using f(2) by linarith
qed

lemma bread_in_trans:
  assumes ok: "bio_ok H s" and t: "trans_ok s" and f: "finite H" "card H + nat (lhn s) < NBUF" and n: "n < disksize s"
    and free: "\<And>i. i \<in> H \<Longrightarrow> \<not> is_for n (bufs s ! i)"
  shows "\<exists>i s'. bread 1 n s = Ret (i, s')"
  using bread_returns [OF ok n free] cache_room [OF ok t f] by blast

lemma bio_only_trans_ok: "bio_only s s' \<Longrightarrow> dirty_blocks s' = dirty_blocks s \<Longrightarrow> trans_ok s \<Longrightarrow> trans_ok s'"
  unfolding trans_ok_def log_ok_def log_area_def using log_frame [of s s'] disksize_frame [of s s'] by simp


lemma content_length: "bio_ok H s \<Longrightarrow> length (content s n) = BSIZE"
  using bio_okD(5,6) [of H s] by (auto simp: content_def split: option.splits dest: scan_SomeD)

lemma bio_ok_length: "bio_ok H s \<Longrightarrow> length (bufs s) = NBUF + 1"
  using bio_okD(1) [of H s] ringD(4) by blast

definition tx :: "'a log_state_scheme \<Rightarrow> bool" where
  "tx s \<longleftrightarrow> bio_ok {} s \<and> trans_ok s"

lemma txD: "tx s \<Longrightarrow> bio_ok {} s" "tx s \<Longrightarrow> trans_ok s" "tx s \<Longrightarrow> ldev s = 1" "tx s \<Longrightarrow> nat (lhn s) < NBUF" "tx s \<Longrightarrow> 0 \<le> lhn s"
  "tx s \<Longrightarrow> length (content s n) = BSIZE"
proof -
  show "tx s \<Longrightarrow> bio_ok {} s" "tx s \<Longrightarrow> trans_ok s" by (simp_all add: tx_def)
  show "tx s \<Longrightarrow> ldev s = 1" "tx s \<Longrightarrow> nat (lhn s) < NBUF" "tx s \<Longrightarrow> 0 \<le> lhn s" by (auto simp: tx_def trans_ok_def dest: log_okD)
  show "tx s \<Longrightarrow> length (content s n) = BSIZE" by (rule content_length [of "{}"]) (simp add: tx_def)
qed

lemma read_block:
  assumes "tx s" "n < disksize s"
  shows "\<exists>i s1 s2. bread 1 n s = Ret (i, s1) \<and> bdata (bufs s1 ! i) = content s n \<and> brelse i s1 = Ret s2 \<and> tx s2 \<and>
    content s2 = content s \<and> disk s2 = disk s \<and> trace s2 = trace s \<and> dirty_blocks s2 = dirty_blocks s \<and> bio_only s s1 \<and> bio_only s s2"
proof -
  note t = txD [OF assms(1)]
  obtain i s1 where r: "bread 1 n s = Ret (i, s1)" using bread_in_trans [OF t(1,2), of n] t(4) assms(2) by auto
  note b = bread_spec [OF t(1) r]
  have "n \<in> dirty_blocks s1 \<or> content s1 n = disk s1 n" using b by auto
  from brelse_spec [OF b(3) _ b(4) this] obtain s2 where s2: "brelse i s1 = Ret s2" "bio_ok {} s2" "content s2 = content s" "dirty_blocks s2 = dirty_blocks s"
    "disk s2 = disk s" "trace s2 = trace s" "bio_only s1 s2" using b by auto
  have o: "bio_only s s2" using bio_only_trans [OF b(11) s2(7)] .
  show ?thesis using r b(5,11) s2 o bio_only_trans_ok [OF o s2(4) t(2)] unfolding tx_def by blast
qed

lemma upd_bdata_const: "i < length (bufs s) \<Longrightarrow> upd_buf i (\<lambda>b. b\<lparr>bdata := f (bdata b)\<rparr>) s = upd_buf i (\<lambda>b. b\<lparr>bdata := f (bdata (bufs s ! i))\<rparr>) s"
  by (simp add: upd_buf_def)

lemma update_block:
  assumes tx: "tx s" and n: "can_log s n" and len: "length (f (content s n)) = BSIZE"
  shows "\<exists>i s1 s2 s3. bread 1 n s = Ret (i, s1) \<and> bdata (bufs s1 ! i) = content s n \<and>
    log_write i (upd_buf i (\<lambda>b. b\<lparr>bdata := f (bdata b)\<rparr>) s1) = Ret s2 \<and> brelse i s2 = Ret s3 \<and> tx s3 \<and> bio_only s s1 \<and>
    content s3 = (content s)(n := f (content s n)) \<and> disk s3 = disk s \<and> trace s3 = trace s \<and> dirty_blocks s3 = insert n (dirty_blocks s) \<and>
    log_only s s3"
proof -
  note t = txD [OF tx]
  have l: "n < disksize s" "n \<notin> log_area s" "1 \<le> loutstanding s" "lhn s < int LOGSIZE" "lhn s < sint (lsize s) - 1" using n by (simp_all add: can_log_def)
  obtain i s1 where r: "bread 1 n s = Ret (i, s1)" using bread_in_trans [OF t(1,2), of n] t(4) l(1) by auto
  note b = bread_spec [OF t(1) r] and F = log_frame [OF bread_spec(11) [OF t(1) r]] disksize_frame [OF bread_spec(11) [OF t(1) r]]
  have I: "i \<in> insert i {}" by simp
  let ?u = "upd_buf i (\<lambda>b. b\<lparr>bdata := f (content s n)\<rparr>) s1"
  have u: "upd_buf i (\<lambda>b. b\<lparr>bdata := f (bdata b)\<rparr>) s1 = ?u"
    using upd_bdata_const [of i s1 f] b(1,5) bio_ok_length [OF b(3)] by simp
  note D = set_data_spec [OF b(3) I b(4) len]
  have t1: "trans_ok s1" using bio_only_trans_ok [OF b(11) b(9) t(2)] .
  have tu: "trans_ok ?u" using t1 D(3) unfolding trans_ok_def log_ok_def log_area_def by simp
  have nu: "n < disksize ?u" "n \<notin> log_area ?u" using l F by (simp_all add: log_area_def)
  obtain s2 where w: "log_write i ?u = Ret s2" using l F by (simp add: log_write_def Let_def)
  note W = log_write_spec [OF D(1) tu I D(4) nu w]
  have "n \<in> dirty_blocks s2 \<or> content s2 n = disk s2 n" using W(6) by simp
  moreover have "is_for n (bufs s2 ! i)" using W(8) D(4) by simp
  ultimately obtain s3 where s3: "brelse i s2 = Ret s3" "bio_ok {} s3" "content s3 = content s2" "dirty_blocks s3 = dirty_blocks s2"
    "disk s3 = disk s2" "trace s3 = trace s2" "bio_only s2 s3" using brelse_spec [OF W(1) I, of n] b(2) by auto
  have "trans_ok s3" using bio_only_trans_ok [OF s3(7,4) W(5)] .
  moreover have "log_only s s3"
    using log_only_trans [OF bio_only_log_only [OF b(11)] log_only_trans [OF bio_only_log_only [OF bio_only_upd_buf] log_only_trans [OF W(7) bio_only_log_only [OF s3(7)]]]] .
  moreover have "disk s2 = disk s" "trace s2 = trace s" "content s2 = (content s)(n := f (content s n))" "dirty_blocks s2 = insert n (dirty_blocks s)"
    using W D b(6-9) by simp_all
  moreover have "log_write i (upd_buf i (\<lambda>b. b\<lparr>bdata := f (bdata b)\<rparr>) s1) = Ret s2" unfolding u by (rule w)
  ultimately show ?thesis using r b(5,11) s3 unfolding tx_def by (intro exI [of _ i] exI [of _ s1] exI [of _ s2] exI [of _ s3]) simp
qed


section \<open>The claims at work\<close>

text \<open>The log occupies the blocks 2 to 31; one system call is in progress.\<close>

definition log_demo :: "'a \<Rightarrow> 'a log_state_scheme" where
  "log_demo m = bio_demo \<lparr>lstart = 2, lsize = 30, loutstanding = 1, lcommitting = False, ldev = 1, lhn = 0,
     lhblock = replicate LOGSIZE 0, \<dots> = m\<rparr>"

lemma binit_only: "\<exists>sl bf. binit s = s\<lparr>slocks := sl, bufs := bf\<rparr>"
proof -
  have "\<exists>sl bf. fold (\<lambda>i s. link_front i (initsleeplock (BufLock i) s)) xs t = t\<lparr>slocks := sl, bufs := bf\<rparr>" for xs and t :: "'a bio_state_scheme"
  proof (induction xs arbitrary: t)
    case Nil
    show ?case by (intro exI [of _ "slocks t"] exI [of _ "bufs t"]) simp
  next
    case (Cons i xs)
    have "initsleeplock (BufLock i) t = t\<lparr>slocks := slocks (initsleeplock (BufLock i) t)\<rparr>" by (simp add: initsleeplock_def upd_slock_def)
    moreover have "link_front i u = u\<lparr>bufs := bufs (link_front i u)\<rparr>" for u :: "'a bio_state_scheme"
      by (simp add: link_front_def upd_buf_def Let_def)
    ultimately obtain sl bf where e: "link_front i (initsleeplock (BufLock i) t) = t\<lparr>slocks := sl, bufs := bf\<rparr>" by metis
    show ?case using Cons.IH [of "t\<lparr>slocks := sl, bufs := bf\<rparr>"] e by simp
  qed
  from this [of _ "upd_buf HEAD (\<lambda>b. b\<lparr>bprev := HEAD, bnext := HEAD\<rparr>) s"] show ?thesis by (simp add: binit_def Let_def upd_buf_def)
qed

lemma binit_keeps: "(\<And>sl bf. f (s\<lparr>slocks := sl, bufs := bf\<rparr>) = f s) \<Longrightarrow> f (binit s) = f s"
  using binit_only [of s] by auto

lemma binit_log [simp]:
  "lstart (binit s) = lstart s" "lsize (binit s) = lsize s" "loutstanding (binit s) = loutstanding s" "lcommitting (binit s) = lcommitting s"
  "ldev (binit s) = ldev s" "lhn (binit s) = lhn s" "lhblock (binit s) = lhblock s"
  by (rule binit_keeps, simp)+

lemma log_demo_fields [simp]:
  "lstart (log_demo m) = 2" "lsize (log_demo m) = 30" "loutstanding (log_demo m) = 1" "lcommitting (log_demo m) = False" "ldev (log_demo m) = 1"
  "lhn (log_demo m) = 0" "lhblock (log_demo m) = replicate LOGSIZE 0" "disksize (log_demo m) = 1000"
  by (simp_all add: log_demo_def bio_demo_def binit_disksize)

lemma log_demo_ok:
  "tx (log_demo m)" "content (log_demo m) = (\<lambda>_. replicate BSIZE 0)" "disk (log_demo m) = (\<lambda>_. replicate BSIZE 0)" "dirty_blocks (log_demo m) = {}"
proof -
  show 2: "dirty_blocks (log_demo m) = {}" "content (log_demo m) = (\<lambda>_. replicate BSIZE 0)" "disk (log_demo m) = (\<lambda>_. replicate BSIZE 0)"
    by (simp_all add: log_demo_def bio_demo_ok)
  have "log_ok (log_demo m)" unfolding log_ok_def by simp
  moreover have "bio_ok {} (log_demo m)" by (simp add: log_demo_def bio_demo_ok)
  ultimately show "tx (log_demo m)" by (simp add: tx_def trans_ok_def 2)
qed

lemma log_demo_can_log: "32 \<le> unat n \<Longrightarrow> unat n < 1000 \<Longrightarrow> can_log (log_demo m) n"
  by (simp add: can_log_def log_area_def word_less_nat_alt)

theorem commit_atomic_witness:
  "\<exists>i s1 s2 s3 t. bread 1 100 (log_demo ()) = Ret (i, s1) \<and> log_write i (upd_buf i (\<lambda>b. b\<lparr>bdata := replicate 512 65\<rparr>) s1) = Ret s2 \<and>
     brelse i s2 = Ret s3 \<and> commit s3 = Ret t \<and> disk t 100 = replicate 512 65"
proof -
  obtain i s1 s2 s3 where r: "bread 1 100 (log_demo ()) = Ret (i, s1)" "log_write i (upd_buf i (\<lambda>b. b\<lparr>bdata := replicate 512 65\<rparr>) s1) = Ret s2"
    "brelse i s2 = Ret s3" "tx s3" "content s3 = (content (log_demo ()))(100 := replicate 512 65)" "disk s3 = disk (log_demo ())"
    "dirty_blocks s3 = {100}" "log_only (log_demo ()) s3"
    using update_block [OF log_demo_ok(1) log_demo_can_log, of 100 "\<lambda>_. replicate 512 65" "()"] log_demo_ok(4) [of "()"] by auto
  have F: "lstart s3 = 2" "log_area s3 = log_area (log_demo ())" using r(8) by (auto simp: log_only_def bio_only_def log_area_def)
  have t: "log_ok s3" "dirty_blocks s3 = set (take (nat (lhn s3)) (lhblock s3))" using txD(2) [OF r(4)] by (simp_all add: trans_ok_def)
  then have "lhn s3 > 0" using r(7) by (cases "lhn s3 > 0") auto
  moreover have "get32 (disk s3 (lstart s3)) 0 = 0" unfolding F r(6) log_demo_ok by (simp add: get32_def)
  ultimately obtain u where "commit s3 = Ret u" "\<forall>m. m \<notin> log_area s3 \<longrightarrow> disk u m = content s3 m"
    using commit_atomic [OF txD(1) [OF r(4)] t(1) _ t(2)] by blast
  moreover have "100 \<notin> log_area s3" unfolding F by (simp add: log_area_def)
  ultimately show ?thesis using r by auto
qed

theorem recovery_refines_witness:
  "\<exists>t. recover_from_log (log_demo ()) = Ret t \<and> disk t 100 = replicate BSIZE 0 \<and> lhn t = 0"
proof -
  have z: "get32 (replicate BSIZE 0) 0 = 0" by (simp add: get32_def)
  have "header_ok (log_demo ())" unfolding header_ok_def by (simp add: log_demo_ok z)
  from recovery_refines [OF txD(1) [OF log_demo_ok(1)] log_demo_ok(4) this] obtain t where
    "recover_from_log (log_demo ()) = Ret t" "disk t = recover_disk (lstart (log_demo ())) (disk (log_demo ()))" "lhn t = 0" by blast
  then show ?thesis by (auto simp: recover_disk_def log_demo_ok z Let_def)
qed

end
