(* ===== verification/Fs.thy ===== *)
theory Fs
  imports Log
begin

text \<open>
  The file system, \<^verbatim>\<open>fs.c\<close>: the block allocator, inodes and the inode cache, file
  contents, directories and path names. An inode pointer is an index of the cache. Block
  addresses and sizes are 32-bit words, the fields of type \<open>short\<close> 16-bit words. The
  routines run inside one system call: where one would wait for the lock of an inode or a
  buffer the outcome is \<open>Blocked\<close>. Data read is returned as a list of bytes, data to be
  written is a list; path names are lists of bytes without the terminator. The device switch
  \<open>devsw\<close> is an argument of the routines that use it.
\<close>

section \<open>Layout\<close>

abbreviation (input) NDIRECT :: nat where "NDIRECT \<equiv> 12"
abbreviation (input) NINDIRECT :: nat where "NINDIRECT \<equiv> 128"
abbreviation (input) MAXFILE :: nat where "MAXFILE \<equiv> 140"
abbreviation (input) IPB :: nat where "IPB \<equiv> 8"
abbreviation (input) BPB :: nat where "BPB \<equiv> 4096"
abbreviation (input) DIRSIZ :: nat where "DIRSIZ \<equiv> 14"
abbreviation (input) DESIZE :: nat where "DESIZE \<equiv> 16"
abbreviation (input) ROOTINO :: u32 where "ROOTINO \<equiv> 1"
abbreviation (input) T_DIR :: u16 where "T_DIR \<equiv> 1"
abbreviation (input) T_FILE :: u16 where "T_FILE \<equiv> 2"
abbreviation (input) T_DEV :: u16 where "T_DEV \<equiv> 3"

record dinode =
  dtype :: u16
  dmajor :: u16
  dminor :: u16
  dnlink :: u16
  dsize :: u32
  daddrs :: "u32 list"

record inode =
  idev :: u32
  inum :: u32
  iref :: int
  ivalid :: bool
  itype :: u16
  imajor :: u16
  iminor :: u16
  inlink :: u16
  isize :: u32
  iaddrs :: "u32 list"

record stat =
  st_type :: u16
  st_dev :: u32
  st_ino :: u32
  st_nlink :: u16
  st_size :: u32

record fs_state = log_state +
  sb :: superblock
  inodes :: "inode list"

text \<open>A device reads or writes on behalf of an inode.\<close>

record 's devsw =
  dev_read :: "(nat \<Rightarrow> u32 \<Rightarrow> 's \<Rightarrow> ((int \<times> u8 list) \<times> 's) outcome) option"
  dev_write :: "(nat \<Rightarrow> u8 list \<Rightarrow> 's \<Rightarrow> (int \<times> 's) outcome) option"

definition get_dinode :: "block \<Rightarrow> nat \<Rightarrow> dinode" where
  "get_dinode d k = (let a = 64 * k in
     \<lparr>dtype = get16 d a, dmajor = get16 d (a + 2), dminor = get16 d (a + 4), dnlink = get16 d (a + 6),
      dsize = get32 d (a + 8), daddrs = map (\<lambda>j. get32 d (a + 12 + 4 * j)) [0..<NDIRECT + 1]\<rparr>)"

definition put_addrs :: "u32 list \<Rightarrow> nat \<Rightarrow> block \<Rightarrow> block" where
  "put_addrs as a d = fold (\<lambda>j d. put32 d (a + 4 * j) (as ! j)) [0..<NDIRECT + 1] d"

definition put_dinode :: "dinode \<Rightarrow> nat \<Rightarrow> block \<Rightarrow> block" where
  "put_dinode x k d = (let a = 64 * k in
     put_addrs (daddrs x) (a + 12)
       (put32 (put16 (put16 (put16 (put16 d a (dtype x)) (a + 2) (dmajor x)) (a + 4) (dminor x)) (a + 6) (dnlink x)) (a + 8) (dsize x)))"

definition IBLOCK :: "u32 \<Rightarrow> superblock \<Rightarrow> u32" where
  "IBLOCK i x = i div 8 + sb_inodestart x"

definition BBLOCK :: "u32 \<Rightarrow> superblock \<Rightarrow> u32" where
  "BBLOCK b x = b div 4096 + sb_bmapstart x"

definition upd_inode :: "nat \<Rightarrow> (inode \<Rightarrow> inode) \<Rightarrow> 'a fs_state_scheme \<Rightarrow> 'a fs_state_scheme" where
  "upd_inode i f s = s\<lparr>inodes := (inodes s)[i := f (inodes s ! i)]\<rparr>"

abbreviation set_data :: "nat \<Rightarrow> (block \<Rightarrow> block) \<Rightarrow> 'a bio_state_scheme \<Rightarrow> 'a bio_state_scheme" where
  "set_data i f s \<equiv> upd_buf i (\<lambda>b. b\<lparr>bdata := f (bdata b)\<rparr>) s"

section \<open>Blocks\<close>

definition bzero :: "u32 \<Rightarrow> u32 \<Rightarrow> 'a fs_state_scheme \<Rightarrow> 'a fs_state_scheme outcome" where
  "bzero dev bno s =
     obind (bread dev bno s) (\<lambda>(i, s).
       let s = set_data i (\<lambda>_. replicate BSIZE 0) s in
       obind (log_write i s) (\<lambda>s. brelse i s))"

definition in_use :: "block \<Rightarrow> nat \<Rightarrow> bool" where
  "in_use d bi \<longleftrightarrow> (d ! (bi div 8)) AND push_bit (bi mod 8) 1 \<noteq> 0"

definition mark_used :: "nat \<Rightarrow> block \<Rightarrow> block" where
  "mark_used bi d = d[bi div 8 := (d ! (bi div 8)) OR push_bit (bi mod 8) 1]"

definition mark_free :: "nat \<Rightarrow> block \<Rightarrow> block" where
  "mark_free bi d = d[bi div 8 := (d ! (bi div 8)) AND NOT (push_bit (bi mod 8) 1)]"

text \<open>The outer loop of \<open>balloc\<close>, over the first block of each block of the map.\<close>

fun balloc_loop :: "u32 \<Rightarrow> nat list \<Rightarrow> 'a fs_state_scheme \<Rightarrow> (u32 \<times> 'a fs_state_scheme) outcome" where
  "balloc_loop dev [] s = Panic ''balloc: out of blocks''"
| "balloc_loop dev (b # bs) s =
     obind (bread dev (BBLOCK (of_nat b) (sb s)) s) (\<lambda>(i, s).
       case scan (\<lambda>bi. \<not> in_use (bdata (bufs s ! i)) bi) [0..<min BPB (unat (sb_size (sb s)) - b)] of
         Some bi \<Rightarrow>
           obind (log_write i (set_data i (mark_used bi) s)) (\<lambda>s.
           obind (brelse i s) (\<lambda>s.
           obind (bzero dev (of_nat (b + bi)) s) (\<lambda>s. Ret (of_nat (b + bi), s))))
       | None \<Rightarrow> obind (brelse i s) (balloc_loop dev bs))"

definition balloc :: "u32 \<Rightarrow> 'a fs_state_scheme \<Rightarrow> (u32 \<times> 'a fs_state_scheme) outcome" where
  "balloc dev s = balloc_loop dev (map (\<lambda>k. k * BPB) [0..<(unat (sb_size (sb s)) + (BPB - 1)) div BPB]) s"

definition bfree :: "u32 \<Rightarrow> u32 \<Rightarrow> 'a fs_state_scheme \<Rightarrow> 'a fs_state_scheme outcome" where
  "bfree dev b s =
     obind (readsb dev s) (\<lambda>(sb', s).
       let s = s\<lparr>sb := sb'\<rparr> in
       obind (bread dev (BBLOCK b (sb s)) s) (\<lambda>(i, s).
         let bi = unat b mod BPB in
         if \<not> in_use (bdata (bufs s ! i)) bi then Panic ''freeing free block''
         else obind (log_write i (set_data i (mark_free bi) s)) (\<lambda>s. brelse i s)))"

section \<open>Inodes\<close>

definition iinit :: "u32 \<Rightarrow> 'a fs_state_scheme \<Rightarrow> 'a fs_state_scheme outcome" where
  "iinit dev s =
     (let s = fold (\<lambda>i. initsleeplock (InodeLock i)) [0..<NINODE] s in
      obind (readsb dev s) (\<lambda>(sb', s). Ret (s\<lparr>sb := sb'\<rparr>)))"

definition iget :: "u32 \<Rightarrow> u32 \<Rightarrow> 'a fs_state_scheme \<Rightarrow> (nat \<times> 'a fs_state_scheme) outcome" where
  "iget dev n s =
     (case scan (\<lambda>ip. iref ip > 0 \<and> idev ip = dev \<and> inum ip = n) (inodes s) of
        Some i \<Rightarrow> Ret (i, upd_inode i (\<lambda>ip. ip\<lparr>iref := iref ip + 1\<rparr>) s)
      | None \<Rightarrow>
          (case scan (\<lambda>ip. iref ip = 0) (inodes s) of
             None \<Rightarrow> Panic ''iget: no inodes''
           | Some i \<Rightarrow> Ret (i, upd_inode i (\<lambda>ip. ip\<lparr>idev := dev, inum := n, iref := 1, ivalid := False\<rparr>) s)))"

fun ialloc_loop :: "u32 \<Rightarrow> u16 \<Rightarrow> nat list \<Rightarrow> 'a fs_state_scheme \<Rightarrow> (nat \<times> 'a fs_state_scheme) outcome" where
  "ialloc_loop dev ty [] s = Panic ''ialloc: no inodes''"
| "ialloc_loop dev ty (n # ns) s =
     obind (bread dev (IBLOCK (of_nat n) (sb s)) s) (\<lambda>(i, s).
       if dtype (get_dinode (bdata (bufs s ! i)) (n mod IPB)) = 0 then
         let s = set_data i (put_dinode \<lparr>dtype = ty, dmajor = 0, dminor = 0, dnlink = 0, dsize = 0,
                    daddrs = replicate (NDIRECT + 1) 0\<rparr> (n mod IPB)) s in
         obind (log_write i s) (\<lambda>s. obind (brelse i s) (\<lambda>s. iget dev (of_nat n) s))
       else obind (brelse i s) (ialloc_loop dev ty ns))"

definition ialloc :: "u32 \<Rightarrow> u16 \<Rightarrow> 'a fs_state_scheme \<Rightarrow> (nat \<times> 'a fs_state_scheme) outcome" where
  "ialloc dev ty s = ialloc_loop dev ty [1..<unat (sb_ninodes (sb s))] s"

definition inode_dinode :: "inode \<Rightarrow> dinode" where
  "inode_dinode ip = \<lparr>dtype = itype ip, dmajor = imajor ip, dminor = iminor ip, dnlink = inlink ip, dsize = isize ip, daddrs = iaddrs ip\<rparr>"

definition iupdate :: "nat \<Rightarrow> 'a fs_state_scheme \<Rightarrow> 'a fs_state_scheme outcome" where
  "iupdate i s =
     obind (bread (idev (inodes s ! i)) (IBLOCK (inum (inodes s ! i)) (sb s)) s) (\<lambda>(b, s).
       let ip = inodes s ! i;
           s = set_data b (put_dinode (inode_dinode ip) (unat (inum ip) mod IPB)) s in
       obind (log_write b s) (\<lambda>s. brelse b s))"

definition idup :: "nat \<Rightarrow> 'a fs_state_scheme \<Rightarrow> nat \<times> 'a fs_state_scheme" where
  "idup i s = (i, upd_inode i (\<lambda>ip. ip\<lparr>iref := iref ip + 1\<rparr>) s)"

definition ilock :: "nat \<Rightarrow> 'a fs_state_scheme \<Rightarrow> 'a fs_state_scheme outcome" where
  "ilock i s =
     (if iref (inodes s ! i) < 1 then Panic ''ilock''
      else obind (acquiresleep_now (InodeLock i) s) (\<lambda>s.
        if ivalid (inodes s ! i) then Ret s
        else
          obind (bread (idev (inodes s ! i)) (IBLOCK (inum (inodes s ! i)) (sb s)) s) (\<lambda>(b, s).
            let d = get_dinode (bdata (bufs s ! b)) (unat (inum (inodes s ! i)) mod IPB);
                s = upd_inode i (\<lambda>ip. ip\<lparr>itype := dtype d, imajor := dmajor d, iminor := dminor d, inlink := dnlink d,
                      isize := dsize d, iaddrs := daddrs d\<rparr>) s in
            obind (brelse b s) (\<lambda>s.
              let s = upd_inode i (\<lambda>ip. ip\<lparr>ivalid := True\<rparr>) s in
              if itype (inodes s ! i) = 0 then Panic ''ilock: no type'' else Ret s))))"

definition iunlock :: "nat \<Rightarrow> 'a fs_state_scheme \<Rightarrow> 'a fs_state_scheme outcome" where
  "iunlock i s =
     (if \<not> holdingsleep (InodeLock i) s \<or> iref (inodes s ! i) < 1 then Panic ''iunlock''
      else Ret (releasesleep (InodeLock i) s))"

section \<open>The blocks of a file\<close>

definition bmap :: "nat \<Rightarrow> u32 \<Rightarrow> 'a fs_state_scheme \<Rightarrow> (u32 \<times> 'a fs_state_scheme) outcome" where
  "bmap i bn s =
     (let dev = idev (inodes s ! i);
          slot = (\<lambda>k s. let addr = iaddrs (inodes s ! i) ! k in
            if addr = 0 then
              obind (balloc dev s) (\<lambda>(addr, s). Ret (addr, upd_inode i (\<lambda>ip. ip\<lparr>iaddrs := (iaddrs ip)[k := addr]\<rparr>) s))
            else Ret (addr, s)) in
      if unat bn < NDIRECT then slot (unat bn) s
      else
        let bn = unat bn - NDIRECT in
        if bn < NINDIRECT then
          obind (slot NDIRECT s) (\<lambda>(addr, s).
          obind (bread dev addr s) (\<lambda>(b, s).
            let addr = get32 (bdata (bufs s ! b)) (4 * bn) in
            if addr = 0 then
              obind (balloc dev s) (\<lambda>(addr, s).
              let s = set_data b (\<lambda>d. put32 d (4 * bn) addr) s in
              obind (log_write b s) (\<lambda>s.
              obind (brelse b s) (\<lambda>s. Ret (addr, s))))
            else obind (brelse b s) (\<lambda>s. Ret (addr, s))))
        else Panic ''bmap: out of range'')"

definition itrunc :: "nat \<Rightarrow> 'a fs_state_scheme \<Rightarrow> 'a fs_state_scheme outcome" where
  "itrunc i s =
     (let dev = idev (inodes s ! i);
          direct = (\<lambda>k s. let addr = iaddrs (inodes s ! i) ! k in
            if addr \<noteq> 0 then
              obind (bfree dev addr s) (\<lambda>s. Ret (upd_inode i (\<lambda>ip. ip\<lparr>iaddrs := (iaddrs ip)[k := 0]\<rparr>) s))
            else Ret s);
          indirect = (\<lambda>b j s. let addr = get32 (bdata (bufs s ! b)) (4 * j) in
            if addr \<noteq> 0 then bfree dev addr s else Ret s) in
      obind (ofor direct [0..<NDIRECT] s) (\<lambda>s.
      obind (let addr = iaddrs (inodes s ! i) ! NDIRECT in
             if addr \<noteq> 0 then
               obind (bread dev addr s) (\<lambda>(b, s).
               obind (ofor (indirect b) [0..<NINDIRECT] s) (\<lambda>s.
               obind (brelse b s) (\<lambda>s.
               obind (bfree dev addr s) (\<lambda>s.
               Ret (upd_inode i (\<lambda>ip. ip\<lparr>iaddrs := (iaddrs ip)[NDIRECT := 0]\<rparr>) s)))))
             else Ret s) (\<lambda>s.
      iupdate i (upd_inode i (\<lambda>ip. ip\<lparr>isize := 0\<rparr>) s))))"

definition iput :: "nat \<Rightarrow> 'a fs_state_scheme \<Rightarrow> 'a fs_state_scheme outcome" where
  "iput i s =
     obind (acquiresleep_now (InodeLock i) s) (\<lambda>s.
     obind (if ivalid (inodes s ! i) \<and> inlink (inodes s ! i) = 0 \<and> iref (inodes s ! i) = 1 then
              obind (itrunc i s) (\<lambda>s.
              obind (iupdate i (upd_inode i (\<lambda>ip. ip\<lparr>itype := 0\<rparr>) s)) (\<lambda>s.
              Ret (upd_inode i (\<lambda>ip. ip\<lparr>ivalid := False\<rparr>) s)))
            else Ret s) (\<lambda>s.
     let s = releasesleep (InodeLock i) s in
     Ret (upd_inode i (\<lambda>ip. ip\<lparr>iref := iref ip - 1\<rparr>) s)))"

definition iunlockput :: "nat \<Rightarrow> 'a fs_state_scheme \<Rightarrow> 'a fs_state_scheme outcome" where
  "iunlockput i s = obind (iunlock i s) (iput i)"

definition stati :: "nat \<Rightarrow> 'a fs_state_scheme \<Rightarrow> stat" where
  "stati i s = (let ip = inodes s ! i in
     \<lparr>st_type = itype ip, st_dev = idev ip, st_ino = inum ip, st_nlink = inlink ip, st_size = isize ip\<rparr>)"


section \<open>File contents\<close>

text \<open>The pieces in which the loops of \<open>readi\<close> and \<open>writei\<close> cut a range: offset and length.\<close>

function chunks :: "nat \<Rightarrow> nat \<Rightarrow> (nat \<times> nat) list" where
  "chunks off n =
     (if n = 0 then []
      else let m = min n (BSIZE - off mod BSIZE) in (off, m) # chunks (off + m) (n - m))"
  by auto
termination by (relation "measure snd") (auto simp: min_def)

declare chunks.simps [simp del]

fun read_chunks :: "nat \<Rightarrow> (nat \<times> nat) list \<Rightarrow> 'a fs_state_scheme \<Rightarrow> (u8 list \<times> 'a fs_state_scheme) outcome" where
  "read_chunks i [] s = Ret ([], s)"
| "read_chunks i ((off, m) # cs) s =
     obind (bmap i (of_nat (off div BSIZE)) s) (\<lambda>(addr, s).
     obind (bread (idev (inodes s ! i)) addr s) (\<lambda>(b, s).
     let bs = take m (drop (off mod BSIZE) (bdata (bufs s ! b))) in
     obind (brelse b s) (\<lambda>s.
     obind (read_chunks i cs s) (\<lambda>(r, s). Ret (bs @ r, s)))))"

definition readi :: "(nat \<Rightarrow> 'a fs_state_scheme devsw) \<Rightarrow> nat \<Rightarrow> u32 \<Rightarrow> u32 \<Rightarrow> 'a fs_state_scheme \<Rightarrow>
    ((int \<times> u8 list) \<times> 'a fs_state_scheme) outcome" where
  "readi devsw i off n s =
     (let ip = inodes s ! i in
      if itype ip = T_DEV then
        if sint (imajor ip) < 0 \<or> sint (imajor ip) \<ge> int NDEV then Ret ((-1, []), s)
        else (case dev_read (devsw (unat (imajor ip))) of None \<Rightarrow> Ret ((-1, []), s) | Some f \<Rightarrow> f i n s)
      else if off > isize ip \<or> off + n < off then Ret ((-1, []), s)
      else
        let n = (if off + n > isize ip then isize ip - off else n) in
        obind (read_chunks i (chunks (unat off) (unat n)) s) (\<lambda>(bs, s). Ret ((sint n, bs), s)))"

definition splice :: "block \<Rightarrow> nat \<Rightarrow> u8 list \<Rightarrow> block" where
  "splice d a bs = take a d @ bs @ drop (a + length bs) d"

fun write_chunks :: "nat \<Rightarrow> (nat \<times> nat) list \<Rightarrow> u8 list \<Rightarrow> 'a fs_state_scheme \<Rightarrow> 'a fs_state_scheme outcome" where
  "write_chunks i [] src s = Ret s"
| "write_chunks i ((off, m) # cs) src s =
     obind (bmap i (of_nat (off div BSIZE)) s) (\<lambda>(addr, s).
     obind (bread (idev (inodes s ! i)) addr s) (\<lambda>(b, s).
     let s = set_data b (\<lambda>d. splice d (off mod BSIZE) (take m src)) s in
     obind (log_write b s) (\<lambda>s.
     obind (brelse b s) (\<lambda>s. write_chunks i cs (drop m src) s))))"

definition writei :: "(nat \<Rightarrow> 'a fs_state_scheme devsw) \<Rightarrow> nat \<Rightarrow> u8 list \<Rightarrow> u32 \<Rightarrow> u32 \<Rightarrow> 'a fs_state_scheme \<Rightarrow>
    (int \<times> 'a fs_state_scheme) outcome" where
  "writei devsw i src off n s =
     (let ip = inodes s ! i in
      if itype ip = T_DEV then
        if sint (imajor ip) < 0 \<or> sint (imajor ip) \<ge> int NDEV then Ret (-1, s)
        else (case dev_write (devsw (unat (imajor ip))) of None \<Rightarrow> Ret (-1, s) | Some f \<Rightarrow> f i src s)
      else if off > isize ip \<or> off + n < off then Ret (-1, s)
      else if unat (off + n) > MAXFILE * BSIZE then Ret (-1, s)
      else
        obind (write_chunks i (chunks (unat off) (unat n)) src s) (\<lambda>s.
          if n > 0 \<and> off + n > isize (inodes s ! i) then
            obind (iupdate i (upd_inode i (\<lambda>ip. ip\<lparr>isize := off + n\<rparr>) s)) (\<lambda>s. Ret (sint n, s))
          else Ret (sint n, s)))"

section \<open>Directories\<close>

text \<open>\<open>strncmp\<close> and \<open>strncpy\<close> on buffers; beyond the end of a list is its terminator.\<close>

definition byte0 :: "u8 list \<Rightarrow> u8" where
  "byte0 p = (case p of [] \<Rightarrow> 0 | b # _ \<Rightarrow> b)"

fun strncmp_buf :: "u8 list \<Rightarrow> u8 list \<Rightarrow> nat \<Rightarrow> int" where
  "strncmp_buf p q 0 = 0"
| "strncmp_buf p q (Suc n) =
     (if byte0 p \<noteq> 0 \<and> byte0 p = byte0 q then strncmp_buf (tl p) (tl q) n else uint (byte0 p) - uint (byte0 q))"

definition strncpy_buf :: "u8 list \<Rightarrow> nat \<Rightarrow> u8 list" where
  "strncpy_buf t n = (let p = takeWhile (\<lambda>b. b \<noteq> 0) (take n t) in p @ replicate (n - length p) 0)"

definition namecmp :: "u8 list \<Rightarrow> u8 list \<Rightarrow> int" where
  "namecmp s t = strncmp_buf s t DIRSIZ"

record dirent =
  de_inum :: u16
  de_name :: "u8 list"

definition get_dirent :: "u8 list \<Rightarrow> dirent" where
  "get_dirent bs = \<lparr>de_inum = get16 bs 0, de_name = take DIRSIZ (drop 2 bs)\<rparr>"

definition put_dirent :: "dirent \<Rightarrow> u8 list" where
  "put_dirent de = [byte_of 0 (de_inum de), byte_of 1 (de_inum de)] @ de_name de"

text \<open>Offsets \<open>0, 16, \<dots>\<close> below the size of the directory.\<close>

definition entry_offsets :: "u32 \<Rightarrow> nat list" where
  "entry_offsets n = map (\<lambda>k. k * DESIZE) [0..<(unat n + (DESIZE - 1)) div DESIZE]"

fun dirlookup_loop :: "(nat \<Rightarrow> 'a fs_state_scheme devsw) \<Rightarrow> nat \<Rightarrow> u8 list \<Rightarrow> nat list \<Rightarrow> 'a fs_state_scheme \<Rightarrow>
    ((nat \<times> nat) option \<times> 'a fs_state_scheme) outcome" where
  "dirlookup_loop devsw dp name [] s = Ret (None, s)"
| "dirlookup_loop devsw dp name (off # offs) s =
     obind (readi devsw dp (of_nat off) (of_nat DESIZE) s) (\<lambda>((r, bs), s).
       if r \<noteq> int DESIZE then Panic ''dirlookup read''
       else
         let de = get_dirent bs in
         if de_inum de = 0 then dirlookup_loop devsw dp name offs s
         else if namecmp name (de_name de) = 0 then
           obind (iget (idev (inodes s ! dp)) (ucast (de_inum de)) s) (\<lambda>(i, s). Ret (Some (i, off), s))
         else dirlookup_loop devsw dp name offs s)"

definition dirlookup :: "(nat \<Rightarrow> 'a fs_state_scheme devsw) \<Rightarrow> nat \<Rightarrow> u8 list \<Rightarrow> 'a fs_state_scheme \<Rightarrow>
    ((nat \<times> nat) option \<times> 'a fs_state_scheme) outcome" where
  "dirlookup devsw dp name s =
     (if itype (inodes s ! dp) \<noteq> T_DIR then Panic ''dirlookup not DIR''
      else dirlookup_loop devsw dp name (entry_offsets (isize (inodes s ! dp))) s)"

text \<open>The loop of \<open>dirlink\<close> that looks for an empty entry; past the last one it appends.\<close>

fun free_entry :: "(nat \<Rightarrow> 'a fs_state_scheme devsw) \<Rightarrow> nat \<Rightarrow> nat list \<Rightarrow> nat \<Rightarrow> 'a fs_state_scheme \<Rightarrow> (nat \<times> 'a fs_state_scheme) outcome" where
  "free_entry devsw dp [] end s = Ret (end, s)"
| "free_entry devsw dp (off # offs) end s =
     obind (readi devsw dp (of_nat off) (of_nat DESIZE) s) (\<lambda>((r, bs), s).
       if r \<noteq> int DESIZE then Panic ''dirlink read''
       else if de_inum (get_dirent bs) = 0 then Ret (off, s)
       else free_entry devsw dp offs end s)"

definition dirlink :: "(nat \<Rightarrow> 'a fs_state_scheme devsw) \<Rightarrow> nat \<Rightarrow> u8 list \<Rightarrow> u32 \<Rightarrow> 'a fs_state_scheme \<Rightarrow> (int \<times> 'a fs_state_scheme) outcome" where
  "dirlink devsw dp name n s =
     obind (dirlookup devsw dp name s) (\<lambda>(r, s).
       case r of
         Some (i, _) \<Rightarrow> obind (iput i s) (\<lambda>s. Ret (-1, s))
       | None \<Rightarrow>
           let offs = entry_offsets (isize (inodes s ! dp)) in
           obind (free_entry devsw dp offs (length offs * DESIZE) s) (\<lambda>(off, s).
             let de = \<lparr>de_inum = ucast n, de_name = strncpy_buf name DIRSIZ\<rparr> in
             obind (writei devsw dp (put_dirent de) (of_nat off) (of_nat DESIZE) s) (\<lambda>(r, s).
               if r \<noteq> int DESIZE then Panic ''dirlink'' else Ret (0, s))))"

section \<open>Path names\<close>

abbreviation (input) slash :: u8 where "slash \<equiv> 47"

definition skipelem :: "u8 list \<Rightarrow> u8 list \<Rightarrow> (u8 list \<times> u8 list) option" where
  "skipelem path name =
     (let path = dropWhile (\<lambda>b. b = slash) path in
      if path = [] then None
      else
        let elem = takeWhile (\<lambda>b. b \<noteq> slash) path;
            rest = dropWhile (\<lambda>b. b \<noteq> slash) path;
            name = (if length elem \<ge> DIRSIZ then take DIRSIZ elem
                    else elem @ [0] @ drop (length elem + 1) name)
        in Some (dropWhile (\<lambda>b. b = slash) rest, name))"

lemma skipelem_shorter: "skipelem path name = Some (path', name') \<Longrightarrow> length path' < length path"
proof -
  assume a: "skipelem path name = Some (path', name')"
  define p where "p = dropWhile (\<lambda>b. b = slash) path"
  have p: "p \<noteq> []" "path' = dropWhile (\<lambda>b. b = slash) (dropWhile (\<lambda>b. b \<noteq> slash) p)"
    using a unfolding skipelem_def p_def by (auto simp: Let_def split: if_splits)
  have "hd p \<noteq> slash" using hd_dropWhile [of "\<lambda>b. b = slash" path] p(1) unfolding p_def by auto
  then have "length (dropWhile (\<lambda>b. b \<noteq> slash) p) \<le> length (tl p)" using p(1) by (cases p) (auto simp: length_dropWhile_le)
  then have "length path' \<le> length (tl p)" using p(2) length_dropWhile_le order_trans by metis
  moreover have "length p \<le> length path" unfolding p_def by (rule length_dropWhile_le)
  ultimately show ?thesis using p(1) by (cases p) auto
qed

function namex_loop :: "(nat \<Rightarrow> 'a fs_state_scheme devsw) \<Rightarrow> bool \<Rightarrow> nat \<Rightarrow> u8 list \<Rightarrow> u8 list \<Rightarrow> 'a fs_state_scheme \<Rightarrow>
    ((nat \<times> u8 list) option \<times> 'a fs_state_scheme) outcome" where
  "namex_loop devsw par i path name s =
     (case skipelem path name of
        None \<Rightarrow>
          if par then obind (iput i s) (\<lambda>s. Ret (None, s))
          else Ret (Some (i, name), s)
      | Some (path, name) \<Rightarrow>
          obind (ilock i s) (\<lambda>s.
          if itype (inodes s ! i) \<noteq> T_DIR then obind (iunlockput i s) (\<lambda>s. Ret (None, s))
          else if par \<and> path = [] then obind (iunlock i s) (\<lambda>s. Ret (Some (i, name), s))
          else
            obind (dirlookup devsw i name s) (\<lambda>(r, s).
            case r of
              None \<Rightarrow> obind (iunlockput i s) (\<lambda>s. Ret (None, s))
            | Some (next, _) \<Rightarrow> obind (iunlockput i s) (\<lambda>s. namex_loop devsw par next path name s))))"
  by pat_completeness auto
termination by (relation "measure (\<lambda>(_, _, _, path, _, _). length path)") (auto dest: skipelem_shorter)

declare namex_loop.simps [simp del]

definition namex :: "(nat \<Rightarrow> 'a fs_state_scheme devsw) \<Rightarrow> u8 list \<Rightarrow> bool \<Rightarrow> u8 list \<Rightarrow> 'a fs_state_scheme \<Rightarrow>
    ((nat \<times> u8 list) option \<times> 'a fs_state_scheme) outcome" where
  "namex devsw path par name s =
     obind (if byte0 path = slash then iget ROOTDEV ROOTINO s
            else case curproc s of
                None \<Rightarrow> Panic ''null process''
              | Some c \<Rightarrow> (case cwd (procs s ! c) of None \<Rightarrow> Panic ''null inode'' | Some i \<Rightarrow> Ret (idup i s)))
       (\<lambda>(i, s). namex_loop devsw par i path name s)"

definition namei :: "(nat \<Rightarrow> 'a fs_state_scheme devsw) \<Rightarrow> u8 list \<Rightarrow> 'a fs_state_scheme \<Rightarrow> (nat option \<times> 'a fs_state_scheme) outcome" where
  "namei devsw path s = obind (namex devsw path False (replicate DIRSIZ 0) s) (\<lambda>(r, s). Ret (map_option fst r, s))"

definition nameiparent :: "(nat \<Rightarrow> 'a fs_state_scheme devsw) \<Rightarrow> u8 list \<Rightarrow> u8 list \<Rightarrow> 'a fs_state_scheme \<Rightarrow>
    ((nat \<times> u8 list) option \<times> 'a fs_state_scheme) outcome" where
  "nameiparent devsw path name s = namex devsw path True name s"

end
