(* ===== verification/File.thy ===== *)
theory File
  imports Fs
begin

text \<open>
  Open files, \<^verbatim>\<open>file.c\<close>, and \<open>pipealloc\<close> of \<^verbatim>\<open>pipe.c\<close>. A file pointer is an index
  of the table. Reading returns the bytes read, writing takes the bytes to write. A call
  that has to wait ends as \<open>Blocked\<close> on the channel it sleeps on.
\<close>

section \<open>State and operations\<close>

datatype ftype = FD_NONE | FD_PIPE | FD_INODE

record kfile =
  ftype :: ftype
  fref :: int
  freadable :: bool
  fwritable :: bool
  fpipe :: u32
  fip :: nat
  foff :: u32

record file_state = fs_state +
  files :: "kfile list"

type_synonym 'a devices = "nat \<Rightarrow> 'a file_state_scheme devsw"

definition upd_file :: "nat \<Rightarrow> (kfile \<Rightarrow> kfile) \<Rightarrow> 'a file_state_scheme \<Rightarrow> 'a file_state_scheme" where
  "upd_file f g s = s\<lparr>files := (files s)[f := g (files s ! f)]\<rparr>"

definition begin_op_now :: "'a log_state_scheme \<Rightarrow> 'a log_state_scheme outcome" where
  "begin_op_now s = obind (begin_op s) (\<lambda>(r, s). case r of Done _ \<Rightarrow> Ret s | Sleep \<Rightarrow> Blocked ChLog)"

definition filealloc :: "'a file_state_scheme \<Rightarrow> nat option \<times> 'a file_state_scheme" where
  "filealloc s =
     (case scan (\<lambda>f. fref f = 0) (files s) of
        Some i \<Rightarrow> (Some i, upd_file i (\<lambda>f. f\<lparr>fref := 1\<rparr>) s)
      | None \<Rightarrow> (None, s))"

definition filedup :: "nat \<Rightarrow> 'a file_state_scheme \<Rightarrow> (nat \<times> 'a file_state_scheme) outcome" where
  "filedup f s =
     (if fref (files s ! f) < 1 then Panic ''filedup''
      else Ret (f, upd_file f (\<lambda>x. x\<lparr>fref := fref x + 1\<rparr>) s))"

definition fileclose :: "nat \<Rightarrow> 'a file_state_scheme \<Rightarrow> 'a file_state_scheme outcome" where
  "fileclose f s =
     (if fref (files s ! f) < 1 then Panic ''fileclose''
      else
        let s = upd_file f (\<lambda>x. x\<lparr>fref := fref x - 1\<rparr>) s in
        if fref (files s ! f) > 0 then Ret s
        else
          let ff = files s ! f;
              s = upd_file f (\<lambda>x. x\<lparr>fref := 0, ftype := FD_NONE\<rparr>) s in
          case ftype ff of
            FD_PIPE \<Rightarrow> pipeclose (fpipe ff) (fwritable ff) s
          | FD_INODE \<Rightarrow> obind (begin_op_now s) (\<lambda>s. obind (iput (fip ff) s) end_op)
          | FD_NONE \<Rightarrow> Ret s)"

definition filestat :: "nat \<Rightarrow> 'a file_state_scheme \<Rightarrow> ((int \<times> stat option) \<times> 'a file_state_scheme) outcome" where
  "filestat f s =
     (let x = files s ! f in
      if ftype x = FD_INODE then
        obind (ilock (fip x) s) (\<lambda>s.
          let st = stati (fip x) s in
          obind (iunlock (fip x) s) (\<lambda>s. Ret ((0, Some st), s)))
      else Ret ((-1, None), s))"

definition fileread :: "'a devices \<Rightarrow> nat \<Rightarrow> int \<Rightarrow> 'a file_state_scheme \<Rightarrow> ((int \<times> u8 list) \<times> 'a file_state_scheme) outcome" where
  "fileread devsw f n s =
     (let x = files s ! f in
      if \<not> freadable x then Ret ((-1, []), s)
      else case ftype x of
        FD_PIPE \<Rightarrow> obind (piperead (fpipe x) n s) (\<lambda>(r, s). case r of Done y \<Rightarrow> Ret (y, s) | Sleep \<Rightarrow> Blocked (ChPipeRead (fpipe x)))
      | FD_INODE \<Rightarrow>
          obind (ilock (fip x) s) (\<lambda>s.
          obind (readi devsw (fip x) (foff (files s ! f)) (of_int n) s) (\<lambda>((r, bs), s).
          let s = (if r > 0 then upd_file f (\<lambda>x. x\<lparr>foff := foff x + of_int r\<rparr>) s else s) in
          obind (iunlock (fip x) s) (\<lambda>s. Ret ((r, bs), s))))
      | FD_NONE \<Rightarrow> Panic ''fileread'')"

abbreviation (input) WMAX :: nat where "WMAX \<equiv> ((MAXOPBLOCKS - 1 - 1 - 2) div 2) * 512"

text \<open>The loop of \<open>filewrite\<close>; \<open>None\<close> is the \<open>break\<close>.\<close>

function filewrite_loop :: "'a devices \<Rightarrow> nat \<Rightarrow> u8 list \<Rightarrow> 'a file_state_scheme \<Rightarrow> (bool \<times> 'a file_state_scheme) outcome" where
  "filewrite_loop devsw f bs s =
     (if bs = [] then Ret (True, s)
      else
        let n1 = min (length bs) WMAX; ip = fip (files s ! f) in
        obind (begin_op_now s) (\<lambda>s.
        obind (ilock ip s) (\<lambda>s.
        obind (writei devsw ip (take n1 bs) (foff (files s ! f)) (of_nat n1) s) (\<lambda>(r, s).
        let s = (if r > 0 then upd_file f (\<lambda>x. x\<lparr>foff := foff x + of_int r\<rparr>) s else s) in
        obind (iunlock ip s) (\<lambda>s.
        obind (end_op s) (\<lambda>s.
          if r < 0 then Ret (False, s)
          else if r \<noteq> int n1 then Panic ''short filewrite''
          else filewrite_loop devsw f (drop n1 bs) s))))))"
  by pat_completeness auto
termination by (relation "measure (\<lambda>(_, _, bs, _). length bs)") (auto simp: min_def)

declare filewrite_loop.simps [simp del]

definition filewrite :: "'a devices \<Rightarrow> nat \<Rightarrow> u8 list \<Rightarrow> 'a file_state_scheme \<Rightarrow> (int \<times> 'a file_state_scheme) outcome" where
  "filewrite devsw f bs s =
     (let x = files s ! f; n = int (length bs) in
      if \<not> fwritable x then Ret (-1, s)
      else case ftype x of
        FD_PIPE \<Rightarrow> obind (pipewrite (fpipe x) bs n s) (\<lambda>(r, _, s). case r of Done y \<Rightarrow> Ret (y, s) | Sleep \<Rightarrow> Blocked (ChPipeWrite (fpipe x)))
      | FD_INODE \<Rightarrow> obind (filewrite_loop devsw f bs s) (\<lambda>(ok, s). Ret (if ok then n else -1, s))
      | FD_NONE \<Rightarrow> Panic ''filewrite'')"

definition pipealloc :: "'a file_state_scheme \<Rightarrow> ((nat \<times> nat) option \<times> 'a file_state_scheme) outcome" where
  "pipealloc s =
     (let bad = (\<lambda>f0 f1 s.
            obind (case f0 of Some f \<Rightarrow> fileclose f s | None \<Rightarrow> Ret s) (\<lambda>s.
            obind (case f1 of Some f \<Rightarrow> fileclose f s | None \<Rightarrow> Ret s) (\<lambda>s. Ret (None, s)))) in
      case filealloc s of
        (None, s) \<Rightarrow> bad None None s
      | (Some f0, s) \<Rightarrow>
          (case filealloc s of
             (None, s) \<Rightarrow> bad (Some f0) None s
           | (Some f1, s) \<Rightarrow>
               let (p, s) = kalloc s in
               if p = 0 then bad (Some f0) (Some f1) s
               else
                 let s = s\<lparr>pipes := (pipes s)(p \<mapsto> new_pipe (bytes_at (mem s) (p + 52) PIPESIZE))\<rparr>;
                     s = upd_file f0 (\<lambda>x. x\<lparr>ftype := FD_PIPE, freadable := True, fwritable := False, fpipe := p\<rparr>) s;
                     s = upd_file f1 (\<lambda>x. x\<lparr>ftype := FD_PIPE, freadable := False, fwritable := True, fpipe := p\<rparr>) s
                 in Ret (Some (f0, f1), s)))"

end
