(* ===== verification/Spinlock.thy ===== *)
theory Spinlock
  imports Cstring
begin

text \<open>
  Spin locks, \<^verbatim>\<open>spinlock.c\<close>, with the processor state they touch: the interrupt flag of
  each processor, the nesting counter of \<open>pushcli\<close>, and \<open>mycpu\<close> and \<open>myproc\<close> of
  \<^verbatim>\<open>proc.c\<close>. Processors and locks are numbered. An operation takes the number of the
  processor that runs it. \<open>acquire\<close> is three parts: entering (up to the loop), one round
  of the loop (the atomic exchange) and what follows the loop, so that other processors can
  run between the rounds; a processor alone runs \<open>acquire\<close> to its end when the lock is
  free. \<open>release\<close> is three parts as well: the test of the owner, whose fields it clears, the
  store that frees the lock, and \<open>popcli\<close>. The nesting counter is a C \<open>int\<close>: a 32-bit word that
  wraps around and is read with its sign. A lock takes 52 bytes of memory, so that there are fewer
  than \<open>2\<^sup>2\<^sup>7\<close> locks and a lock is numbered by a word of 27 bits.
\<close>

section \<open>State and operations\<close>

record cpu =
  apicid :: u8
  started :: u32
  ncli :: u32
  intena :: bool
  cproc :: "nat option"

record spinlock =
  locked :: u32
  lname :: string
  lcpu :: "nat option"
  pcs :: "u32 list"

type_synonym lock = "27 word"

record machine =
  cpus :: "cpu list"
  ncpu :: nat
  FL_IF :: "nat \<Rightarrow> bool"
  lapic :: "(nat \<Rightarrow> u32) option"
  locks :: "lock \<Rightarrow> spinlock"
  stack :: memory

text \<open>The local APIC is a device of its own processor; \<open>None\<close> before it is found.\<close>

definition lapicid :: "nat \<Rightarrow> machine \<Rightarrow> u32" where
  "lapicid c s = (case lapic s of None \<Rightarrow> 0 | Some r \<Rightarrow> drop_bit 24 (r c))"

definition mycpu :: "nat \<Rightarrow> machine \<Rightarrow> nat outcome" where
  "mycpu c s =
     (if FL_IF s c then Panic ''mycpu called with interrupts enabled''
      else case scan (\<lambda>k. ucast (apicid k) = lapicid c s) (take (ncpu s) (cpus s)) of
        Some i \<Rightarrow> Ret i
      | None \<Rightarrow> Panic ''unknown apicid'')"

definition cpuid :: "nat \<Rightarrow> machine \<Rightarrow> nat outcome" where
  "cpuid c s = mycpu c s"

definition upd_cpu :: "nat \<Rightarrow> (cpu \<Rightarrow> cpu) \<Rightarrow> machine \<Rightarrow> machine" where
  "upd_cpu i f s = s\<lparr>cpus := (cpus s)[i := f (cpus s ! i)]\<rparr>"

definition upd_lock :: "lock \<Rightarrow> (spinlock \<Rightarrow> spinlock) \<Rightarrow> machine \<Rightarrow> machine" where
  "upd_lock l f s = s\<lparr>locks := (locks s)(l := f (locks s l))\<rparr>"

definition cli :: "nat \<Rightarrow> machine \<Rightarrow> machine" where
  "cli c s = s\<lparr>FL_IF := (FL_IF s)(c := False)\<rparr>"

definition sti :: "nat \<Rightarrow> machine \<Rightarrow> machine" where
  "sti c s = s\<lparr>FL_IF := (FL_IF s)(c := True)\<rparr>"

definition pushcli :: "nat \<Rightarrow> machine \<Rightarrow> machine outcome" where
  "pushcli c s =
     (let eflags = FL_IF s c; s = cli c s in
      obind (mycpu c s) (\<lambda>i.
        let s = (if ncli (cpus s ! i) = 0 then upd_cpu i (\<lambda>k. k\<lparr>intena := eflags\<rparr>) s else s)
        in Ret (upd_cpu i (\<lambda>k. k\<lparr>ncli := ncli k + 1\<rparr>) s)))"

definition popcli :: "nat \<Rightarrow> machine \<Rightarrow> machine outcome" where
  "popcli c s =
     (if FL_IF s c then Panic ''popcli - interruptible''
      else obind (mycpu c s) (\<lambda>i.
        let s = upd_cpu i (\<lambda>k. k\<lparr>ncli := ncli k - 1\<rparr>) s in
        if sint (ncli (cpus s ! i)) < 0 then Panic ''popcli''
        else Ret (if ncli (cpus s ! i) = 0 \<and> intena (cpus s ! i) then sti c s else s)))"

definition initlock :: "lock \<Rightarrow> string \<Rightarrow> machine \<Rightarrow> machine" where
  "initlock l name s = upd_lock l (\<lambda>k. k\<lparr>lname := name, locked := 0, lcpu := None\<rparr>) s"

text \<open>\<open>holding\<close> also returns the machine after its \<open>pushcli\<close> and \<open>popcli\<close>.\<close>

definition holding :: "nat \<Rightarrow> lock \<Rightarrow> machine \<Rightarrow> (bool \<times> machine) outcome" where
  "holding c l s =
     obind (pushcli c s) (\<lambda>s.
     obind (mycpu c s) (\<lambda>i.
       let r = (locked (locks s l) \<noteq> 0 \<and> lcpu (locks s l) = Some i) in
       obind (popcli c s) (\<lambda>s. Ret (r, s))))"

primrec callerpcs :: "nat \<Rightarrow> memory \<Rightarrow> u32 \<Rightarrow> u32 list" where
  "callerpcs 0 m ebp = []"
| "callerpcs (Suc i) m ebp =
     (if ebp = 0 \<or> ebp < KERNBASE \<or> ebp = 0xffffffff then replicate (Suc i) 0
      else ld32 m (ebp + 4) # callerpcs i m (ld32 m ebp))"

definition getcallerpcs :: "memory \<Rightarrow> u32 \<Rightarrow> u32 list" where
  "getcallerpcs m v = callerpcs 10 m (v - 8)"

definition acquire_enter :: "nat \<Rightarrow> lock \<Rightarrow> machine \<Rightarrow> machine outcome" where
  "acquire_enter c l s =
     obind (pushcli c s) (\<lambda>s.
     obind (holding c l s) (\<lambda>(h, s). if h then Panic ''acquire'' else Ret s))"

definition acquire_xchg :: "lock \<Rightarrow> machine \<Rightarrow> u32 \<times> machine" where
  "acquire_xchg l s = (locked (locks s l), upd_lock l (\<lambda>k. k\<lparr>locked := 1\<rparr>) s)"

text \<open>\<open>v\<close> is the address of the parameter of \<open>acquire\<close> on the stack.\<close>

definition acquire_leave :: "nat \<Rightarrow> lock \<Rightarrow> u32 \<Rightarrow> machine \<Rightarrow> machine outcome" where
  "acquire_leave c l v s =
     obind (mycpu c s) (\<lambda>i.
       Ret (upd_lock l (\<lambda>k. k\<lparr>lcpu := Some i, pcs := getcallerpcs (stack s) v\<rparr>) s))"

definition acquire :: "nat \<Rightarrow> lock \<Rightarrow> u32 \<Rightarrow> machine \<Rightarrow> machine outcome" where
  "acquire c l v s =
     obind (acquire_enter c l s) (\<lambda>s.
       let (old, s) = acquire_xchg l s in
       if old \<noteq> 0 then Diverged else acquire_leave c l v s)"

definition release_enter :: "nat \<Rightarrow> lock \<Rightarrow> machine \<Rightarrow> machine outcome" where
  "release_enter c l s =
     obind (holding c l s) (\<lambda>(h, s).
       if \<not> h then Panic ''release'' else Ret (upd_lock l (\<lambda>k. k\<lparr>pcs := (pcs k)[0 := 0], lcpu := None\<rparr>) s))"

definition release_store :: "lock \<Rightarrow> machine \<Rightarrow> machine" where
  "release_store l s = upd_lock l (\<lambda>k. k\<lparr>locked := 0\<rparr>) s"

definition release :: "nat \<Rightarrow> lock \<Rightarrow> machine \<Rightarrow> machine outcome" where
  "release c l s = obind (release_enter c l s) (\<lambda>s. popcli c (release_store l s))"

definition myproc :: "nat \<Rightarrow> machine \<Rightarrow> (nat option \<times> machine) outcome" where
  "myproc c s =
     obind (pushcli c s) (\<lambda>s.
     obind (mycpu c s) (\<lambda>i.
       let p = cproc (cpus s ! i) in obind (popcli c s) (\<lambda>s. Ret (p, s))))"

section \<open>Nesting\<close>

text \<open>
  A machine whose processors are known: processor \<open>c\<close> is entry \<open>c\<close> of \<open>cpus\<close> and its
  APIC id is its own. No nesting counter is negative, and interrupts are off whenever it is positive.
\<close>

abbreviation depth :: "nat \<Rightarrow> machine \<Rightarrow> nat" where
  "depth c s \<equiv> unat (ncli (cpus s ! c))"

abbreviation (input) MAXDEPTH :: nat where "MAXDEPTH \<equiv> 2147483647"

definition machine_wf :: "machine \<Rightarrow> bool" where
  "machine_wf s \<longleftrightarrow>
     ncpu s \<le> length (cpus s) \<and>
     (\<forall>c < ncpu s. ucast (apicid (cpus s ! c)) = lapicid c s) \<and>
     (\<forall>c < ncpu s. \<forall>d < ncpu s. lapicid c s = lapicid d s \<longrightarrow> c = d) \<and>
     (\<forall>c < ncpu s. depth c s \<le> MAXDEPTH \<and> (0 < depth c s \<longrightarrow> \<not> FL_IF s c))"

lemma machine_wfD:
  assumes "machine_wf s" "c < ncpu s"
  shows "c < length (cpus s)" "ucast (apicid (cpus s ! c)) = lapicid c s"
    "\<And>d. d < ncpu s \<Longrightarrow> lapicid c s = lapicid d s \<Longrightarrow> c = d"
    "depth c s \<le> MAXDEPTH" "0 < depth c s \<Longrightarrow> \<not> FL_IF s c"
  using assms unfolding machine_wf_def by auto

lemma depth_inc: "unat (n :: u32) < MAXDEPTH \<Longrightarrow> unat (n + 1) = unat n + 1"
  by (simp add: unat_word_ariths)

lemma depth_dec: "0 < unat (n :: u32) \<Longrightarrow> unat (n - 1) = unat n - 1"
  by (rule unat_minus_one) auto

lemma mycpu_self:
  assumes "machine_wf s" "c < ncpu s" "\<not> FL_IF s c"
  shows "mycpu c s = Ret c"
proof -
  have "scan (\<lambda>k. ucast (apicid k) = lapicid c s) (take (ncpu s) (cpus s)) = Some c"
    unfolding scan_Some_iff
  proof (intro conjI allI impI)
    fix j assume j: "j < c"
    then have "j < ncpu s" using assms(2) by simp
    then have "lapicid j s \<noteq> lapicid c s" "ucast (apicid (cpus s ! j)) = lapicid j s"
      using machine_wfD(2,3) [OF assms(1) \<open>j < ncpu s\<close>] assms(2) j by auto
    then show "ucast (apicid (take (ncpu s) (cpus s) ! j)) \<noteq> lapicid c s" using \<open>j < ncpu s\<close> by simp
  qed (use machine_wfD(1,2) [OF assms(1,2)] assms(2) in auto)
  then show ?thesis using assms(3) by (simp add: mycpu_def)
qed

text \<open>The machine after \<open>pushcli\<close> and after \<open>popcli\<close> on processor \<open>c\<close>.\<close>

definition pushed :: "nat \<Rightarrow> machine \<Rightarrow> machine" where
  "pushed c s = s\<lparr>FL_IF := (FL_IF s)(c := False),
     cpus := (cpus s)[c := (cpus s ! c)\<lparr>
       intena := (if ncli (cpus s ! c) = 0 then FL_IF s c else intena (cpus s ! c)),
       ncli := ncli (cpus s ! c) + 1\<rparr>]\<rparr>"

definition popped :: "nat \<Rightarrow> machine \<Rightarrow> machine" where
  "popped c s = s\<lparr>FL_IF := (FL_IF s)(c := (ncli (cpus s ! c) = 1 \<and> intena (cpus s ! c))),
     cpus := (cpus s)[c := (cpus s ! c)\<lparr>ncli := ncli (cpus s ! c) - 1\<rparr>]\<rparr>"

lemma lapicid_frame [simp]:
  "lapicid c (pushed d s) = lapicid c s" "lapicid c (popped d s) = lapicid c s"
  "lapicid c (upd_lock l f s) = lapicid c s" "lapicid c (cli d s) = lapicid c s"
  by (simp_all add: lapicid_def pushed_def popped_def upd_lock_def cli_def)

lemma machine_frame [simp]:
  "ncpu (pushed c s) = ncpu s" "ncpu (popped c s) = ncpu s" "ncpu (upd_lock l f s) = ncpu s"
  "locks (pushed c s) = locks s" "locks (popped c s) = locks s"
  "locks (upd_lock l f s) = (locks s)(l := f (locks s l))"
  "cpus (upd_lock l f s) = cpus s" "FL_IF (upd_lock l f s) = FL_IF s"
  "stack (pushed c s) = stack s" "stack (popped c s) = stack s"
  by (simp_all add: pushed_def popped_def upd_lock_def)

lemma machine_wf_upd_lock [simp]: "machine_wf (upd_lock l f s) = machine_wf s"
  by (simp add: machine_wf_def)

lemma machine_wf_pushed: "machine_wf s \<Longrightarrow> c < ncpu s \<Longrightarrow> depth c s < MAXDEPTH \<Longrightarrow> machine_wf (pushed c s)"
  unfolding machine_wf_def by (auto simp: nth_list_update) (auto simp: pushed_def nth_list_update depth_inc split: if_splits)

lemma machine_wf_popped:
  "machine_wf s \<Longrightarrow> c < ncpu s \<Longrightarrow> 0 < depth c s \<Longrightarrow> machine_wf (popped c s)"
  unfolding machine_wf_def
  by (auto simp: nth_list_update) (auto simp: popped_def nth_list_update depth_dec word_unat_eq_iff split: if_splits)

lemma pushcli_eq:
  assumes "machine_wf s" "c < ncpu s"
  shows "pushcli c s = Ret (pushed c s)"
proof -
  have "machine_wf (cli c s)" using assms by (auto simp: machine_wf_def cli_def lapicid_def)
  then have "mycpu c (cli c s) = Ret c" using assms by (intro mycpu_self) (auto simp: cli_def)
  then show ?thesis using machine_wfD(1) [OF assms]
    by (auto simp: pushcli_def Let_def pushed_def upd_cpu_def cli_def)
qed

lemma popcli_eq:
  assumes "machine_wf s" "c < ncpu s" "0 < depth c s"
  shows "popcli c s = Ret (popped c s)"
proof -
  have off: "\<not> FL_IF s c" using machine_wfD(5) [OF assms] .
  then have "(FL_IF s)(c := False) = FL_IF s" by (simp add: fun_upd_idem)
  moreover have "mycpu c s = Ret c" using assms(1,2) off by (rule mycpu_self)
  moreover have "sint (ncli (cpus s ! c) - 1) = int (depth c s - 1)"
    using sint_small [of "ncli (cpus s ! c) - 1"] depth_dec [OF assms(3)] machine_wfD(4) [OF assms(1,2)] by simp
  moreover have "ncli (cpus s ! c) - 1 = 0 \<longleftrightarrow> ncli (cpus s ! c) = 1" by (rule right_minus_eq)
  ultimately show ?thesis using machine_wfD(1) [OF assms(1,2)] off
    by (auto simp: popcli_def Let_def popped_def upd_cpu_def sti_def)
qed

lemma pushed_facts:
  assumes "machine_wf s" "c < ncpu s"
  shows "\<not> FL_IF (pushed c s) c" "depth c s < MAXDEPTH \<Longrightarrow> depth c (pushed c s) = depth c s + 1"
    "d \<noteq> c \<Longrightarrow> cpus (pushed c s) ! d = cpus s ! d" "d \<noteq> c \<Longrightarrow> FL_IF (pushed c s) d = FL_IF s d"
  using machine_wfD(1) [OF assms] by (simp_all add: pushed_def depth_inc)

lemma popped_facts:
  assumes "machine_wf s" "c < ncpu s"
  shows "0 < depth c s \<Longrightarrow> depth c (popped c s) = depth c s - 1"
    "d \<noteq> c \<Longrightarrow> cpus (popped c s) ! d = cpus s ! d" "d \<noteq> c \<Longrightarrow> FL_IF (popped c s) d = FL_IF s d"
  using machine_wfD(1) [OF assms] by (simp_all add: popped_def depth_dec)

lemma popped_pushed:
  assumes "machine_wf s" "c < ncpu s"
  shows "popped c (pushed c s) =
    upd_cpu c (\<lambda>k. if ncli k = 0 then k\<lparr>intena := FL_IF s c\<rparr> else k) s"
proof -
  have "FL_IF s c = (ncli (cpus s ! c) = 0 \<and> FL_IF s c)"
    using machine_wfD(5) [OF assms] by (auto simp: unat_gt_0)
  then have "(FL_IF s)(c := (ncli (cpus s ! c) = 0 \<and> FL_IF s c)) = FL_IF s" by (simp add: fun_upd_idem)
  then show ?thesis using machine_wfD(1) [OF assms]
    by (auto simp: popped_def pushed_def upd_cpu_def)
qed

lemma upd_cpu_id: "c < length (cpus s) \<Longrightarrow> f (cpus s ! c) = cpus s ! c \<Longrightarrow> upd_cpu c f s = s"
  by (simp add: upd_cpu_def)

text \<open>The \<open>pushcli\<close> and \<open>popcli\<close> inside \<open>holding\<close> and \<open>acquire\<close> need room in the counter.\<close>

lemma pushed_popcli:
  assumes "machine_wf s" "c < ncpu s" "depth c s < MAXDEPTH"
  shows "mycpu c (pushed c s) = Ret c" "popcli c (pushed c s) = Ret (popped c (pushed c s))"
proof -
  have wf: "machine_wf (pushed c s)" using assms by (rule machine_wf_pushed)
  show "mycpu c (pushed c s) = Ret c" using wf assms pushed_facts(1) [OF assms(1,2)] by (intro mycpu_self) auto
  show "popcli c (pushed c s) = Ret (popped c (pushed c s))"
    using wf assms pushed_facts(2) [OF assms] by (intro popcli_eq) auto
qed

lemma holding_nested:
  assumes "machine_wf s" "c < ncpu s" "0 < depth c s" "depth c s < MAXDEPTH"
  shows "holding c l s = Ret (locked (locks s l) \<noteq> 0 \<and> lcpu (locks s l) = Some c, s)"
proof -
  have "popped c (pushed c s) = s"
    unfolding popped_pushed [OF assms(1,2)] using machine_wfD(1) [OF assms(1,2)] assms(3)
    by (intro upd_cpu_id) auto
  then show ?thesis using pushed_popcli [OF assms(1,2,4)] by (simp add: holding_def pushcli_eq [OF assms(1,2)] Let_def)
qed

lemma holding_any:
  assumes "machine_wf s" "c < ncpu s" "depth c s < MAXDEPTH"
  shows "\<exists>s'. holding c l s = Ret (locked (locks s l) \<noteq> 0 \<and> lcpu (locks s l) = Some c, s') \<and>
    locks s' = locks s \<and> FL_IF s' = FL_IF s"
proof -
  have "FL_IF (popped c (pushed c s)) = FL_IF s"
    unfolding popped_pushed [OF assms(1,2)] by (simp add: upd_cpu_def)
  then show ?thesis using pushed_popcli [OF assms] by (simp add: holding_def pushcli_eq [OF assms(1,2)] Let_def)
qed

lemma acquire_enter_eq:
  assumes "machine_wf s" "c < ncpu s" "depth c s + 1 < MAXDEPTH"
  shows "acquire_enter c l s =
    (if locked (locks s l) \<noteq> 0 \<and> lcpu (locks s l) = Some c then Panic ''acquire'' else Ret (pushed c s))"
proof -
  have "holding c l (pushed c s) = Ret (locked (locks s l) \<noteq> 0 \<and> lcpu (locks s l) = Some c, pushed c s)"
    using holding_nested [OF machine_wf_pushed [OF assms(1,2)]] assms pushed_facts(2) [OF assms(1,2)] by simp
  then show ?thesis by (simp add: acquire_enter_def pushcli_eq [OF assms(1,2)])
qed

definition disowned :: "spinlock \<Rightarrow> spinlock" where
  "disowned k = k\<lparr>pcs := (pcs k)[0 := 0], lcpu := None\<rparr>"

lemma release_enter_eq:
  assumes "machine_wf s" "c < ncpu s" "0 < depth c s" "depth c s < MAXDEPTH"
  shows "release_enter c l s =
    (if locked (locks s l) \<noteq> 0 \<and> lcpu (locks s l) = Some c then Ret (upd_lock l disowned s) else Panic ''release'')"
  by (simp add: release_enter_def holding_nested [OF assms] disowned_def [abs_def])

section \<open>Processors contending for locks\<close>

text \<open>
  Each processor runs, spins for a lock, has just won the exchange, is about to free a lock, or
  has freed one and is before its \<open>popcli\<close>. \<open>cs c\<close> are the locks processor \<open>c\<close> has
  acquired and not freed.
\<close>

datatype phase = Run | Spin lock u32 | Won lock u32 | Freeing lock | Freed

record contention =
  mach :: machine
  ph :: "nat \<Rightarrow> phase"
  cs :: "nat \<Rightarrow> lock set"

inductive lock_step :: "contention \<Rightarrow> contention \<Rightarrow> bool" where
  enter: "c < ncpu (mach s) \<Longrightarrow> ph s c = Run \<Longrightarrow> acquire_enter c l (mach s) = Ret m \<Longrightarrow>
    lock_step s (s\<lparr>mach := m, ph := (ph s)(c := Spin l v)\<rparr>)"
| spin: "ph s c = Spin l v \<Longrightarrow> acquire_xchg l (mach s) = (old, m) \<Longrightarrow> old \<noteq> 0 \<Longrightarrow>
    lock_step s (s\<lparr>mach := m\<rparr>)"
| win: "ph s c = Spin l v \<Longrightarrow> acquire_xchg l (mach s) = (0, m) \<Longrightarrow>
    lock_step s (s\<lparr>mach := m, ph := (ph s)(c := Won l v), cs := (cs s)(c := insert l (cs s c))\<rparr>)"
| leave: "ph s c = Won l v \<Longrightarrow> acquire_leave c l v (mach s) = Ret m \<Longrightarrow>
    lock_step s (s\<lparr>mach := m, ph := (ph s)(c := Run)\<rparr>)"
| rel: "c < ncpu (mach s) \<Longrightarrow> ph s c = Run \<Longrightarrow> release_enter c l (mach s) = Ret m \<Longrightarrow>
    lock_step s (s\<lparr>mach := m, ph := (ph s)(c := Freeing l)\<rparr>)"
| store: "ph s c = Freeing l \<Longrightarrow>
    lock_step s (s\<lparr>mach := release_store l (mach s), ph := (ph s)(c := Freed), cs := (cs s)(c := cs s c - {l})\<rparr>)"
| pop: "ph s c = Freed \<Longrightarrow> popcli c (mach s) = Ret m \<Longrightarrow> lock_step s (s\<lparr>mach := m, ph := (ph s)(c := Run)\<rparr>)"

definition contention_init :: "machine \<Rightarrow> contention" where
  "contention_init m = \<lparr>mach = m, ph = (\<lambda>_. Run), cs = (\<lambda>_. {})\<rparr>"

text \<open>Every lock free, no processor with interrupts blocked by \<open>pushcli\<close>.\<close>

definition boot_machine :: "machine \<Rightarrow> bool" where
  "boot_machine m \<longleftrightarrow> machine_wf m \<and> (\<forall>l. locked (locks m l) = 0 \<and> lcpu (locks m l) = None) \<and>
     (\<forall>c < ncpu m. ncli (cpus m ! c) = 0)"

definition extra :: "phase \<Rightarrow> nat" where
  "extra p = (case p of Spin l v \<Rightarrow> 1 | Freed \<Rightarrow> 1 | _ \<Rightarrow> 0)"

definition owns :: "phase \<Rightarrow> lock \<Rightarrow> bool" where
  "owns p l \<longleftrightarrow> (case p of Won k v \<Rightarrow> k = l | Freeing k \<Rightarrow> k = l | _ \<Rightarrow> False)"

definition lock_ok :: "machine \<Rightarrow> (nat \<Rightarrow> phase) \<Rightarrow> (nat \<Rightarrow> lock set) \<Rightarrow> bool" where
  "lock_ok m p q \<longleftrightarrow>
     machine_wf m \<and>
     (\<forall>c. p c \<noteq> Run \<or> q c \<noteq> {} \<longrightarrow> c < ncpu m) \<and>
     (\<forall>c < ncpu m. depth c m = card (q c) + extra (p c)) \<and>
     (\<forall>l c d. l \<in> q c \<longrightarrow> l \<in> q d \<longrightarrow> c = d) \<and>
     (\<forall>l. locked (locks m l) \<noteq> 0 \<longleftrightarrow> (\<exists>c. l \<in> q c)) \<and>
     (\<forall>l c. lcpu (locks m l) = Some c \<longrightarrow> l \<in> q c) \<and>
     (\<forall>l c. owns (p c) l \<longrightarrow> l \<in> q c) \<and>
     (\<forall>l c. p c = Freeing l \<longrightarrow> lcpu (locks m l) = None)"

definition lock_inv :: "contention \<Rightarrow> bool" where
  "lock_inv s \<longleftrightarrow> lock_ok (mach s) (ph s) (cs s)"

lemma lock_invD:
  assumes "lock_inv s"
  shows "machine_wf (mach s)" "\<And>c. ph s c \<noteq> Run \<or> cs s c \<noteq> {} \<Longrightarrow> c < ncpu (mach s)"
    "\<And>c. c < ncpu (mach s) \<Longrightarrow> depth c (mach s) = card (cs s c) + extra (ph s c)"
    "\<And>l c d. l \<in> cs s c \<Longrightarrow> l \<in> cs s d \<Longrightarrow> c = d"
    "\<And>l. locked (locks (mach s) l) \<noteq> 0 \<longleftrightarrow> (\<exists>c. l \<in> cs s c)"
    "\<And>l c. lcpu (locks (mach s) l) = Some c \<Longrightarrow> l \<in> cs s c"
    "\<And>l c. owns (ph s c) l \<Longrightarrow> l \<in> cs s c"
    "\<And>l c. ph s c = Freeing l \<Longrightarrow> lcpu (locks (mach s) l) = None"
  using assms unfolding lock_inv_def lock_ok_def by blast+

text \<open>There are too few locks for the counter to come near its bound.\<close>

lemma card_locks: "card (L :: lock set) \<le> 2 ^ 27"
proof -
  have "card L \<le> CARD(27 word)" by (intro card_mono) auto
  then show ?thesis by (simp add: card_word)
qed

lemma lock_room:
  assumes "lock_inv s" "c < ncpu (mach s)"
  shows "depth c (mach s) + 1 < MAXDEPTH"
  using lock_invD(3) [OF assms] card_locks [of "cs s c"] by (simp add: extra_def split: phase.splits)

lemma owner_depth:
  assumes "lock_inv s" "l \<in> cs s c"
  shows "c < ncpu (mach s)" "0 < depth c (mach s)" "\<not> FL_IF (mach s) c"
proof -
  show c: "c < ncpu (mach s)" using lock_invD(2) [OF assms(1)] assms(2) by blast
  have "0 < card (cs s c)" using assms(2) by (auto simp: card_gt_0_iff)
  then show d: "0 < depth c (mach s)" using lock_invD(3) [OF assms(1) c] by simp
  show "\<not> FL_IF (mach s) c" using machine_wfD(5) [OF lock_invD(1) [OF assms(1)] c d] .
qed

lemma any_owner: "(\<exists>d. P d) \<longleftrightarrow> P c \<or> (\<exists>d. d \<noteq> c \<and> P d)"
  by metis

lemma not_others: "lock_inv s \<Longrightarrow> l \<in> cs s c \<Longrightarrow> d \<noteq> c \<Longrightarrow> l \<notin> cs s d"
  using lock_invD(4) by blast

lemma lock_inv_init: "boot_machine m \<Longrightarrow> lock_inv (contention_init m)"
  by (simp add: boot_machine_def lock_inv_def lock_ok_def contention_init_def extra_def owns_def)

text \<open>
  A step of processor \<open>c\<close> that leaves the other processors as they are keeps the invariant if it
  keeps the counter of \<open>c\<close> and the words of the locks in step with the locks that \<open>c\<close> has.
\<close>

lemma lock_inv_upd:
  assumes "lock_inv s" "c < ncpu (mach s)" "machine_wf m" "ncpu m = ncpu (mach s)" "\<And>d. d \<noteq> c \<Longrightarrow> depth d m = depth d (mach s)"
    and "depth c m = card L + extra p" "\<And>l. owns p l \<Longrightarrow> l \<in> L" "\<And>l d. l \<in> L \<Longrightarrow> d \<noteq> c \<Longrightarrow> l \<notin> cs s d"
    and "\<And>l. locked (locks m l) \<noteq> 0 \<longleftrightarrow> l \<in> L \<or> (\<exists>d. d \<noteq> c \<and> l \<in> cs s d)"
    and "\<And>l d. lcpu (locks m l) = Some d \<Longrightarrow> l \<in> (if d = c then L else cs s d)"
    and "\<And>l d. ((ph s)(c := p)) d = Freeing l \<Longrightarrow> lcpu (locks m l) = None"
  shows "lock_inv (s\<lparr>mach := m, ph := (ph s)(c := p), cs := (cs s)(c := L)\<rparr>)"
proof -
  note I = lock_invD [OF assms(1)]
  have "(\<exists>d. l \<in> ((cs s)(c := L)) d) \<longleftrightarrow> l \<in> L \<or> (\<exists>d. d \<noteq> c \<and> l \<in> cs s d)" for l by (auto simp: fun_upd_def)
  moreover have "l \<in> ((cs s)(c := L)) d \<Longrightarrow> l \<in> ((cs s)(c := L)) e \<Longrightarrow> d = e" for l d e
    using I(4) [of l d e] assms(8) [of l d] assms(8) [of l e] by (auto split: if_splits)
  moreover have "((ph s)(c := p)) d \<noteq> Run \<or> ((cs s)(c := L)) d \<noteq> {} \<Longrightarrow> d < ncpu m" for d
    using I(2) [of d] assms(2,4) by (auto split: if_splits)
  moreover have "d < ncpu m \<Longrightarrow> depth d m = card (((cs s)(c := L)) d) + extra (((ph s)(c := p)) d)" for d
    using I(3) [of d] assms(4-6) by auto
  moreover have "owns (((ph s)(c := p)) d) l \<Longrightarrow> l \<in> ((cs s)(c := L)) d" for d l
    using I(7) [of d l] assms(7) by (auto split: if_splits)
  moreover have "lcpu (locks m l) = Some d \<Longrightarrow> l \<in> ((cs s)(c := L)) d" for d l using assms(10) by simp
  ultimately show ?thesis using assms(3,9,11) by (simp add: lock_inv_def lock_ok_def del: fun_upd_apply)
qed

lemma cs_same: "s\<lparr>mach := m, ph := q\<rparr> = s\<lparr>mach := m, ph := q, cs := (cs s)(c := cs s c)\<rparr>"
  by simp

lemma ph_same: "s\<lparr>mach := m\<rparr> = s\<lparr>mach := m, ph := (ph s)(c := ph s c), cs := (cs s)(c := cs s c)\<rparr>"
  by simp

lemma lock_inv_step:
  assumes "lock_step s s'" "lock_inv s"
  shows "lock_inv s'"
  using assms
proof (induction rule: lock_step.induct)
  case (enter c s l m v)
  note I = lock_invD [OF enter(4)] and room = lock_room [OF enter(4,1)]
  have m: "m = pushed c (mach s)" using enter(3) acquire_enter_eq [OF I(1) enter(1) room] by (auto split: if_splits)
  have d: "depth c m = card (cs s c) + extra (Spin l v)"
    using I(3) [OF enter(1)] pushed_facts(2) [OF I(1) enter(1)] room enter(2) by (simp add: m extra_def)
  have o: "locked (locks m k) \<noteq> 0 \<longleftrightarrow> k \<in> cs s c \<or> (\<exists>d. d \<noteq> c \<and> k \<in> cs s d)" for k using I(5) [of k] by (auto simp: m)
  show ?case
    by (subst cs_same [where c = c], rule lock_inv_upd [OF enter(4,1) _ _ _ d _ _ o])
      (use I(4,6) machine_wf_pushed [OF I(1) enter(1)] room pushed_facts(3) [OF I(1) enter(1)] I(8) in \<open>auto simp: m owns_def split: if_splits\<close>)
next
  case (spin s c l v old m)
  note I = lock_invD [OF spin(4)]
  have c: "c < ncpu (mach s)" using I(2) spin(1) by simp
  have m: "m = upd_lock l (\<lambda>k. k\<lparr>locked := 1\<rparr>) (mach s)" "locked (locks (mach s) l) \<noteq> 0"
    using spin(2,3) by (auto simp: acquire_xchg_def)
  have o: "locked (locks m k) \<noteq> 0 \<longleftrightarrow> k \<in> cs s c \<or> (\<exists>d. d \<noteq> c \<and> k \<in> cs s d)" for k using I(5) [of k] m by auto
  have q: "lcpu (locks m k) = lcpu (locks (mach s) k)" for k by (simp add: m)
  show ?case
    by (subst ph_same [where c = c], rule lock_inv_upd [OF spin(4) c _ _ _ _ _ _ o]) (use I(1,3,4,6,7,8) c q in \<open>auto simp: m(1) split: if_splits\<close>)
next
  case (win s c l v m)
  note I = lock_invD [OF win(3)]
  have c: "c < ncpu (mach s)" using I(2) win(1) by simp
  have m: "m = upd_lock l (\<lambda>k. k\<lparr>locked := 1\<rparr>) (mach s)" "locked (locks (mach s) l) = 0"
    using win(2) by (auto simp: acquire_xchg_def)
  have free: "l \<notin> cs s d" for d using I(5) [of l] m(2) by blast
  have d: "depth c m = card (insert l (cs s c)) + extra (Won l v)"
    using I(3) [OF c] win(1) free [of c] by (simp add: m(1) extra_def)
  have o: "locked (locks m k) \<noteq> 0 \<longleftrightarrow> k \<in> insert l (cs s c) \<or> (\<exists>d. d \<noteq> c \<and> k \<in> cs s d)" for k
    using I(5) [of k] by (auto simp: m(1))
  have q: "lcpu (locks m k) = lcpu (locks (mach s) k)" for k by (simp add: m)
  show ?case
    by (rule lock_inv_upd [OF win(3) c _ _ _ d _ _ o]) (use I(1,4,6,8) free q in \<open>auto simp: m(1) owns_def split: if_splits\<close>)
next
  case (leave s c l v m)
  note I = lock_invD [OF leave(3)]
  have own: "l \<in> cs s c" using I(7) [of c l] leave(1) by (simp add: owns_def)
  note O = owner_depth [OF leave(3) own]
  have m: "m = upd_lock l (\<lambda>k. k\<lparr>lcpu := Some c, pcs := getcallerpcs (stack (mach s)) v\<rparr>) (mach s)"
    using leave(2) mycpu_self [OF I(1) O(1,3)] by (simp add: acquire_leave_def)
  have d: "depth c m = card (cs s c) + extra Run" using I(3) [OF O(1)] leave(1) by (simp add: m extra_def)
  have fr: "d \<noteq> c \<Longrightarrow> ph s d \<noteq> Freeing l" for d using I(4) own I(7) [of d l] by (auto simp: owns_def)
  have o: "locked (locks m k) \<noteq> 0 \<longleftrightarrow> k \<in> cs s c \<or> (\<exists>d. d \<noteq> c \<and> k \<in> cs s d)" for k using I(5) [of k] by (auto simp: m)
  show ?case
    by (subst cs_same [where c = c], rule lock_inv_upd [OF leave(3) O(1) _ _ _ d _ _ o]) (use I(1,4,6,8) own fr in \<open>auto simp: m owns_def split: if_splits\<close>)
next
  case (rel c s l m)
  note I = lock_invD [OF rel(4)] and room = lock_room [OF rel(4,1)]
  have "lcpu (locks (mach s) l) = Some c"
    using rel(3) holding_any [OF I(1) rel(1), of l] room by (auto simp: release_enter_def obind_eq_Ret split: if_splits)
  then have own: "l \<in> cs s c" by (rule I(6))
  note O = owner_depth [OF rel(4) own]
  have m: "m = upd_lock l disowned (mach s)" using rel(3) release_enter_eq [OF I(1) rel(1) O(2), of l] room by (auto split: if_splits)
  have d: "depth c m = card (cs s c) + extra (Freeing l)" using I(3) [OF O(1)] rel(2) by (simp add: m extra_def)
  have o: "locked (locks m k) \<noteq> 0 \<longleftrightarrow> k \<in> cs s c \<or> (\<exists>d. d \<noteq> c \<and> k \<in> cs s d)" for k
    using I(5) [of k] by (auto simp: m disowned_def)
  have q: "lcpu (locks m k) = Some e \<Longrightarrow> k \<in> (if e = c then cs s c else cs s e)" for k e
    using I(6) [of k e] by (cases "e = c") (simp_all add: m disowned_def split: if_splits)
  show ?case
    by (subst cs_same [where c = c], rule lock_inv_upd [OF rel(4,1) _ _ _ d _ not_others [OF rel(4)] o q])
      (use I(1,8) own in \<open>auto simp: m owns_def disowned_def split: if_splits\<close>)
next
  case (store s c l)
  note I = lock_invD [OF store(2)]
  have own: "l \<in> cs s c" using I(7) [of c l] store(1) by (simp add: owns_def)
  note O = owner_depth [OF store(2) own]
  have others: "l \<notin> cs s d" if "d \<noteq> c" for d using I(4) own that by blast
  have "0 < card (cs s c)" using own by (auto simp: card_gt_0_iff)
  then have d: "depth c (release_store l (mach s)) = card (cs s c - {l}) + extra Freed"
    using I(3) [OF O(1)] store(1) own by (simp add: release_store_def extra_def)
  have o: "locked (locks (release_store l (mach s)) k) \<noteq> 0 \<longleftrightarrow> k \<in> cs s c - {l} \<or> (\<exists>d. d \<noteq> c \<and> k \<in> cs s d)" for k
    using I(5) [of k] others any_owner [of "\<lambda>d. k \<in> cs s d" c] by (cases "k = l") (auto simp: release_store_def)
  have q: "lcpu (locks (release_store l (mach s)) k) = Some e \<Longrightarrow> k \<in> (if e = c then cs s c - {l} else cs s e)" for k e
    using I(6) [of k e] I(8) [OF store(1)] by (cases "e = c") (auto simp: release_store_def split: if_splits)
  show ?case
    by (rule lock_inv_upd [OF store(2) O(1) _ _ _ d _ _ o q])
      (use I(1) not_others [OF store(2)] I(8) in \<open>auto simp: release_store_def owns_def split: if_splits\<close>)
next
  case (pop s c m)
  note I = lock_invD [OF pop(3)]
  have c: "c < ncpu (mach s)" using I(2) pop(1) by simp
  have pos: "0 < depth c (mach s)" using I(3) [OF c] pop(1) by (simp add: extra_def)
  have m: "m = popped c (mach s)" using pop(2) popcli_eq [OF I(1) c pos] by simp
  have d: "depth c m = card (cs s c) + extra Run"
    using I(3) [OF c] popped_facts(1) [OF I(1) c pos] pop(1) by (simp add: m extra_def)
  have o: "locked (locks m k) \<noteq> 0 \<longleftrightarrow> k \<in> cs s c \<or> (\<exists>d. d \<noteq> c \<and> k \<in> cs s d)" for k using I(5) [of k] by (auto simp: m)
  show ?case
    by (subst cs_same [where c = c], rule lock_inv_upd [OF pop(3) c _ _ _ d _ _ o])
      (use I(4,6) machine_wf_popped [OF I(1) c pos] popped_facts(2) [OF I(1) c] I(8) in \<open>auto simp: m owns_def split: if_splits\<close>)
qed

inductive reach :: "machine \<Rightarrow> contention \<Rightarrow> bool" for m where
  start: "reach m (contention_init m)"
| step: "reach m s \<Longrightarrow> lock_step s s' \<Longrightarrow> reach m s'"

lemma reach_inv: "reach m s \<Longrightarrow> boot_machine m \<Longrightarrow> lock_inv s"
  by (induction rule: reach.induct) (auto intro: lock_inv_init lock_inv_step)

section \<open>Claims\<close>

text \<open>
  C3: mutual exclusion. However any number of processors interleave their calls of
  \<open>acquire\<close> and \<open>release\<close> on any locks, no two of them are ever inside the same lock,
  and a processor inside a lock has interrupts off.
\<close>

theorem spinlock_mutual_exclusion:
  assumes "boot_machine m" "reach m s" "l \<in> cs s c"
  shows "(\<forall>d. l \<in> cs s d \<longrightarrow> d = c) \<and> locked (locks (mach s) l) \<noteq> 0 \<and> \<not> FL_IF (mach s) c"
proof -
  note inv = reach_inv [OF assms(2,1)]
  show ?thesis using lock_invD(4) [OF inv assms(3)] lock_invD(5) [OF inv, of l] owner_depth(3) [OF inv assms(3)] assms(3) by blast
qed

text \<open>
  C6: \<open>acquire\<close> of a free lock followed by \<open>release\<close> of it returns, and leaves the
  machine as it was: interrupt flags, nesting counters and the lock, except for the saved
  call stack of the lock and the saved interrupt flag, which only count while the lock is
  held. So a critical section acts as one step. The nesting counter must have room for the two
  calls of \<open>pushcli\<close> inside \<open>acquire\<close>.
\<close>

theorem acquire_release:
  assumes "machine_wf s" "c < ncpu s" "depth c s + 1 < MAXDEPTH" "locked (locks s l) = 0" "lcpu (locks s l) = None"
  shows "\<exists>s1 s2. acquire c l v s = Ret s1 \<and> \<not> FL_IF s1 c \<and>
    holding c l s1 = Ret (True, s1) \<and> release c l s1 = Ret s2 \<and> machine_wf s2 \<and>
    FL_IF s2 = FL_IF s \<and> map ncli (cpus s2) = map ncli (cpus s) \<and>
    (\<forall>k. k = l \<or> locks s2 k = locks s k) \<and>
    locked (locks s2 l) = locked (locks s l) \<and> lcpu (locks s2 l) = lcpu (locks s l)"
proof -
  have room: "depth c s < MAXDEPTH" using assms(3) by simp
  note wf = machine_wf_pushed [OF assms(1,2) room] and pf = pushed_facts [OF assms(1,2)]
  let ?m1 = "upd_lock l (\<lambda>k. k\<lparr>locked := 1\<rparr>) (pushed c s)"
  let ?s1 = "upd_lock l (\<lambda>k. k\<lparr>lcpu := Some c, pcs := getcallerpcs (stack s) v\<rparr>) ?m1"
  have c1: "mycpu c ?m1 = Ret c" using wf assms(2) pf(1) by (intro mycpu_self) simp_all
  have st: "stack ?m1 = stack s" by (simp add: upd_lock_def)
  have a: "acquire c l v s = Ret ?s1"
    using assms by (simp add: acquire_def acquire_enter_eq acquire_xchg_def acquire_leave_def c1 st)
  have pos: "0 < depth c ?s1" "depth c ?s1 < MAXDEPTH" using pf(2) [OF room] assms(3) by simp_all
  have wf1: "machine_wf ?s1" "c < ncpu ?s1" using wf assms(2) by simp_all
  have h: "holding c l ?s1 = Ret (True, ?s1)" using holding_nested [OF wf1 pos] by simp
  let ?t = "release_store l (upd_lock l disowned ?s1)"
  define s2 where "s2 = popped c ?t"
  have "popcli c ?t = Ret s2" unfolding s2_def using wf1 pos(1) by (intro popcli_eq) (simp_all add: release_store_def)
  then have r: "release c l ?s1 = Ret s2" using release_enter_eq [OF wf1 pos] by (simp add: release_def)
  have eq: "cpus s2 = cpus (popped c (pushed c s))" "FL_IF s2 = FL_IF (popped c (pushed c s))"
    by (simp_all add: s2_def popped_def release_store_def)
  have "FL_IF s2 = FL_IF s" "map ncli (cpus s2) = map ncli (cpus s)"
    unfolding eq popped_pushed [OF assms(1,2)] using machine_wfD(1) [OF assms(1,2)]
    by (simp_all add: upd_cpu_def map_update) (metis list_update_id map_update)
  moreover have "machine_wf s2" unfolding s2_def using wf1 pos(1) by (intro machine_wf_popped) (simp_all add: release_store_def)
  moreover have "\<forall>k. k = l \<or> locks s2 k = locks s k" "locked (locks s2 l) = 0" "lcpu (locks s2 l) = None"
    by (simp_all add: s2_def release_store_def disowned_def)
  ultimately show ?thesis using a h r pf(1) assms(4,5)
    by (intro exI [of _ ?s1] exI [of _ s2]) simp
qed

primrec pushes :: "nat \<Rightarrow> nat \<Rightarrow> machine \<Rightarrow> machine outcome" where
  "pushes 0 c s = Ret s"
| "pushes (Suc n) c s = obind (pushes n c s) (pushcli c)"

primrec pops :: "nat \<Rightarrow> nat \<Rightarrow> machine \<Rightarrow> machine outcome" where
  "pops 0 c s = Ret s"
| "pops (Suc n) c s = obind (pops n c s) (popcli c)"

text \<open>The machine \<open>s\<close> with the interrupt state of processor \<open>c\<close> replaced.\<close>

definition level :: "nat \<Rightarrow> machine \<Rightarrow> bool \<Rightarrow> bool \<Rightarrow> nat \<Rightarrow> machine" where
  "level c s fl i n = s\<lparr>FL_IF := (FL_IF s)(c := fl),
     cpus := (cpus s)[c := (cpus s ! c)\<lparr>intena := i, ncli := of_nat n\<rparr>]\<rparr>"

lemma level_wf:
  assumes "machine_wf s" "c < ncpu s" "n \<le> MAXDEPTH" "0 < n \<Longrightarrow> \<not> fl"
  shows "machine_wf (level c s fl i n)" "c < ncpu (level c s fl i n)" "FL_IF (level c s fl i n) c = fl"
    "depth c (level c s fl i n) = n"
proof -
  have "unat (of_nat n :: u32) = n" using assms(3) by (intro unat_of_nat_small) simp
  then show "machine_wf (level c s fl i n)" "c < ncpu (level c s fl i n)" "FL_IF (level c s fl i n) c = fl"
    "depth c (level c s fl i n) = n"
    using assms machine_wfD(1) [OF assms(1,2)]
    by (auto simp: machine_wf_def level_def lapicid_def nth_list_update)
qed

lemma of_nat_depth: "n \<le> MAXDEPTH \<Longrightarrow> (of_nat n :: u32) = 0 \<longleftrightarrow> n = 0"
  using unat_of_nat_small [of n] by (auto simp: word_unat_eq_iff)

lemma pushed_level:
  assumes "machine_wf s" "c < ncpu s" "n \<le> MAXDEPTH"
  shows "pushed c (level c s fl i n) = level c s False (if n = 0 then fl else i) (Suc n)"
  using machine_wfD(1) [OF assms(1,2)] of_nat_depth [OF assms(3)] by (simp add: pushed_def level_def add.commute)

lemma popped_level:
  assumes "machine_wf s" "c < ncpu s" "n \<le> MAXDEPTH"
  shows "popped c (level c s fl i (Suc n)) = level c s (n = 0 \<and> i) i n"
  using machine_wfD(1) [OF assms(1,2)] of_nat_depth [OF assms(3)] by (auto simp: popped_def level_def)

lemma pushes_level:
  assumes "machine_wf s" "c < ncpu s" "ncli (cpus s ! c) = 0"
  shows "n \<le> MAXDEPTH \<Longrightarrow> pushes n c s = Ret (level c s (FL_IF s c \<and> n = 0) (if n = 0 then intena (cpus s ! c) else FL_IF s c) n)"
proof (induction n)
  case 0
  have "(cpus s ! c)\<lparr>intena := intena (cpus s ! c), ncli := 0\<rparr> = cpus s ! c" using assms(3) by simp
  then show ?case by (simp add: level_def)
next
  case (Suc n)
  let ?l = "level c s (FL_IF s c \<and> n = 0) (if n = 0 then intena (cpus s ! c) else FL_IF s c) n"
  have "pushcli c ?l = Ret (pushed c ?l)" using level_wf [OF assms(1,2)] Suc.prems by (intro pushcli_eq) auto
  then show ?case using Suc pushed_level [OF assms(1,2), of n] by simp
qed

lemma pops_level:
  assumes "machine_wf s" "c < ncpu s" "n \<le> MAXDEPTH"
  shows "k \<le> n \<Longrightarrow> pops k c (level c s (i \<and> n = 0) i n) = Ret (level c s (i \<and> n = k) i (n - k))"
proof (induction k)
  case (Suc k)
  then obtain j where j: "n - k = Suc j" by (cases "n - k") auto
  let ?l = "level c s (i \<and> n = k) i (Suc j)"
  have le: "Suc j \<le> MAXDEPTH" using j assms(3) by simp
  have "n \<noteq> k" using j by auto
  then have "popcli c ?l = Ret (popped c ?l)" using level_wf [OF assms(1,2) le, of "i \<and> n = k" i] by (intro popcli_eq) simp_all
  moreover have "n - Suc k = j" "(j = 0 \<and> i) = (i \<and> n = Suc k)" using j Suc.prems by auto
  ultimately show ?case using Suc popped_level [OF assms(1,2), of j] j le by simp
qed simp

text \<open>
  C10: \<open>pushcli\<close> and \<open>popcli\<close> nest. After \<open>n + 1\<close> calls of \<open>pushcli\<close>, as many as the C \<open>int\<close>
  that counts them can hold, interrupts are off,
  they stay off until the last \<open>popcli\<close> that belongs to them, and then the interrupt flag is what it was
  before the first \<open>pushcli\<close>; one \<open>popcli\<close> more panics.
\<close>

theorem pushcli_popcli_nest:
  assumes "machine_wf s" "c < ncpu s" "ncli (cpus s ! c) = 0" "Suc n < 2 ^ 31"
  shows "\<exists>s1. pushes (Suc n) c s = Ret s1 \<and>
    (\<forall>k \<le> n. \<exists>s2. pops k c s1 = Ret s2 \<and> \<not> FL_IF s2 c) \<and>
    (\<exists>s3 msg. pops (Suc n) c s1 = Ret s3 \<and> FL_IF s3 = FL_IF s \<and> popcli c s3 = Panic msg)"
proof -
  let ?i = "FL_IF s c"
  let ?s1 = "level c s False ?i (Suc n)" and ?s3 = "level c s ?i ?i 0"
  have le: "Suc n \<le> MAXDEPTH" using assms(4) by simp
  have push: "pushes (Suc n) c s = Ret ?s1" using pushes_level [OF assms(1-3) le] by simp
  have pop: "k \<le> Suc n \<Longrightarrow> pops k c ?s1 = Ret (level c s (?i \<and> Suc n = k) ?i (Suc n - k))" for k
    using pops_level [OF assms(1,2) le, of k ?i] by simp
  have off: "\<exists>s2. pops k c ?s1 = Ret s2 \<and> \<not> FL_IF s2 c" if "k \<le> n" for k
    using pop [of k] that by (simp add: level_def)
  have same: "FL_IF ?s3 = FL_IF s" by (simp add: level_def)
  have "\<exists>msg. popcli c ?s3 = Panic msg"
  proof (cases ?i)
    case True
    then show ?thesis by (simp add: popcli_def level_def)
  next
    case False
    then have "mycpu c ?s3 = Ret c" using level_wf [OF assms(1,2), of 0] by (intro mycpu_self) auto
    then show ?thesis using False machine_wfD(1) [OF assms(1,2)]
      by (simp add: popcli_def level_def upd_cpu_def Let_def)
  qed
  with push pop [of "Suc n"] off same show ?thesis by auto
qed

section \<open>The claims at work\<close>

definition two_cpus :: machine where
  "two_cpus = \<lparr>cpus = [\<lparr>apicid = 0, started = 1, ncli = 0, intena = False, cproc = None\<rparr>,
       \<lparr>apicid = 1, started = 1, ncli = 0, intena = False, cproc = None\<rparr>],
     ncpu = 2, FL_IF = (\<lambda>_. True), lapic = Some (\<lambda>c. if c = 0 then 0 else 0x01000000),
     locks = (\<lambda>_. \<lparr>locked = 0, lname = [], lcpu = None, pcs = replicate 10 0\<rparr>), stack = (\<lambda>_. 0)\<rparr>"

lemma less_two: "c < 2 \<longleftrightarrow> c = 0 \<or> c = Suc 0" for c :: nat
  by auto

lemma two_cpus_wf: "machine_wf two_cpus"
  by (auto simp: machine_wf_def two_cpus_def lapicid_def less_two)

lemma two_cpus_boot: "boot_machine two_cpus"
  using two_cpus_wf by (auto simp: boot_machine_def two_cpus_def less_two)

theorem spinlock_mutual_exclusion_witness:
  "\<exists>s. reach two_cpus s \<and> 7 \<in> cs s 0 \<and> 7 \<notin> cs s 1"
proof -
  have n: "0 < ncpu two_cpus" by (simp add: two_cpus_def)
  let ?s0 = "contention_init two_cpus"
  have "acquire_enter 0 7 (mach ?s0) = Ret (pushed 0 two_cpus)"
    using acquire_enter_eq [OF two_cpus_wf n, where l = 7] by (simp add: contention_init_def two_cpus_def)
  then have 1: "lock_step ?s0 (?s0\<lparr>mach := pushed 0 two_cpus, ph := (ph ?s0)(0 := Spin 7 0)\<rparr>)" (is "lock_step _ ?s1")
    using n by (intro lock_step.enter) (simp_all add: contention_init_def)
  have 2: "lock_step ?s1 (?s1\<lparr>mach := snd (acquire_xchg 7 (mach ?s1)), ph := (ph ?s1)(0 := Won 7 0),
      cs := (cs ?s1)(0 := insert 7 (cs ?s1 0))\<rparr>)" (is "lock_step _ ?s2")
    by (rule lock_step.win) (simp_all add: acquire_xchg_def two_cpus_def)
  have r: "reach two_cpus ?s2" using reach.step [OF reach.step [OF reach.start 1] 2] .
  moreover have "7 \<in> cs ?s2 0" by simp
  moreover from this have "7 \<notin> cs ?s2 1"
    using spinlock_mutual_exclusion [OF two_cpus_boot r, of 7 0, THEN conjunct1, rule_format, of 1] by fastforce
  ultimately show ?thesis by blast
qed

theorem acquire_release_witness:
  "\<exists>s1 s2. acquire 1 3 0x80001000 two_cpus = Ret s1 \<and> release 1 3 s1 = Ret s2 \<and> FL_IF s2 1 \<and> \<not> FL_IF s1 1"
  using acquire_release [OF two_cpus_wf, of 1 3 "0x80001000"] by (auto simp: two_cpus_def)

theorem pushcli_popcli_nest_witness:
  "\<exists>s1 s3. pushes (Suc 2) 0 two_cpus = Ret s1 \<and> pops (Suc 2) 0 s1 = Ret s3 \<and> FL_IF s3 0"
  using pushcli_popcli_nest [OF two_cpus_wf, of 0 2] by (auto simp: two_cpus_def)

end
