(* ===== verification/Console.thy ===== *)
theory Console
  imports File Spinlock
begin

text \<open>
  The console, \<^verbatim>\<open>console.c\<close>: output to the screen and the serial port, the formatted
  printing of the kernel, and the input buffer with its line editing; also \<open>uartputc\<close> of
  \<^verbatim>\<open>uart.c\<close>, \<open>kbdgetc\<close> of \<^verbatim>\<open>kbd.c\<close> and \<open>procdump\<close> of \<^verbatim>\<open>proc.c\<close>. The screen
  memory is a function from positions to cells, the serial port the list of the bytes sent
  to it, the cursor registers one number. Critical sections of \<open>cons.lock\<close> are single steps.
  The characters an interrupt handler fetches with \<open>getc\<close> are a list.
\<close>

section \<open>Output\<close>

record input_buf =
  ibuf :: "u8 list"
  ir :: u32
  iw :: u32
  ie :: u32

record console_state = file_state +
  panicked :: bool
  uart :: bool
  uart_out :: "u8 list"
  crt :: "nat \<Rightarrow> u16"
  cursor :: nat
  input :: input_buf

abbreviation (input) BACKSPACE :: int where "BACKSPACE \<equiv> 0x100"

definition uartputc :: "int \<Rightarrow> 'a console_state_scheme \<Rightarrow> 'a console_state_scheme" where
  "uartputc c s = (if \<not> uart s then s else s\<lparr>uart_out := uart_out s @ [of_int c]\<rparr>)"

definition cgaputc :: "int \<Rightarrow> 'a console_state_scheme \<Rightarrow> 'a console_state_scheme outcome" where
  "cgaputc c s =
     (let pos = cursor s;
          (pos, m) = (if c = 10 then (pos + (80 - pos mod 80), crt s)
            else if c = BACKSPACE then (if pos > 0 then pos - 1 else pos, crt s)
            else (pos + 1, (crt s)(pos := (of_int c AND 0xff) OR 0x0700))) in
      if pos > 25 * 80 then Panic ''pos under/overflow''
      else
        let (pos, m) = (if pos div 80 \<ge> 24 then
              let m = (\<lambda>i. if i < 23 * 80 then m (i + 80) else m i); pos = pos - 80 in
              (pos, \<lambda>i. if pos \<le> i \<and> i < 24 * 80 then 0 else m i)
            else (pos, m))
        in Ret (s\<lparr>cursor := pos mod 2 ^ 16, crt := m(pos := 0x0720)\<rparr>))"

definition consputc :: "int \<Rightarrow> 'a console_state_scheme \<Rightarrow> 'a console_state_scheme outcome" where
  "consputc c s =
     (if panicked s then Diverged
      else
        let s = (if c = BACKSPACE then uartputc 8 (uartputc 32 (uartputc 8 s)) else uartputc c s)
        in cgaputc c s)"

function digits :: "nat \<Rightarrow> nat \<Rightarrow> string" where
  "digits base x =
     (let c = ''0123456789abcdef'' ! (x mod base) in
      if base < 2 \<or> x div base = 0 then [c] else c # digits base (x div base))"
  by pat_completeness auto
termination by (relation "measure snd") (auto simp: div_greater_zero_iff not_less intro!: div_less_dividend)

declare digits.simps [simp del]

text \<open>The buffer of \<open>printint\<close>, least significant digit first, and its output.\<close>

definition printint_buf :: "u32 \<Rightarrow> nat \<Rightarrow> bool \<Rightarrow> string" where
  "printint_buf xx base sign =
     (let neg = sign \<and> sint xx < 0; x = (if neg then - xx else xx) in
      digits base (unat x) @ (if neg then ''-'' else []))"

definition puts :: "string \<Rightarrow> 'a console_state_scheme \<Rightarrow> 'a console_state_scheme outcome" where
  "puts str s = ofor (\<lambda>c. consputc (of_char c)) str s"

definition printint :: "u32 \<Rightarrow> nat \<Rightarrow> bool \<Rightarrow> 'a console_state_scheme \<Rightarrow> 'a console_state_scheme outcome" where
  "printint xx base sign s = puts (rev (printint_buf xx base sign)) s"

text \<open>The arguments of \<open>cprintf\<close>: words and strings, a null pointer being a string too.\<close>

datatype carg = AWord u32 | AStr "string option"

fun cprintf_loop :: "string \<Rightarrow> carg list \<Rightarrow> 'a console_state_scheme \<Rightarrow> 'a console_state_scheme outcome" where
  "cprintf_loop [] args s = Ret s"
| "cprintf_loop [c] args s = (if c = CHR ''%'' then Ret s else consputc (of_char c) s)"
| "cprintf_loop (c # d # fmt) args s =
     (if c \<noteq> CHR ''%'' then obind (consputc (of_char c) s) (cprintf_loop (d # fmt) args)
      else if d = CHR ''d'' then
        (case args of AWord w # args \<Rightarrow> obind (printint w 10 True s) (cprintf_loop fmt args) | _ \<Rightarrow> Panic ''cprintf argument'')
      else if d = CHR ''x'' \<or> d = CHR ''p'' then
        (case args of AWord w # args \<Rightarrow> obind (printint w 16 False s) (cprintf_loop fmt args) | _ \<Rightarrow> Panic ''cprintf argument'')
      else if d = CHR ''s'' then
        (case args of
           AStr t # args \<Rightarrow> obind (puts (case t of None \<Rightarrow> ''(null)'' | Some t \<Rightarrow> t) s) (cprintf_loop fmt args)
         | _ \<Rightarrow> Panic ''cprintf argument'')
      else if d = CHR ''%'' then obind (consputc (of_char d) s) (cprintf_loop fmt args)
      else obind (puts [c, d] s) (cprintf_loop fmt args))"

definition cprintf :: "string \<Rightarrow> carg list \<Rightarrow> 'a console_state_scheme \<Rightarrow> 'a console_state_scheme outcome" where
  "cprintf fmt args s = cprintf_loop fmt args s"

abbreviation (input) TAB :: char where "TAB \<equiv> CHR 0x09"
abbreviation (input) NL :: char where "NL \<equiv> CHR 0x0A"

definition procdump_one :: "nat \<Rightarrow> 'a console_state_scheme \<Rightarrow> 'a console_state_scheme outcome" where
  "procdump_one i s =
     (let p = procs s ! i in
      if pstate p = UNUSED then Ret s
      else
        obind (cprintf [CHR ''%'', CHR ''d'', TAB, CHR ''%'', CHR ''s'', TAB, CHR ''%'', CHR ''s'', TAB]
                 [AWord (pid p), AStr (Some (pname p)), AStr (Some (state_name (pstate p)))] s) (\<lambda>s.
        obind (if pstate p = SLEEPING then
                 let pc = getcallerpcs (mem s) (ld32 (mem s) (pcontext p + 12) + 8) in
                 ofor (\<lambda>w. cprintf '' %p'' [AWord w]) (takeWhile (\<lambda>w. w \<noteq> 0) pc) s
               else Ret s) (\<lambda>s.
        cprintf [NL] [] s)))"

definition procdump :: "'a console_state_scheme \<Rightarrow> 'a console_state_scheme outcome" where
  "procdump s = ofor procdump_one [0..<length (procs s)] s"

section \<open>Input\<close>

abbreviation (input) INPUT_BUF :: nat where "INPUT_BUF \<equiv> 128"

definition upd_input :: "(input_buf \<Rightarrow> input_buf) \<Rightarrow> 'a console_state_scheme \<Rightarrow> 'a console_state_scheme" where
  "upd_input f s = s\<lparr>input := f (input s)\<rparr>"

text \<open>The loop that kills a line; it ends at the latest when the edit index meets the write index.\<close>

fun kill_line :: "nat \<Rightarrow> 'a console_state_scheme \<Rightarrow> 'a console_state_scheme outcome" where
  "kill_line 0 s = Ret s"
| "kill_line (Suc k) s =
     (if ie (input s) \<noteq> iw (input s) \<and> ibuf (input s) ! (unat (ie (input s) - 1) mod INPUT_BUF) \<noteq> 10 then
        obind (consputc BACKSPACE (upd_input (\<lambda>b. b\<lparr>ie := ie b - 1\<rparr>) s)) (kill_line k)
      else Ret s)"

definition input_put :: "u8 \<Rightarrow> input_buf \<Rightarrow> input_buf" where
  "input_put c b = b\<lparr>ibuf := (ibuf b)[unat (ie b) mod INPUT_BUF := c], ie := ie b + 1\<rparr>"

text \<open>One character of \<open>consoleintr\<close>; the flag is \<open>doprocdump\<close>.\<close>

definition consoleintr_char :: "u8 \<Rightarrow> bool \<times> 'a console_state_scheme \<Rightarrow> (bool \<times> 'a console_state_scheme) outcome" where
  "consoleintr_char c = (\<lambda>(dump, s).
     if c = 16 then Ret (True, s)
     else if c = 21 then obind (kill_line (unat (ie (input s) - iw (input s))) s) (\<lambda>s. Ret (dump, s))
     else if c = 8 \<or> c = 0x7f then
       if ie (input s) \<noteq> iw (input s) then
         obind (consputc BACKSPACE (upd_input (\<lambda>b. b\<lparr>ie := ie b - 1\<rparr>) s)) (\<lambda>s. Ret (dump, s))
       else Ret (dump, s)
     else if c \<noteq> 0 \<and> unat (ie (input s) - ir (input s)) < INPUT_BUF then
       let c = (if c = 13 then 10 else c) in
       obind (consputc (uint c) (upd_input (input_put c) s)) (\<lambda>s.
         let s = (if c = 10 \<or> c = 4 \<or> ie (input s) = ir (input s) + of_nat INPUT_BUF
                  then wakeup ChInput (upd_input (\<lambda>b. b\<lparr>iw := ie b\<rparr>) s) else s)
         in Ret (dump, s))
     else Ret (dump, s))"

definition consoleintr :: "u8 list \<Rightarrow> 'a console_state_scheme \<Rightarrow> 'a console_state_scheme outcome" where
  "consoleintr codes s =
     obind (ofor consoleintr_char codes (False, s)) (\<lambda>(dump, s). if dump then procdump s else Ret s)"

text \<open>
  The loop of \<open>consoleread\<close> for \<open>n\<close> more bytes; \<open>fresh\<close> says that none was read yet.
  \<open>None\<close> is the return of a killed process.
\<close>

fun consoleread_loop :: "nat \<Rightarrow> bool \<Rightarrow> 'a console_state_scheme \<Rightarrow> (u8 list option \<times> 'a console_state_scheme) outcome" where
  "consoleread_loop 0 fresh s = Ret (Some [], s)"
| "consoleread_loop (Suc n) fresh s =
     (if ir (input s) = iw (input s) then
        (case curproc s of
           None \<Rightarrow> Panic ''null process''
         | Some p \<Rightarrow> if killed (procs s ! p) then Ret (None, s) else Blocked ChInput)
      else
        let c = ibuf (input s) ! (unat (ir (input s)) mod INPUT_BUF);
            t = upd_input (\<lambda>b. b\<lparr>ir := ir b + 1\<rparr>) s in
        if c = 4 then Ret (Some [], if fresh then t else s)
        else if c = 10 then Ret (Some [c], t)
        else obind (consoleread_loop n False t) (\<lambda>(r, s). Ret (map_option (Cons c) r, s)))"

definition consoleread :: "nat \<Rightarrow> u32 \<Rightarrow> 'a console_state_scheme \<Rightarrow> ((int \<times> u8 list) \<times> 'a console_state_scheme) outcome" where
  "consoleread ip n s =
     obind (iunlock ip s) (\<lambda>s.
     obind (consoleread_loop (nat (sint n)) True s) (\<lambda>(r, s).
     obind (ilock ip s) (\<lambda>s.
       Ret (case r of None \<Rightarrow> (-1, []) | Some bs \<Rightarrow> (int (length bs), bs), s))))"

definition consolewrite :: "nat \<Rightarrow> u8 list \<Rightarrow> 'a console_state_scheme \<Rightarrow> (int \<times> 'a console_state_scheme) outcome" where
  "consolewrite ip bs s =
     obind (iunlock ip s) (\<lambda>s.
     obind (ofor (\<lambda>b. consputc (uint b)) bs s) (\<lambda>s.
     obind (ilock ip s) (\<lambda>s. Ret (int (length bs), s))))"

text \<open>The device switch as \<open>consoleinit\<close> fills it; \<open>CONSOLE\<close> is 1.\<close>

definition console_devsw :: "nat \<Rightarrow> 'a console_state_scheme devsw" where
  "console_devsw major =
     (if major = 1 then \<lparr>dev_read = Some consoleread, dev_write = Some consolewrite\<rparr> else \<lparr>dev_read = None, dev_write = None\<rparr>)"

end
