(* ===== verification/Process.thy ===== *)
theory Process
  imports Console
begin

text \<open>
  The rest of \<^verbatim>\<open>proc.c\<close>: creating and ending processes, with their open files and
  their current directory; and the accesses of the kernel to user memory, through the page
  table of the current process. A kernel access to an address that is not mapped is a
  page fault in the kernel, on which \<open>trap\<close> panics.
\<close>

section \<open>State\<close>

record kern_state = console_state +
  first :: bool
  ticks :: u32

abbreviation cur :: "'a kern_state_scheme \<Rightarrow> proc" where
  "cur s \<equiv> procs s ! the (curproc s)"

text \<open>Fields of the trap frame.\<close>

abbreviation (input) TF_EAX :: u32 where "TF_EAX \<equiv> 28"
abbreviation (input) TF_ES :: u32 where "TF_ES \<equiv> 40"
abbreviation (input) TF_DS :: u32 where "TF_DS \<equiv> 44"
abbreviation (input) TF_EIP :: u32 where "TF_EIP \<equiv> 56"
abbreviation (input) TF_CS :: u32 where "TF_CS \<equiv> 60"
abbreviation (input) TF_EFLAGS :: u32 where "TF_EFLAGS \<equiv> 64"
abbreviation (input) TF_ESP :: u32 where "TF_ESP \<equiv> 68"
abbreviation (input) TF_SS :: u32 where "TF_SS \<equiv> 72"

definition st_field :: "u32 \<Rightarrow> u32 \<Rightarrow> 'a kern_state_scheme \<Rightarrow> 'a kern_state_scheme" where
  "st_field a w s = s\<lparr>mem := st32 (mem s) a w\<rparr>"

section \<open>User memory\<close>

definition uload :: "u32 \<Rightarrow> 'a kern_state_scheme \<Rightarrow> u8 outcome" where
  "uload va s =
     (case curproc s of
        None \<Rightarrow> Panic ''trap''
      | Some c \<Rightarrow>
          if present (mem s) (pgdir (procs s ! c)) va then Ret (mem s (uaddr (mem s) (pgdir (procs s ! c)) va))
          else Panic ''trap'')"

fun uload_bytes :: "nat \<Rightarrow> u32 \<Rightarrow> 'a kern_state_scheme \<Rightarrow> u8 list outcome" where
  "uload_bytes 0 va s = Ret []"
| "uload_bytes (Suc n) va s = obind (uload va s) (\<lambda>b. obind (uload_bytes n (va + 1) s) (\<lambda>bs. Ret (b # bs)))"

text \<open>A store also needs a writable page: the kernel runs with write protection on.\<close>

definition ustore :: "u32 \<Rightarrow> u8 \<Rightarrow> 'a kern_state_scheme \<Rightarrow> 'a kern_state_scheme outcome" where
  "ustore va b s =
     (case curproc s of
        None \<Rightarrow> Panic ''trap''
      | Some c \<Rightarrow>
          let d = pgdir (procs s ! c) in
          if present (mem s) d va \<and> lookup (mem s) d va AND PTE_W \<noteq> 0 then Ret (s\<lparr>mem := (mem s)(uaddr (mem s) d va := b)\<rparr>)
          else Panic ''trap'')"

fun ustore_bytes :: "u32 \<Rightarrow> u8 list \<Rightarrow> 'a kern_state_scheme \<Rightarrow> 'a kern_state_scheme outcome" where
  "ustore_bytes va [] s = Ret s"
| "ustore_bytes va (b # bs) s = obind (ustore va b s) (ustore_bytes (va + 1) bs)"

section \<open>Processes\<close>

definition dup_file :: "nat \<Rightarrow> nat \<Rightarrow> nat \<Rightarrow> 'a kern_state_scheme \<Rightarrow> 'a kern_state_scheme outcome" where
  "dup_file c np i s =
     (case ofile (procs s ! c) ! i of
        None \<Rightarrow> Ret s
      | Some f \<Rightarrow> obind (filedup f s) (\<lambda>(f, s). Ret (upd_proc np (\<lambda>p. p\<lparr>ofile := (ofile p)[i := Some f]\<rparr>) s)))"

definition fork :: "'a kern_state_scheme \<Rightarrow> (int \<times> 'a kern_state_scheme) outcome" where
  "fork s =
     (case curproc s of
        None \<Rightarrow> Panic ''null process''
      | Some c \<Rightarrow>
          (case allocproc s of
             (None, s) \<Rightarrow> Ret (-1, s)
           | (Some np, s) \<Rightarrow>
               obind (copyuvm (pgdir (procs s ! c)) (sz (procs s ! c)) s) (\<lambda>(d, s).
               let s = upd_proc np (\<lambda>p. p\<lparr>pgdir := d\<rparr>) s in
               if d = 0 then
                 obind (kfree (kstack (procs s ! np)) s) (\<lambda>s. Ret (-1, upd_proc np (\<lambda>p. p\<lparr>kstack := 0, pstate := UNUSED\<rparr>) s))
               else
                 let s = upd_proc np (\<lambda>p. p\<lparr>sz := sz (procs s ! c), parent := Some c\<rparr>) s;
                     s = s\<lparr>mem := memmove (mem s) (tf (procs s ! np)) (tf (procs s ! c)) TFSIZE\<rparr>;
                     s = st_field (tf (procs s ! np) + TF_EAX) 0 s in
                 obind (ofor (dup_file c np) [0..<NOFILE] s) (\<lambda>s.
                 case cwd (procs s ! c) of
                   None \<Rightarrow> Panic ''null inode''
                 | Some d \<Rightarrow>
                     let (d, s) = idup d s;
                         s = upd_proc np (\<lambda>p. p\<lparr>cwd := Some d, pname := take 15 (pname (procs s ! c))\<rparr>) s;
                         n = pid (procs s ! np)
                     in Ret (sint n, upd_proc np (\<lambda>p. p\<lparr>pstate := RUNNABLE\<rparr>) s)))))"

definition close_file :: "nat \<Rightarrow> nat \<Rightarrow> 'a kern_state_scheme \<Rightarrow> 'a kern_state_scheme outcome" where
  "close_file c i s =
     (case ofile (procs s ! c) ! i of
        None \<Rightarrow> Ret s
      | Some f \<Rightarrow> obind (fileclose f s) (\<lambda>s. Ret (upd_proc c (\<lambda>p. p\<lparr>ofile := (ofile p)[i := None]\<rparr>) s)))"

text \<open>\<open>exit\<close> ends in \<open>sched\<close>, from which the process does not return.\<close>

definition exit :: "'a kern_state_scheme \<Rightarrow> 'a kern_state_scheme outcome" where
  "exit s =
     (case curproc s of
        None \<Rightarrow> Panic ''null process''
      | Some c \<Rightarrow>
          if Some c = initproc s then Panic ''init exiting''
          else
            obind (ofor (close_file c) [0..<NOFILE] s) (\<lambda>s.
            obind (begin_op_now s) (\<lambda>s.
            obind (case cwd (procs s ! c) of None \<Rightarrow> Panic ''null inode'' | Some i \<Rightarrow> iput i s) (\<lambda>s.
            obind (end_op s) (\<lambda>s.
            exit_table (upd_proc c (\<lambda>p. p\<lparr>cwd := None\<rparr>) s))))))"

text \<open>\<open>code\<close> and \<open>len\<close> are the place and the size of the linked \<^verbatim>\<open>initcode\<close>.\<close>

definition userinit :: "u32 \<Rightarrow> u32 \<Rightarrow> 'a kern_state_scheme \<Rightarrow> 'a kern_state_scheme outcome" where
  "userinit code len s =
     (case allocproc s of
        (None, s) \<Rightarrow> Panic ''null process''
      | (Some i, s) \<Rightarrow>
          let s = s\<lparr>initproc := Some i\<rparr> in
          obind (setupkvm s) (\<lambda>(d, s).
          let s = upd_proc i (\<lambda>p. p\<lparr>pgdir := d\<rparr>) s in
          if d = 0 then Panic ''userinit: out of memory?''
          else
            obind (inituvm d code len s) (\<lambda>s.
            let s = upd_proc i (\<lambda>p. p\<lparr>sz := PGSIZE\<rparr>) s;
                t = tf (procs s ! i);
                s = s\<lparr>mem := memset (mem s) t 0 TFSIZE\<rparr>;
                s = st_field (t + TF_CS) 0x1B s;
                s = st_field (t + TF_DS) 0x23 s;
                s = st_field (t + TF_ES) 0x23 s;
                s = st_field (t + TF_SS) 0x23 s;
                s = st_field (t + TF_EFLAGS) 0x200 s;
                s = st_field (t + TF_ESP) PGSIZE s;
                s = st_field (t + TF_EIP) 0 s;
                s = upd_proc i (\<lambda>p. p\<lparr>pname := ''initcode''\<rparr>) s in
            obind (namei console_devsw [slash] s) (\<lambda>(r, s).
              Ret (upd_proc i (\<lambda>p. p\<lparr>cwd := r, pstate := RUNNABLE\<rparr>) s)))))"

definition forkret :: "'a kern_state_scheme \<Rightarrow> 'a kern_state_scheme outcome" where
  "forkret s =
     (if first s then obind (iinit ROOTDEV (s\<lparr>first := False\<rparr>)) (initlog ROOTDEV) else Ret s)"

end
