(* ===== verification/Exec.thy ===== *)
theory Exec
  imports Process
begin

text \<open>
  The arguments of system calls, \<^verbatim>\<open>syscall.c\<close>, and the loading of programs, \<^verbatim>\<open>exec.c\<close>
  with \<open>loaduvm\<close> of \<^verbatim>\<open>vm.c\<close>. \<open>None\<close> stands for the error return of the functions that
  fetch an argument. Strings are fetched as lists of bytes.
\<close>

section \<open>System call arguments\<close>

definition fetchint :: "u32 \<Rightarrow> 'a kern_state_scheme \<Rightarrow> u32 option outcome" where
  "fetchint addr s =
     (case curproc s of
        None \<Rightarrow> Panic ''null process''
      | Some c \<Rightarrow>
          if addr \<ge> sz (procs s ! c) \<or> addr + 4 > sz (procs s ! c) then Ret None
          else obind (uload_bytes 4 addr s) (\<lambda>bs. Ret (Some (get32 bs 0))))"

fun fetchstr_loop :: "nat \<Rightarrow> u32 \<Rightarrow> 'a kern_state_scheme \<Rightarrow> u8 list option outcome" where
  "fetchstr_loop 0 a s = Ret None"
| "fetchstr_loop (Suc k) a s =
     obind (uload a s) (\<lambda>b. if b = 0 then Ret (Some []) else obind (fetchstr_loop k (a + 1) s) (\<lambda>r. Ret (map_option (Cons b) r)))"

definition fetchstr :: "u32 \<Rightarrow> 'a kern_state_scheme \<Rightarrow> u8 list option outcome" where
  "fetchstr addr s =
     (case curproc s of
        None \<Rightarrow> Panic ''null process''
      | Some c \<Rightarrow> if addr \<ge> sz (procs s ! c) then Ret None else fetchstr_loop (unat (sz (procs s ! c) - addr)) addr s)"

definition argint :: "nat \<Rightarrow> 'a kern_state_scheme \<Rightarrow> u32 option outcome" where
  "argint n s =
     (case curproc s of
        None \<Rightarrow> Panic ''null process''
      | Some c \<Rightarrow> fetchint (ld32 (mem s) (tf (procs s ! c) + TF_ESP) + 4 + 4 * of_nat n) s)"

definition argptr :: "nat \<Rightarrow> int \<Rightarrow> 'a kern_state_scheme \<Rightarrow> u32 option outcome" where
  "argptr n len s =
     obind (argint n s) (\<lambda>r. case r of
       None \<Rightarrow> Ret None
     | Some i \<Rightarrow>
         if len < 0 \<or> i \<ge> sz (cur s) \<or> i + of_int len > sz (cur s) then Ret None else Ret (Some i))"

definition argstr :: "nat \<Rightarrow> 'a kern_state_scheme \<Rightarrow> u8 list option outcome" where
  "argstr n s = obind (argint n s) (\<lambda>r. case r of None \<Rightarrow> Ret None | Some a \<Rightarrow> fetchstr a s)"

section \<open>Loading a program\<close>

fun st_bytes :: "memory \<Rightarrow> u32 \<Rightarrow> u8 list \<Rightarrow> memory" where
  "st_bytes m a [] = m"
| "st_bytes m a (b # bs) = st_bytes (m(a := b)) (a + 1) bs"

fun loaduvm_loop :: "u32 \<Rightarrow> u32 \<Rightarrow> nat \<Rightarrow> u32 \<Rightarrow> u32 \<Rightarrow> u32 list \<Rightarrow> 'a kern_state_scheme \<Rightarrow> (int \<times> 'a kern_state_scheme) outcome" where
  "loaduvm_loop d addr ip off len [] s = Ret (0, s)"
| "loaduvm_loop d addr ip off len (i # is) s =
     (let pte = fst (walkpgdir d (addr + i) False s) in
      if pte = 0 then Panic ''loaduvm: address should exist''
      else
        let pa = PTE_ADDR (ld32 (mem s) pte); n = (if len - i < PGSIZE then len - i else PGSIZE) in
        obind (readi console_devsw ip (off + i) n s) (\<lambda>((r, bs), s).
        let s = s\<lparr>mem := st_bytes (mem s) (P2V pa) bs\<rparr> in
        if (of_int r :: u32) \<noteq> n then Ret (-1, s) else loaduvm_loop d addr ip off len is s))"

definition loaduvm :: "u32 \<Rightarrow> u32 \<Rightarrow> nat \<Rightarrow> u32 \<Rightarrow> u32 \<Rightarrow> 'a kern_state_scheme \<Rightarrow> (int \<times> 'a kern_state_scheme) outcome" where
  "loaduvm d addr ip off len s =
     (if unat addr mod 4096 \<noteq> 0 then Panic ''loaduvm: addr must be page aligned''
      else loaduvm_loop d addr ip off len (map (\<lambda>k. of_nat (k * 4096)) [0..<(unat len + 4095) div 4096]) s)"

text \<open>\<open>copyout\<close> from a buffer given by its bytes.\<close>

function copyout_bytes :: "u32 \<Rightarrow> u32 \<Rightarrow> u8 list \<Rightarrow> 'a kmem_state_scheme \<Rightarrow> int \<times> 'a kmem_state_scheme" where
  "copyout_bytes d va bs s =
     (if bs = [] then (0, s)
      else
        let va0 = PGROUNDDOWN va; pa0 = uva2ka d va0 s in
        if pa0 = 0 then (-1, s)
        else let n = min (4096 - unat (va - va0)) (length bs) in
          copyout_bytes d (va0 + PGSIZE) (drop n bs) (s\<lparr>mem := st_bytes (mem s) (pa0 + (va - va0)) (take n bs)\<rparr>))"
  by pat_completeness auto
termination
proof (relation "measure (\<lambda>(_, _, bs, _). length bs)", goal_cases)
  case (2 d va bs s va0 pa0 n)
  have "unat (va - va0) < 4096" using 2(2) unat_page_rest [of va] by simp
  then show ?case using 2(1,5) by (cases bs) auto
qed simp

declare copyout_bytes.simps [simp del]

definition word_bytes :: "u32 \<Rightarrow> u8 list" where
  "word_bytes w = [byte_of 0 w, byte_of 1 w, byte_of 2 w, byte_of 3 w]"

record elfhdr =
  e_magic :: u32
  e_entry :: u32
  e_phoff :: u32
  e_phnum :: u16

record proghdr =
  p_type :: u32
  p_off :: u32
  p_vaddr :: u32
  p_filesz :: u32
  p_memsz :: u32

definition get_elfhdr :: "u8 list \<Rightarrow> elfhdr" where
  "get_elfhdr bs = \<lparr>e_magic = get32 bs 0, e_entry = get32 bs 24, e_phoff = get32 bs 28, e_phnum = get16 bs 44\<rparr>"

definition get_proghdr :: "u8 list \<Rightarrow> proghdr" where
  "get_proghdr bs = \<lparr>p_type = get32 bs 0, p_off = get32 bs 4, p_vaddr = get32 bs 8, p_filesz = get32 bs 16, p_memsz = get32 bs 20\<rparr>"

text \<open>The loop over the program headers at the given offsets; \<open>None\<close> is the jump to \<open>bad\<close>.\<close>

fun exec_load :: "nat \<Rightarrow> u32 \<Rightarrow> u32 list \<Rightarrow> u32 \<Rightarrow> 'a kern_state_scheme \<Rightarrow> (u32 option \<times> 'a kern_state_scheme) outcome" where
  "exec_load ip d [] len s = Ret (Some len, s)"
| "exec_load ip d (off # offs) len s =
     obind (readi console_devsw ip off 32 s) (\<lambda>((r, bs), s).
       if r \<noteq> 32 then Ret (None, s)
       else
         let ph = get_proghdr bs in
         if p_type ph \<noteq> 1 then exec_load ip d offs len s
         else if p_memsz ph < p_filesz ph then Ret (None, s)
         else if p_vaddr ph + p_memsz ph < p_vaddr ph then Ret (None, s)
         else
           obind (allocuvm d len (p_vaddr ph + p_memsz ph) s) (\<lambda>(len, s).
             if len = 0 then Ret (None, s)
             else if unat (p_vaddr ph) mod 4096 \<noteq> 0 then Ret (None, s)
             else
               obind (loaduvm d (p_vaddr ph) ip (p_off ph) (p_filesz ph) s) (\<lambda>(r, s).
                 if r < 0 then Ret (None, s) else exec_load ip d offs len s)))"

text \<open>The loop that pushes the argument strings; it returns the stack pointer and their addresses.\<close>

fun push_args :: "u32 \<Rightarrow> nat \<Rightarrow> u8 list list \<Rightarrow> u32 \<Rightarrow> 'a kern_state_scheme \<Rightarrow> (u32 \<times> u32 list) option \<times> 'a kern_state_scheme" where
  "push_args d argc [] sp s = (Some (sp, []), s)"
| "push_args d argc (a # as) sp s =
     (if argc \<ge> MAXARG then (None, s)
      else
        let sp = (sp - (of_nat (length a) + 1)) AND NOT 3;
            (r, s) = copyout_bytes d sp (a @ [0]) s in
        if r < 0 then (None, s)
        else case push_args d (argc + 1) as sp s of
            (None, s) \<Rightarrow> (None, s)
          | (Some (sp', us), s) \<Rightarrow> (Some (sp', sp # us), s))"

definition exec_bad :: "u32 \<Rightarrow> nat option \<Rightarrow> 'a kern_state_scheme \<Rightarrow> (int \<times> 'a kern_state_scheme) outcome" where
  "exec_bad d ip s =
     obind (if d \<noteq> 0 then freevm d s else Ret s) (\<lambda>s.
     obind (case ip of Some i \<Rightarrow> obind (iunlockput i s) end_op | None \<Rightarrow> Ret s) (\<lambda>s. Ret (-1, s)))"

text \<open>The part of \<open>exec\<close> after the file was read: the stack, the arguments, and the switch to the new image.\<close>

definition exec_image :: "u8 list \<Rightarrow> u8 list list \<Rightarrow> u32 \<Rightarrow> u32 \<Rightarrow> u32 \<Rightarrow> 'a kern_state_scheme \<Rightarrow> (int \<times> 'a kern_state_scheme) outcome" where
  "exec_image path argv d len entry s =
     (case curproc s of
        None \<Rightarrow> Panic ''null process''
      | Some c \<Rightarrow>
          let len = PGROUNDUP len in
          obind (allocuvm d len (len + 2 * PGSIZE) s) (\<lambda>(len, s).
          if len = 0 then exec_bad d None s
          else
            obind (clearpteu d (len - 2 * PGSIZE) s) (\<lambda>s.
            case push_args d 0 argv len s of
              (None, s) \<Rightarrow> exec_bad d None s
            | (Some (sp, us), s) \<Rightarrow>
                let argc = of_nat (length us);
                    ustack = [0xffffffff, argc, sp - (argc + 1) * 4] @ us @ [0];
                    sp = sp - (3 + argc + 1) * 4;
                    (r, s) = copyout_bytes d sp (concat (map word_bytes ustack)) s in
                if r < 0 then exec_bad d None s
                else
                  let name = take 15 (map (\<lambda>b. char_of (unat b)) (rev (takeWhile (\<lambda>b. b \<noteq> slash) (rev path))));
                      s = upd_proc c (\<lambda>p. p\<lparr>pname := name\<rparr>) s;
                      old = pgdir (procs s ! c);
                      s = upd_proc c (\<lambda>p. p\<lparr>pgdir := d, sz := len\<rparr>) s;
                      s = st_field (tf (procs s ! c) + TF_EIP) entry s;
                      s = st_field (tf (procs s ! c) + TF_ESP) sp s in
                  obind (switchuvm c s) (\<lambda>s.
                  obind (freevm old s) (\<lambda>s. Ret (0, s))))))"

definition exec :: "u8 list \<Rightarrow> u8 list list \<Rightarrow> 'a kern_state_scheme \<Rightarrow> (int \<times> 'a kern_state_scheme) outcome" where
  "exec path argv s =
     obind (begin_op_now s) (\<lambda>s.
     obind (namei console_devsw path s) (\<lambda>(r, s).
     case r of
       None \<Rightarrow> obind (end_op s) (\<lambda>s. obind (cprintf (''exec: fail'' @ [NL]) [] s) (\<lambda>s. Ret (-1, s)))
     | Some ip \<Rightarrow>
         obind (ilock ip s) (\<lambda>s.
         obind (readi console_devsw ip 0 52 s) (\<lambda>((r, bs), s).
         let elf = get_elfhdr bs in
         if r \<noteq> 52 then exec_bad 0 (Some ip) s
         else if e_magic elf \<noteq> 0x464C457F then exec_bad 0 (Some ip) s
         else
           obind (setupkvm s) (\<lambda>(d, s).
           if d = 0 then exec_bad 0 (Some ip) s
           else
             obind (exec_load ip d (map (\<lambda>i. e_phoff elf + of_nat (32 * i)) [0..<unat (e_phnum elf)]) 0 s) (\<lambda>(r, s).
             case r of
               None \<Rightarrow> exec_bad d (Some ip) s
             | Some len \<Rightarrow>
                 obind (iunlockput ip s) (\<lambda>s.
                 obind (end_op s) (\<lambda>s. exec_image path argv d len (e_entry elf) s))))))))"

end
