(* ===== verification/Sysfile.thy ===== *)
theory Sysfile
  imports Exec
begin

text \<open>
  The system calls on files, \<^verbatim>\<open>sysfile.c\<close>. Each takes its arguments from the stack of the
  current process and returns the value for \<open>%eax\<close>.
\<close>

section \<open>Descriptors\<close>

text \<open>Use an argument, or return \<open>-1\<close>.\<close>

definition with_arg :: "'b option outcome \<Rightarrow> 's \<Rightarrow> ('b \<Rightarrow> (int \<times> 's) outcome) \<Rightarrow> (int \<times> 's) outcome" where
  "with_arg m s k = obind m (\<lambda>r. case r of None \<Rightarrow> Ret (-1, s) | Some x \<Rightarrow> k x)"

text \<open>End the transaction and return a value.\<close>

definition end_with :: "int \<Rightarrow> 'a log_state_scheme \<Rightarrow> (int \<times> 'a log_state_scheme) outcome" where
  "end_with r s = obind (end_op s) (\<lambda>s. Ret (r, s))"

definition argfd :: "nat \<Rightarrow> 'a kern_state_scheme \<Rightarrow> (nat \<times> nat) option outcome" where
  "argfd n s =
     obind (argint n s) (\<lambda>r. case r of
       None \<Rightarrow> Ret None
     | Some w \<Rightarrow>
         let fd = sint w in
         if fd < 0 \<or> fd \<ge> int NOFILE then Ret None
         else case ofile (cur s) ! nat fd of None \<Rightarrow> Ret None | Some f \<Rightarrow> Ret (Some (nat fd, f)))"

definition fdalloc :: "nat \<Rightarrow> 'a kern_state_scheme \<Rightarrow> (nat option \<times> 'a kern_state_scheme) outcome" where
  "fdalloc f s =
     (case curproc s of
        None \<Rightarrow> Panic ''null process''
      | Some c \<Rightarrow>
          (case scan (\<lambda>x. x = None) (ofile (procs s ! c)) of
             Some fd \<Rightarrow> Ret (Some fd, upd_proc c (\<lambda>p. p\<lparr>ofile := (ofile p)[fd := Some f]\<rparr>) s)
           | None \<Rightarrow> Ret (None, s)))"

definition sys_dup :: "'a kern_state_scheme \<Rightarrow> (int \<times> 'a kern_state_scheme) outcome" where
  "sys_dup s =
     with_arg (argfd 0 s) s (\<lambda>(_, f).
     obind (fdalloc f s) (\<lambda>(r, s).
     case r of
       None \<Rightarrow> Ret (-1, s)
     | Some fd \<Rightarrow> obind (filedup f s) (\<lambda>(_, s). Ret (int fd, s))))"

definition sys_read :: "'a kern_state_scheme \<Rightarrow> (int \<times> 'a kern_state_scheme) outcome" where
  "sys_read s =
     with_arg (argfd 0 s) s (\<lambda>(_, f).
     with_arg (argint 2 s) s (\<lambda>n.
     with_arg (argptr 1 (sint n) s) s (\<lambda>p.
     obind (fileread console_devsw f (sint n) s) (\<lambda>((r, bs), s).
     obind (ustore_bytes p bs s) (\<lambda>s. Ret (r, s))))))"

definition sys_write :: "'a kern_state_scheme \<Rightarrow> (int \<times> 'a kern_state_scheme) outcome" where
  "sys_write s =
     with_arg (argfd 0 s) s (\<lambda>(_, f).
     with_arg (argint 2 s) s (\<lambda>n.
     with_arg (argptr 1 (sint n) s) s (\<lambda>p.
     obind (uload_bytes (nat (sint n)) p s) (\<lambda>bs.
     filewrite console_devsw f bs s))))"

definition sys_close :: "'a kern_state_scheme \<Rightarrow> (int \<times> 'a kern_state_scheme) outcome" where
  "sys_close s =
     with_arg (argfd 0 s) s (\<lambda>(fd, f).
     let s = upd_proc (the (curproc s)) (\<lambda>p. p\<lparr>ofile := (ofile p)[fd := None]\<rparr>) s in
     obind (fileclose f s) (\<lambda>s. Ret (0, s)))"

text \<open>\<open>stati\<close> through a user pointer: the fields, without the padding between them.\<close>

definition store_stat :: "u32 \<Rightarrow> stat \<Rightarrow> 'a kern_state_scheme \<Rightarrow> 'a kern_state_scheme outcome" where
  "store_stat a st s =
     obind (ustore_bytes (a + 4) (word_bytes (st_dev st)) s) (\<lambda>s.
     obind (ustore_bytes (a + 8) (word_bytes (st_ino st)) s) (\<lambda>s.
     obind (ustore_bytes a [byte_of 0 (st_type st), byte_of 1 (st_type st)] s) (\<lambda>s.
     obind (ustore_bytes (a + 12) [byte_of 0 (st_nlink st), byte_of 1 (st_nlink st)] s) (\<lambda>s.
     ustore_bytes (a + 16) (word_bytes (st_size st)) s))))"

definition sys_fstat :: "'a kern_state_scheme \<Rightarrow> (int \<times> 'a kern_state_scheme) outcome" where
  "sys_fstat s =
     with_arg (argfd 0 s) s (\<lambda>(_, f).
     with_arg (argptr 1 20 s) s (\<lambda>a.
     obind (filestat f s) (\<lambda>((r, st), s).
     case st of None \<Rightarrow> Ret (r, s) | Some st \<Rightarrow> obind (store_stat a st s) (\<lambda>s. Ret (r, s)))))"

section \<open>Links\<close>

definition link_bad :: "nat \<Rightarrow> 'a kern_state_scheme \<Rightarrow> (int \<times> 'a kern_state_scheme) outcome" where
  "link_bad ip s =
     obind (ilock ip s) (\<lambda>s.
     obind (iupdate ip (upd_inode ip (\<lambda>i. i\<lparr>inlink := inlink i - 1\<rparr>) s)) (\<lambda>s.
     obind (iunlockput ip s) (end_with (-1))))"

definition sys_link :: "'a kern_state_scheme \<Rightarrow> (int \<times> 'a kern_state_scheme) outcome" where
  "sys_link s =
     with_arg (argstr 0 s) s (\<lambda>old.
     with_arg (argstr 1 s) s (\<lambda>new.
     obind (begin_op_now s) (\<lambda>s.
     obind (namei console_devsw old s) (\<lambda>(r, s).
     case r of
       None \<Rightarrow> end_with (-1) s
     | Some ip \<Rightarrow>
         obind (ilock ip s) (\<lambda>s.
         if itype (inodes s ! ip) = T_DIR then obind (iunlockput ip s) (end_with (-1))
         else
           obind (iupdate ip (upd_inode ip (\<lambda>i. i\<lparr>inlink := inlink i + 1\<rparr>) s)) (\<lambda>s.
           obind (iunlock ip s) (\<lambda>s.
           obind (nameiparent console_devsw new (replicate DIRSIZ 0) s) (\<lambda>(r, s).
           case r of
             None \<Rightarrow> link_bad ip s
           | Some (dp, name) \<Rightarrow>
               obind (ilock dp s) (\<lambda>s.
               if idev (inodes s ! dp) \<noteq> idev (inodes s ! ip) then obind (iunlockput dp s) (link_bad ip)
               else
                 obind (dirlink console_devsw dp name (inum (inodes s ! ip)) s) (\<lambda>(r, s).
                 if r < 0 then obind (iunlockput dp s) (link_bad ip)
                 else
                   obind (iunlockput dp s) (\<lambda>s.
                   obind (iput ip s) (end_with 0))))))))))))"

fun isdirempty_loop :: "nat \<Rightarrow> nat list \<Rightarrow> 'a kern_state_scheme \<Rightarrow> (bool \<times> 'a kern_state_scheme) outcome" where
  "isdirempty_loop dp [] s = Ret (True, s)"
| "isdirempty_loop dp (off # offs) s =
     obind (readi console_devsw dp (of_nat off) (of_nat DESIZE) s) (\<lambda>((r, bs), s).
       if r \<noteq> int DESIZE then Panic ''isdirempty: readi''
       else if de_inum (get_dirent bs) \<noteq> 0 then Ret (False, s)
       else isdirempty_loop dp offs s)"

definition isdirempty :: "nat \<Rightarrow> 'a kern_state_scheme \<Rightarrow> (bool \<times> 'a kern_state_scheme) outcome" where
  "isdirempty dp s = isdirempty_loop dp (drop 2 (entry_offsets (isize (inodes s ! dp)))) s"

definition sys_unlink :: "'a kern_state_scheme \<Rightarrow> (int \<times> 'a kern_state_scheme) outcome" where
  "sys_unlink s =
     with_arg (argstr 0 s) s (\<lambda>path.
     obind (begin_op_now s) (\<lambda>s.
     obind (nameiparent console_devsw path (replicate DIRSIZ 0) s) (\<lambda>(r, s).
     case r of
       None \<Rightarrow> end_with (-1) s
     | Some (dp, name) \<Rightarrow>
         let bad = (\<lambda>s. obind (iunlockput dp s) (end_with (-1))) in
         obind (ilock dp s) (\<lambda>s.
         if namecmp name [46] = 0 \<or> namecmp name [46, 46] = 0 then bad s
         else
           obind (dirlookup console_devsw dp name s) (\<lambda>(r, s).
           case r of
             None \<Rightarrow> bad s
           | Some (ip, off) \<Rightarrow>
               obind (ilock ip s) (\<lambda>s.
               if sint (inlink (inodes s ! ip)) < 1 then Panic ''unlink: nlink < 1''
               else
                 obind (if itype (inodes s ! ip) = T_DIR then isdirempty ip s else Ret (True, s)) (\<lambda>(e, s).
                 if \<not> e then obind (iunlockput ip s) bad
                 else
                   obind (writei console_devsw dp (replicate DESIZE 0) (of_nat off) (of_nat DESIZE) s) (\<lambda>(r, s).
                   if r \<noteq> int DESIZE then Panic ''unlink: writei''
                   else
                     obind (if itype (inodes s ! ip) = T_DIR
                            then iupdate dp (upd_inode dp (\<lambda>i. i\<lparr>inlink := inlink i - 1\<rparr>) s) else Ret s) (\<lambda>s.
                     obind (iunlockput dp s) (\<lambda>s.
                     obind (iupdate ip (upd_inode ip (\<lambda>i. i\<lparr>inlink := inlink i - 1\<rparr>) s)) (\<lambda>s.
                     obind (iunlockput ip s) (end_with 0))))))))))))"

section \<open>Creating and opening\<close>

definition create_new :: "nat \<Rightarrow> u8 list \<Rightarrow> u16 \<Rightarrow> u16 \<Rightarrow> u16 \<Rightarrow> 'a kern_state_scheme \<Rightarrow> (nat option \<times> 'a kern_state_scheme) outcome" where
  "create_new dp name ty major minor s =
     obind (ialloc (idev (inodes s ! dp)) ty s) (\<lambda>(ip, s).
     obind (ilock ip s) (\<lambda>s.
     obind (iupdate ip (upd_inode ip (\<lambda>i. i\<lparr>imajor := major, iminor := minor, inlink := 1\<rparr>) s)) (\<lambda>s.
     obind (if ty = T_DIR then
              obind (iupdate dp (upd_inode dp (\<lambda>i. i\<lparr>inlink := inlink i + 1\<rparr>) s)) (\<lambda>s.
              obind (dirlink console_devsw ip [46] (inum (inodes s ! ip)) s) (\<lambda>(r, s).
              if r < 0 then Panic ''create dots''
              else
                obind (dirlink console_devsw ip [46, 46] (inum (inodes s ! dp)) s) (\<lambda>(r, s).
                if r < 0 then Panic ''create dots'' else Ret s)))
            else Ret s) (\<lambda>s.
     obind (dirlink console_devsw dp name (inum (inodes s ! ip)) s) (\<lambda>(r, s).
     if r < 0 then Panic ''create: dirlink''
     else obind (iunlockput dp s) (\<lambda>s. Ret (Some ip, s)))))))"

definition create :: "u8 list \<Rightarrow> u16 \<Rightarrow> u16 \<Rightarrow> u16 \<Rightarrow> 'a kern_state_scheme \<Rightarrow> (nat option \<times> 'a kern_state_scheme) outcome" where
  "create path ty major minor s =
     obind (nameiparent console_devsw path (replicate DIRSIZ 0) s) (\<lambda>(r, s).
     case r of
       None \<Rightarrow> Ret (None, s)
     | Some (dp, name) \<Rightarrow>
         obind (ilock dp s) (\<lambda>s.
         obind (dirlookup console_devsw dp name s) (\<lambda>(r, s).
         case r of
           Some (ip, _) \<Rightarrow>
             obind (iunlockput dp s) (\<lambda>s.
             obind (ilock ip s) (\<lambda>s.
             if ty = T_FILE \<and> itype (inodes s ! ip) = T_FILE then Ret (Some ip, s)
             else obind (iunlockput ip s) (\<lambda>s. Ret (None, s))))
         | None \<Rightarrow> create_new dp name ty major minor s)))"

text \<open>The part of \<open>sys_open\<close> that starts with the locked inode.\<close>

definition open_file :: "nat \<Rightarrow> u32 \<Rightarrow> 'a kern_state_scheme \<Rightarrow> (int \<times> 'a kern_state_scheme) outcome" where
  "open_file ip omode s =
     (case filealloc s of
        (None, s) \<Rightarrow> obind (iunlockput ip s) (end_with (-1))
      | (Some f, s) \<Rightarrow>
          obind (fdalloc f s) (\<lambda>(r, s).
          case r of
            None \<Rightarrow> obind (fileclose f s) (\<lambda>s. obind (iunlockput ip s) (end_with (-1)))
          | Some fd \<Rightarrow>
              obind (iunlock ip s) (\<lambda>s.
              obind (end_op s) (\<lambda>s.
              Ret (int fd, upd_file f (\<lambda>x. x\<lparr>ftype := FD_INODE, fip := ip, foff := 0, freadable := (omode AND 1 = 0),
                fwritable := (omode AND 1 \<noteq> 0 \<or> omode AND 2 \<noteq> 0)\<rparr>) s)))))"

definition sys_open :: "'a kern_state_scheme \<Rightarrow> (int \<times> 'a kern_state_scheme) outcome" where
  "sys_open s =
     with_arg (argstr 0 s) s (\<lambda>path.
     with_arg (argint 1 s) s (\<lambda>omode.
     obind (begin_op_now s) (\<lambda>s.
     if omode AND 0x200 \<noteq> 0 then
       obind (create path T_FILE 0 0 s) (\<lambda>(r, s).
       case r of None \<Rightarrow> end_with (-1) s | Some ip \<Rightarrow> open_file ip omode s)
     else
       obind (namei console_devsw path s) (\<lambda>(r, s).
       case r of
         None \<Rightarrow> end_with (-1) s
       | Some ip \<Rightarrow>
           obind (ilock ip s) (\<lambda>s.
           if itype (inodes s ! ip) = T_DIR \<and> omode \<noteq> 0 then obind (iunlockput ip s) (end_with (-1))
           else open_file ip omode s)))))"

definition made :: "(nat option \<times> 'a kern_state_scheme) outcome \<Rightarrow> (int \<times> 'a kern_state_scheme) outcome" where
  "made m = obind m (\<lambda>(r, s). case r of None \<Rightarrow> end_with (-1) s | Some ip \<Rightarrow> obind (iunlockput ip s) (end_with 0))"

definition sys_mkdir :: "'a kern_state_scheme \<Rightarrow> (int \<times> 'a kern_state_scheme) outcome" where
  "sys_mkdir s =
     obind (begin_op_now s) (\<lambda>s.
     obind (argstr 0 s) (\<lambda>path. case path of
       None \<Rightarrow> end_with (-1) s
     | Some path \<Rightarrow> made (create path T_DIR 0 0 s)))"

definition sys_mknod :: "'a kern_state_scheme \<Rightarrow> (int \<times> 'a kern_state_scheme) outcome" where
  "sys_mknod s =
     obind (begin_op_now s) (\<lambda>s.
     obind (argstr 0 s) (\<lambda>path. case path of
       None \<Rightarrow> end_with (-1) s
     | Some path \<Rightarrow>
         obind (argint 1 s) (\<lambda>major. case major of
           None \<Rightarrow> end_with (-1) s
         | Some major \<Rightarrow>
             obind (argint 2 s) (\<lambda>minor. case minor of
               None \<Rightarrow> end_with (-1) s
             | Some minor \<Rightarrow> made (create path T_DEV (ucast major) (ucast minor) s)))))"

definition sys_chdir :: "'a kern_state_scheme \<Rightarrow> (int \<times> 'a kern_state_scheme) outcome" where
  "sys_chdir s =
     obind (begin_op_now s) (\<lambda>s.
     obind (argstr 0 s) (\<lambda>path. case path of
       None \<Rightarrow> end_with (-1) s
     | Some path \<Rightarrow>
         obind (namei console_devsw path s) (\<lambda>(r, s).
         case r of
           None \<Rightarrow> end_with (-1) s
         | Some ip \<Rightarrow>
             obind (ilock ip s) (\<lambda>s.
             if itype (inodes s ! ip) \<noteq> T_DIR then obind (iunlockput ip s) (end_with (-1))
             else
               obind (iunlock ip s) (\<lambda>s.
               obind (case cwd (cur s) of None \<Rightarrow> Panic ''null inode'' | Some d \<Rightarrow> iput d s) (\<lambda>s.
               obind (end_op s) (\<lambda>s.
               Ret (0, upd_proc (the (curproc s)) (\<lambda>p. p\<lparr>cwd := Some ip\<rparr>) s))))))))"

section \<open>Programs and pipes\<close>

fun fetch_argv :: "nat list \<Rightarrow> u32 \<Rightarrow> 'a kern_state_scheme \<Rightarrow> u8 list list option outcome" where
  "fetch_argv [] uargv s = Ret None"
| "fetch_argv (i # is) uargv s =
     obind (fetchint (uargv + 4 * of_nat i) s) (\<lambda>r. case r of
       None \<Rightarrow> Ret None
     | Some uarg \<Rightarrow>
         if uarg = 0 then Ret (Some [])
         else
           obind (fetchstr uarg s) (\<lambda>r. case r of
             None \<Rightarrow> Ret None
           | Some a \<Rightarrow> obind (fetch_argv is uargv s) (\<lambda>r. Ret (map_option (Cons a) r))))"

definition sys_exec :: "'a kern_state_scheme \<Rightarrow> (int \<times> 'a kern_state_scheme) outcome" where
  "sys_exec s =
     with_arg (argstr 0 s) s (\<lambda>path.
     with_arg (argint 1 s) s (\<lambda>uargv.
     with_arg (fetch_argv [0..<MAXARG] uargv s) s (\<lambda>argv. exec path argv s)))"

definition sys_pipe :: "'a kern_state_scheme \<Rightarrow> (int \<times> 'a kern_state_scheme) outcome" where
  "sys_pipe s =
     with_arg (argptr 0 8 s) s (\<lambda>a.
     obind (pipealloc s) (\<lambda>(r, s).
     case r of
       None \<Rightarrow> Ret (-1, s)
     | Some (rfile, wfile) \<Rightarrow>
         let bad = (\<lambda>s. obind (fileclose rfile s) (\<lambda>s. obind (fileclose wfile s) (\<lambda>s. Ret (-1, s)))) in
         obind (fdalloc rfile s) (\<lambda>(fd0, s).
         case fd0 of
           None \<Rightarrow> bad s
         | Some fd0 \<Rightarrow>
             obind (fdalloc wfile s) (\<lambda>(fd1, s).
             case fd1 of
               None \<Rightarrow> bad (upd_proc (the (curproc s)) (\<lambda>p. p\<lparr>ofile := (ofile p)[fd0 := None]\<rparr>) s)
             | Some fd1 \<Rightarrow>
                 obind (ustore_bytes a (word_bytes (of_nat fd0)) s) (\<lambda>s.
                 obind (ustore_bytes (a + 4) (word_bytes (of_nat fd1)) s) (\<lambda>s. Ret (0, s)))))))"

end
