(* ===== verification/Trap.thy ===== *)
theory Trap
  imports Sysfile
begin

text \<open>
  System calls on processes, \<^verbatim>\<open>sysproc.c\<close>, the dispatch of system calls, \<^verbatim>\<open>syscall.c\<close>,
  and \<open>trap\<close> of \<^verbatim>\<open>trap.c\<close>. A call or a trap during which the process leaves the
  processor, because it ends, waits or yields, has the result \<open>Sleep\<close>.
  What the keyboard or the serial port delivers and the register \<open>cr2\<close> are arguments.
\<close>

section \<open>Process system calls\<close>

definition returns :: "(int \<times> 's) outcome \<Rightarrow> (int progress \<times> 's) outcome" where
  "returns m = obind m (\<lambda>(r, s). Ret (Done r, s))"

definition leaves :: "'s outcome \<Rightarrow> ('b progress \<times> 's) outcome" where
  "leaves m = obind m (\<lambda>s. Ret (Sleep, s))"

definition sys_fork :: "'a kern_state_scheme \<Rightarrow> (int \<times> 'a kern_state_scheme) outcome" where
  "sys_fork s = fork s"

definition sys_exit :: "'a kern_state_scheme \<Rightarrow> (int progress \<times> 'a kern_state_scheme) outcome" where
  "sys_exit s = leaves (exit s)"

definition sys_wait :: "'a kern_state_scheme \<Rightarrow> (int progress \<times> 'a kern_state_scheme) outcome" where
  "sys_wait s = wait s"

definition sys_kill :: "'a kern_state_scheme \<Rightarrow> (int \<times> 'a kern_state_scheme) outcome" where
  "sys_kill s = with_arg (argint 0 s) s (\<lambda>n. Ret (kill n s))"

definition sys_getpid :: "'a kern_state_scheme \<Rightarrow> (int \<times> 'a kern_state_scheme) outcome" where
  "sys_getpid s = (case curproc s of None \<Rightarrow> Panic ''null process'' | Some c \<Rightarrow> Ret (sint (pid (procs s ! c)), s))"

definition sys_sbrk :: "'a kern_state_scheme \<Rightarrow> (int \<times> 'a kern_state_scheme) outcome" where
  "sys_sbrk s =
     with_arg (argint 0 s) s (\<lambda>n.
     let addr = sz (cur s) in
     obind (growproc n s) (\<lambda>(r, s). if r < 0 then Ret (-1, s) else Ret (sint addr, s)))"

text \<open>One round of the loop of \<open>sys_sleep\<close>, which started at \<open>ticks0\<close>.\<close>

definition sys_sleep_round :: "u32 \<Rightarrow> u32 \<Rightarrow> 'a kern_state_scheme \<Rightarrow> (int progress \<times> 'a kern_state_scheme) outcome" where
  "sys_sleep_round n ticks0 s =
     (if ticks s - ticks0 < n then
        case curproc s of
          None \<Rightarrow> Panic ''null process''
        | Some c \<Rightarrow> if killed (procs s ! c) then Ret (Done (-1), s) else leaves (sleep ChTicks s)
      else Ret (Done 0, s))"

definition sys_sleep :: "'a kern_state_scheme \<Rightarrow> (int progress \<times> 'a kern_state_scheme) outcome" where
  "sys_sleep s =
     obind (argint 0 s) (\<lambda>r. case r of None \<Rightarrow> Ret (Done (-1), s) | Some n \<Rightarrow> sys_sleep_round n (ticks s) s)"

definition sys_uptime :: "'a kern_state_scheme \<Rightarrow> (int \<times> 'a kern_state_scheme) outcome" where
  "sys_uptime s = Ret (sint (ticks s), s)"

definition sys_halt :: "'a kern_state_scheme \<Rightarrow> (int \<times> 'a kern_state_scheme) outcome" where
  "sys_halt s = obind (cprintf (''Shutting down ...'' @ [NL]) [] s) (\<lambda>s. Ret (0, s))"

section \<open>Dispatch\<close>

definition syscalls :: "nat \<Rightarrow> ('a kern_state_scheme \<Rightarrow> (int progress \<times> 'a kern_state_scheme) outcome) option" where
  "syscalls n =
     (if n = 1 then Some (\<lambda>s. returns (sys_fork s)) else if n = 2 then Some sys_exit
      else if n = 3 then Some sys_wait else if n = 4 then Some (\<lambda>s. returns (sys_pipe s))
      else if n = 5 then Some (\<lambda>s. returns (sys_read s)) else if n = 6 then Some (\<lambda>s. returns (sys_kill s))
      else if n = 7 then Some (\<lambda>s. returns (sys_exec s)) else if n = 8 then Some (\<lambda>s. returns (sys_fstat s))
      else if n = 9 then Some (\<lambda>s. returns (sys_chdir s)) else if n = 10 then Some (\<lambda>s. returns (sys_dup s))
      else if n = 11 then Some (\<lambda>s. returns (sys_getpid s)) else if n = 12 then Some (\<lambda>s. returns (sys_sbrk s))
      else if n = 13 then Some sys_sleep else if n = 14 then Some (\<lambda>s. returns (sys_uptime s))
      else if n = 15 then Some (\<lambda>s. returns (sys_open s)) else if n = 16 then Some (\<lambda>s. returns (sys_write s))
      else if n = 17 then Some (\<lambda>s. returns (sys_mknod s)) else if n = 18 then Some (\<lambda>s. returns (sys_unlink s))
      else if n = 19 then Some (\<lambda>s. returns (sys_link s)) else if n = 20 then Some (\<lambda>s. returns (sys_mkdir s))
      else if n = 21 then Some (\<lambda>s. returns (sys_close s)) else if n = 22 then Some (\<lambda>s. returns (sys_halt s))
      else None)"

definition syscall :: "'a kern_state_scheme \<Rightarrow> (unit progress \<times> 'a kern_state_scheme) outcome" where
  "syscall s =
     (case curproc s of
        None \<Rightarrow> Panic ''null process''
      | Some c \<Rightarrow>
          let num = ld32 (mem s) (tf (procs s ! c) + TF_EAX) in
          case (if sint num > 0 \<and> sint num < 23 then syscalls (unat num) else None) of
            Some f \<Rightarrow>
              obind (f s) (\<lambda>(r, s). case r of
                Sleep \<Rightarrow> Ret (Sleep, s)
              | Done v \<Rightarrow> Ret (Done (), st_field (tf (procs s ! c) + TF_EAX) (of_int v) s))
          | None \<Rightarrow>
              obind (cprintf (''%d %s: unknown sys call %d'' @ [NL])
                       [AWord (pid (procs s ! c)), AStr (Some (pname (procs s ! c))), AWord num] s) (\<lambda>s.
              Ret (Done (), st_field (tf (procs s ! c) + TF_EAX) (-1) s)))"

section \<open>Traps\<close>

abbreviation (input) TF_TRAPNO :: u32 where "TF_TRAPNO \<equiv> 48"
abbreviation (input) TF_ERR :: u32 where "TF_ERR \<equiv> 52"
abbreviation (input) SCHED_INTERVAL :: u32 where "SCHED_INTERVAL \<equiv> 10"

definition user_frame :: "u32 \<Rightarrow> 'a kern_state_scheme \<Rightarrow> bool" where
  "user_frame frame s \<longleftrightarrow> ld32 (mem s) (frame + TF_CS) AND 3 = 3"

definition cur_killed :: "'a kern_state_scheme \<Rightarrow> bool" where
  "cur_killed s \<longleftrightarrow> (case curproc s of None \<Rightarrow> False | Some c \<Rightarrow> killed (procs s ! c))"

text \<open>The \<open>switch\<close> of \<open>trap\<close>.\<close>

definition trap_switch :: "u32 \<Rightarrow> u8 list \<Rightarrow> u32 \<Rightarrow> 'a kern_state_scheme \<Rightarrow> 'a kern_state_scheme outcome" where
  "trap_switch frame codes cr2 s =
     (let no = ld32 (mem s) (frame + TF_TRAPNO); eip = ld32 (mem s) (frame + TF_EIP);
          cpu = AWord (of_nat (this s)) in
      if no = 32 then Ret (if this s = 0 then wakeup ChTicks (s\<lparr>ticks := ticks s + 1\<rparr>) else s)
      else if no = 46 \<or> no = 47 then Ret s
      else if no = 33 \<or> no = 36 then consoleintr codes s
      else if no = 39 \<or> no = 63 then
        cprintf (''cpu%d: spurious interrupt at %x:%x'' @ [NL]) [cpu, AWord (ld32 (mem s) (frame + TF_CS)), AWord eip] s
      else
        case curproc s of
          None \<Rightarrow> Panic ''trap''
        | Some c \<Rightarrow>
            if ld32 (mem s) (frame + TF_CS) AND 3 = 0 then Panic ''trap''
            else
              obind (cprintf (''pid %d %s: trap %d err %d on cpu %d eip 0x%x addr 0x%x--kill proc'' @ [NL])
                [AWord (pid (procs s ! c)), AStr (Some (pname (procs s ! c))), AWord no, AWord (ld32 (mem s) (frame + TF_ERR)),
                 cpu, AWord eip, AWord cr2] s) (\<lambda>s.
              Ret (upd_proc c (\<lambda>p. p\<lparr>killed := True\<rparr>) s)))"

definition trap :: "u32 \<Rightarrow> u8 list \<Rightarrow> u32 \<Rightarrow> 'a kern_state_scheme \<Rightarrow> (unit progress \<times> 'a kern_state_scheme) outcome" where
  "trap frame codes cr2 s =
     (if ld32 (mem s) (frame + TF_TRAPNO) = 64 then
        case curproc s of
          None \<Rightarrow> Panic ''null process''
        | Some c \<Rightarrow>
            if killed (procs s ! c) then leaves (exit s)
            else
              obind (syscall (upd_proc c (\<lambda>p. p\<lparr>tf := frame\<rparr>) s)) (\<lambda>(r, s). case r of
                Sleep \<Rightarrow> Ret (Sleep, s)
              | Done _ \<Rightarrow> if cur_killed s then leaves (exit s) else Ret (Done (), s))
      else
        obind (trap_switch frame codes cr2 s) (\<lambda>s.
          if cur_killed s \<and> user_frame frame s then leaves (exit s)
          else if curproc s \<noteq> None \<and> pstate (cur s) = RUNNING \<and> ld32 (mem s) (frame + TF_TRAPNO) = 32 \<and>
              ticks s mod SCHED_INTERVAL = 0 then leaves (yield s)
          else if cur_killed s \<and> user_frame frame s then leaves (exit s)
          else Ret (Done (), s)))"

text \<open>What \<open>trap\<close> does when the process runs again after \<open>yield\<close>.\<close>

definition trap_resume :: "u32 \<Rightarrow> 'a kern_state_scheme \<Rightarrow> (unit progress \<times> 'a kern_state_scheme) outcome" where
  "trap_resume frame s = (if cur_killed s \<and> user_frame frame s then leaves (exit s) else Ret (Done (), s))"

end
