(* ===== verification/Kbd.thy ===== *)
theory Kbd
  imports Prelude
begin

text \<open>
  The keyboard driver, \<^verbatim>\<open>kbd.c\<close> with the tables of \<^verbatim>\<open>kbd.h\<close>. The two port reads of
  \<open>kbdgetc\<close> are arguments; the static variable \<open>shift\<close> is passed in and out.
\<close>

section \<open>Tables\<close>

definition bytes :: "string \<Rightarrow> u8 list" where
  "bytes str = map of_char str"

abbreviation (input) SHIFT :: u32 where "SHIFT \<equiv> 1"
abbreviation (input) CTL :: u32 where "CTL \<equiv> 2"
abbreviation (input) ALT :: u32 where "ALT \<equiv> 4"
abbreviation (input) CAPSLOCK :: u32 where "CAPSLOCK \<equiv> 8"
abbreviation (input) NUMLOCK :: u32 where "NUMLOCK \<equiv> 16"
abbreviation (input) SCROLLLOCK :: u32 where "SCROLLLOCK \<equiv> 32"
abbreviation (input) E0ESC :: u32 where "E0ESC \<equiv> 64"

text \<open>An array of 256 bytes with an initialiser: leading elements, and designated ones.\<close>

definition table :: "u8 list \<Rightarrow> (nat \<times> u8) list \<Rightarrow> nat \<Rightarrow> u8" where
  "table pre des i = (case map_of des i of Some v \<Rightarrow> v | None \<Rightarrow> if i < length pre then pre ! i else 0)"

definition shiftcode :: "nat \<Rightarrow> u32" where
  "shiftcode i = (if i = 0x1D then CTL else if i = 0x2A \<or> i = 0x36 then SHIFT else if i = 0x38 then ALT
     else if i = 0x9D then CTL else if i = 0xB8 then ALT else 0)"

definition togglecode :: "nat \<Rightarrow> u32" where
  "togglecode i = (if i = 0x3A then CAPSLOCK else if i = 0x45 then NUMLOCK else if i = 0x46 then SCROLLLOCK else 0)"

definition special_keys :: "(nat \<times> u8) list" where
  "special_keys = [(0xC8, 0xE2), (0xD0, 0xE3), (0xC9, 0xE6), (0xD1, 0xE7), (0xCB, 0xE4), (0xCD, 0xE5),
     (0x97, 0xE0), (0xCF, 0xE1), (0xD2, 0xE8), (0xD3, 0xE9)]"

definition normalmap :: "nat \<Rightarrow> u8" where
  "normalmap = table
     ([0, 0x1B] @ bytes ''1234567890-='' @ [8, 9] @ bytes ''qwertyuiop[]'' @ [10, 0] @ bytes ''asdfghjkl;'' @ [39, 96, 0, 92] @
      bytes ''zxcvbnm,./'' @ [0, 42, 0, 32] @ replicate 13 0 @ bytes ''789-456+1230.'' @ replicate 4 0)
     ([(0x9C, 10), (0xB5, 47)] @ special_keys)"

definition shiftmap :: "nat \<Rightarrow> u8" where
  "shiftmap = table
     ([0, 27] @ bytes ''!@#$%^&*()_+'' @ [8, 9] @ bytes ''QWERTYUIOP{}'' @ [10, 0] @ bytes ''ASDFGHJKL:'' @ [34, 126, 0, 124] @
      bytes ''ZXCVBNM<>?'' @ [0, 42, 0, 32] @ replicate 13 0 @ bytes ''789-456+1230.'' @ replicate 4 0)
     ([(0x9C, 10), (0xB5, 47)] @ special_keys)"

definition ctl :: "u8 \<Rightarrow> u8" where
  "ctl x = x - 64"

definition ctlmap :: "nat \<Rightarrow> u8" where
  "ctlmap = table
     (replicate 16 0 @ map ctl (bytes ''QWERTYUIOP'') @ [0, 0, 13, 0] @ map ctl (bytes ''ASDFGHJKL'') @ [0, 0, 0, 0, ctl 92] @
      map ctl (bytes ''ZXCVBNM'') @ [0, 0, ctl 47, 0, 0])
     ([(0x9C, 13), (0xB5, ctl 47)] @ special_keys)"

definition charcode :: "u32 \<Rightarrow> nat \<Rightarrow> u8" where
  "charcode k = (if k = 0 then normalmap else if k = 1 then shiftmap else ctlmap)"

section \<open>Reading a key\<close>

definition kbdgetc :: "u8 \<Rightarrow> u8 \<Rightarrow> u32 \<Rightarrow> int \<times> u32" where
  "kbdgetc st data shift =
     (if st AND 1 = 0 then (-1, shift)
      else if data = 0xE0 then (0, shift OR E0ESC)
      else if data AND 0x80 \<noteq> 0 then
        let data = (if shift AND E0ESC \<noteq> 0 then data else data AND 0x7F) in
        (0, shift AND NOT (shiftcode (unat data) OR E0ESC))
      else
        let (data, shift) = (if shift AND E0ESC \<noteq> 0 then (data OR 0x80, shift AND NOT E0ESC) else (data, shift));
            shift = shift OR shiftcode (unat data);
            shift = shift XOR togglecode (unat data);
            c = charcode (shift AND (CTL OR SHIFT)) (unat data);
            c = (if shift AND CAPSLOCK \<noteq> 0 then
                   if 97 \<le> c \<and> c \<le> 122 then c - 32 else if 65 \<le> c \<and> c \<le> 90 then c + 32 else c
                 else c)
        in (uint c, shift))"

text \<open>The characters of a sequence of scan codes, as \<open>consoleintr\<close> sees them.\<close>

fun kbd_codes :: "u8 list \<Rightarrow> u32 \<Rightarrow> u8 list" where
  "kbd_codes [] shift = []"
| "kbd_codes (d # ds) shift = (let (c, shift) = kbdgetc 1 d shift in of_int c # kbd_codes ds shift)"

lemma kbd_examples:
  "kbd_codes [0x23, 0xA3] 0 = [104, 0]"
  "kbd_codes [0x2A, 0x23, 0xA3, 0xAA, 0x23] 0 = [0, 72, 0, 0, 104]"
  by (code_simp, code_simp)

end
