(* ===== verification/Fsblock.thy ===== *)
theory Fsblock
  imports Fs
begin

text \<open>
  What the block layer of \<^verbatim>\<open>fs.c\<close> guarantees inside a transaction: the logged update of a
  block as one step, the bitmap allocator, and the layout of inodes on the disk. \<open>content\<close> is
  the content of a block as the kernel sees it, through the cache.
\<close>

section \<open>Logged writes\<close>

text \<open>A block of the file system proper, and the room the transaction has left.\<close>

definition good :: "'a log_state_scheme \<Rightarrow> u32 \<Rightarrow> bool" where
  "good s n \<longleftrightarrow> n < disksize s \<and> n \<notin> log_area s"

definition room :: "nat \<Rightarrow> 'a log_state_scheme \<Rightarrow> bool" where
  "room k s \<longleftrightarrow> 1 \<le> loutstanding s \<and> lhn s + int k \<le> int LOGSIZE \<and> lhn s + int k \<le> sint (lsize s) - 1"

lemma room_mono: "room k s \<Longrightarrow> j \<le> k \<Longrightarrow> room j s"
  by (simp add: room_def)

lemma can_log_room: "good s n \<Longrightarrow> room (Suc k) s \<Longrightarrow> can_log s n"
  by (simp add: can_log_def good_def room_def)

text \<open>
  \<open>logs ws s s'\<close>: from \<open>s\<close> to \<open>s'\<close> the transaction wrote the blocks \<open>ws\<close> in this order, and
  besides the cache, the log and the inode cache nothing changed.
\<close>

definition logs :: "(u32 \<times> block) list \<Rightarrow> 'a fs_state_scheme \<Rightarrow> 'a fs_state_scheme \<Rightarrow> bool" where
  "logs ws s s' \<longleftrightarrow> tx s' \<and> content s' = apply_writes ws (content s) \<and> disk s' = disk s \<and> trace s' = trace s \<and>
     lhn s' \<le> lhn s + int (length ws) \<and> log_only (s\<lparr>inodes := inodes s'\<rparr>) s'"

lemma tx_lhn: "tx s \<Longrightarrow> lhn s = int (card (dirty_blocks s))"
proof -
  assume "tx s"
  then have l: "log_ok s" and D: "dirty_blocks s = set (take (nat (lhn s)) (lhblock s))" by (auto simp: tx_def trans_ok_def)
  note L = log_okD [OF l]
  have "card (dirty_blocks s) = nat (lhn s)" unfolding D using distinct_card [OF L(6)] L(3,5) by simp
  then show ?thesis using L(8) by simp
qed

lemma log_only_inodes:
  assumes "log_only s s'"
  shows "log_only (s\<lparr>inodes := ns\<rparr>) (s'\<lparr>inodes := ns\<rparr>)"
proof -
  obtain n b where "bio_only (s\<lparr>lhn := n, lhblock := b\<rparr>) s'" using assms by (auto simp: log_only_def)
  then obtain ps sl bf dk tr where x: "s' = s\<lparr>lhn := n, lhblock := b, procs := ps, slocks := sl, bufs := bf, disk := dk, trace := tr\<rparr>"
    "woken (procs s) ps" "\<forall>l. (\<forall>i. l \<noteq> BufLock i) \<longrightarrow> sl l = slocks s l" unfolding bio_only_def by auto
  have "bio_only (s\<lparr>inodes := ns, lhn := n, lhblock := b\<rparr>) (s'\<lparr>inodes := ns\<rparr>)" unfolding x(1) by (intro bio_onlyI) (use x(2,3) in simp_all)
  then show ?thesis unfolding log_only_def by blast
qed

lemma log_only_fields:
  assumes "log_only s s'"
  shows "sb s' = sb s" "inodes s' = inodes s" "disksize s' = disksize s" "lstart s' = lstart s" "lsize s' = lsize s" "loutstanding s' = loutstanding s"
    "log_area s' = log_area s" "ldev s' = ldev s" "curproc s' = curproc s" "\<And>i. slocks s' (InodeLock i) = slocks s (InodeLock i)"
  using assms by (auto simp: log_only_def bio_only_def log_area_def curproc_def)

lemma logsD:
  assumes "logs ws s s'"
  shows "tx s'" "content s' = apply_writes ws (content s)" "disk s' = disk s" "lhn s' \<le> lhn s + int (length ws)"
    "sb s' = sb s" "disksize s' = disksize s" "good s' = good s" "loutstanding s' = loutstanding s" "lsize s' = lsize s"
    "curproc s' = curproc s" "\<And>i. slocks s' (InodeLock i) = slocks s (InodeLock i)" "trace s' = trace s"
  using assms log_only_fields [of "s\<lparr>inodes := inodes s'\<rparr>" s'] by (auto simp: logs_def good_def log_area_def curproc_def)

lemma logs_room: "logs ws s s' \<Longrightarrow> room (length ws + k) s \<Longrightarrow> room k s'"
  using logsD(4,8,9) [of ws s s'] by (auto simp: room_def)

lemma logs_refl: "tx s \<Longrightarrow> logs [] s s"
  by (simp add: logs_def)

lemma logs_trans:
  assumes "logs ws s t" "logs vs t u"
  shows "logs (ws @ vs) s u"
proof -
  have "log_only (s\<lparr>inodes := inodes u\<rparr>) (t\<lparr>inodes := inodes u\<rparr>)" 
    using log_only_inodes [of "s\<lparr>inodes := inodes t\<rparr>" t "inodes u"] assms(1) by (simp add: logs_def)
  then have "log_only (s\<lparr>inodes := inodes u\<rparr>) u" using log_only_trans assms(2) by (auto simp: logs_def)
  then show ?thesis using logsD [OF assms(1)] logsD [OF assms(2)] by (simp add: logs_def)
qed

lemma logs_bio_only:
  assumes "tx s'" "content s' = content s" "disk s' = disk s" "trace s' = trace s" "bio_only s s'"
  shows "logs [] s s'"
proof -
  have "inodes s' = inodes s" "lhn s' = lhn s" using assms(5) by (auto simp: bio_only_def)
  then show ?thesis using assms bio_only_log_only [OF assms(5)] by (simp add: logs_def)
qed

lemma get_block:
  assumes "tx s" "n < disksize s"
  shows "\<exists>i s1 s2. bread 1 n s = Ret (i, s1) \<and> bdata (bufs s1 ! i) = content s n \<and> brelse i s1 = Ret s2 \<and> logs [] s s2 \<and>
    inodes s1 = inodes s \<and> inodes s2 = inodes s \<and> sb s1 = sb s"
proof -
  from read_block [OF assms] obtain i s1 s2 where r: "bread 1 n s = Ret (i, s1)" "bdata (bufs s1 ! i) = content s n" "brelse i s1 = Ret s2"
    "tx s2" "content s2 = content s" "disk s2 = disk s" "trace s2 = trace s" "bio_only s s1" "bio_only s s2" by blast
  have "inodes s1 = inodes s" "inodes s2 = inodes s" "sb s1 = sb s" using r(8,9) by (auto simp: bio_only_def)
  then show ?thesis using r logs_bio_only by blast
qed

lemma put_block:
  assumes tx: "tx s" and g: "good s n" and room: "room (Suc k) s" and len: "length (f (content s n)) = BSIZE"
  shows "\<exists>i s1 s2 s3. bread 1 n s = Ret (i, s1) \<and> bdata (bufs s1 ! i) = content s n \<and> log_write i (set_data i f s1) = Ret s2 \<and>
    brelse i s2 = Ret s3 \<and> logs [(n, f (content s n))] s s3 \<and> inodes s1 = inodes s \<and> inodes s3 = inodes s \<and> sb s1 = sb s"
proof -
  from update_block [OF tx can_log_room [OF g room], of f] len obtain i s1 s2 s3 where r:
    "bread 1 n s = Ret (i, s1)" "bdata (bufs s1 ! i) = content s n" "log_write i (set_data i f s1) = Ret s2"
    "brelse i s2 = Ret s3" "tx s3" "bio_only s s1" "content s3 = (content s)(n := f (content s n))" "disk s3 = disk s" "trace s3 = trace s"
    "dirty_blocks s3 = insert n (dirty_blocks s)" "log_only s s3" by blast
  have "finite (dirty_blocks s)" using tx by (auto simp: tx_def trans_ok_def)
  then have "lhn s3 \<le> lhn s + 1" using tx_lhn [OF tx] tx_lhn [OF r(5)] r(10) by (simp add: card_insert_if)
  moreover have "inodes s1 = inodes s" "sb s1 = sb s" using r(6) by (auto simp: bio_only_def)
  moreover have "inodes s3 = inodes s" using log_only_fields(2) [OF r(11)] .
  ultimately show ?thesis using r by (intro exI [of _ i] exI [of _ s1] exI [of _ s2] exI [of _ s3]) (simp add: logs_def)
qed


section \<open>The block allocator\<close>

lemma in_use_bit: "in_use d bi \<longleftrightarrow> bit (d ! (bi div 8)) (bi mod 8)"
  unfolding in_use_def by (rule bit_iff_and_push_bit_not_eq_0 [symmetric])

lemma bit_mask8: "k < 8 \<Longrightarrow> bit (2 ^ k :: u8) j \<longleftrightarrow> j = k"
  by (auto simp: bit_simps)

lemma same_bit: "bi div 8 = bj div 8 \<Longrightarrow> bi mod 8 = bj mod 8 \<Longrightarrow> bi = bj" for bi bj :: nat
  by (metis div_mult_mod_eq)

lemma mark_used_bits:
  assumes "bi < BPB" "bj < BPB" "length d = BSIZE"
  shows "in_use (mark_used bi d) bj \<longleftrightarrow> bj = bi \<or> in_use d bj"
proof (cases "bi div 8 = bj div 8")
  case True
  have "bit (x OR 2 ^ (bi mod 8)) (bj mod 8) \<longleftrightarrow> bi mod 8 = bj mod 8 \<or> bit x (bj mod 8)" for x :: u8
    using bit_mask8 [of "bi mod 8" "bj mod 8"] by (auto simp: bit_or_iff)
  moreover have "bj = bi \<longleftrightarrow> bi mod 8 = bj mod 8" using True same_bit by blast
  moreover have "bj div 8 < 512" using assms(2) by simp
  ultimately show ?thesis using True assms(3) by (simp add: in_use_bit mark_used_def)
next
  case False
  then have "bj \<noteq> bi" by auto
  then show ?thesis using False by (simp add: in_use_bit mark_used_def)
qed

lemma mark_free_bits:
  assumes "bi < BPB" "bj < BPB" "length d = BSIZE"
  shows "in_use (mark_free bi d) bj \<longleftrightarrow> bj \<noteq> bi \<and> in_use d bj"
proof (cases "bi div 8 = bj div 8")
  case True
  have "bit (x AND NOT (2 ^ (bi mod 8))) (bj mod 8) \<longleftrightarrow> bit x (bj mod 8) \<and> bi mod 8 \<noteq> bj mod 8" for x :: u8
    using bit_mask8 [of "bi mod 8" "bj mod 8"] by (auto simp: bit_and_iff bit_not_iff dest: bit_imp_le_length)
  moreover have "bj = bi \<longleftrightarrow> bi mod 8 = bj mod 8" using True same_bit by blast
  moreover have "bj div 8 < 512" using assms(2) by simp
  ultimately show ?thesis using True assms(3) by (auto simp: in_use_bit mark_free_def)
next
  case False
  then have "bj \<noteq> bi" by auto
  then show ?thesis using False by (simp add: in_use_bit mark_free_def)
qed

lemma length_mark [simp]: "length (mark_used bi d) = length d" "length (mark_free bi d) = length d"
  by (simp_all add: mark_used_def mark_free_def)

definition used :: "'a fs_state_scheme \<Rightarrow> nat \<Rightarrow> bool" where
  "used s b \<longleftrightarrow> in_use (content s (BBLOCK (of_nat b) (sb s))) (b mod BPB)"

text \<open>
  The blocks of the bitmap lie on the disk outside the log; so do the free blocks, and no
  free block is one of the bitmap.
\<close>

definition map_ok :: "'a fs_state_scheme \<Rightarrow> bool" where
  "map_ok s \<longleftrightarrow> (\<forall>b < unat (sb_size (sb s)). good s (BBLOCK (of_nat b) (sb s))) \<and>
     (\<forall>b < unat (sb_size (sb s)). \<not> used s b \<longrightarrow> good s (of_nat b) \<and> (\<forall>c < unat (sb_size (sb s)). of_nat b \<noteq> BBLOCK (of_nat c) (sb s))) \<and>
     unat (sb_bmapstart (sb s)) + unat (sb_size (sb s)) div 4096 < 2 ^ 32"

lemma map_okD:
  assumes "map_ok s" "b < unat (sb_size (sb s))"
  shows "good s (BBLOCK (of_nat b) (sb s))" "\<not> used s b \<Longrightarrow> good s (of_nat b)"
    "\<not> used s b \<Longrightarrow> c < unat (sb_size (sb s)) \<Longrightarrow> of_nat b \<noteq> BBLOCK (of_nat c) (sb s)"
  using assms by (auto simp: map_ok_def)

lemma of_nat_unat_less: "b < unat (w :: u32) \<Longrightarrow> unat (of_nat b :: u32) = b"
  using unat_bound [of w] by (intro unat_of_nat_small) simp

lemma BBLOCK_inj:
  assumes "map_ok s" "b < unat (sb_size (sb s))" "c < unat (sb_size (sb s))"
  shows "BBLOCK (of_nat b) (sb s) = BBLOCK (of_nat c) (sb s) \<longleftrightarrow> b div BPB = c div BPB"
proof -
  have u: "unat (of_nat x div 4096 :: u32) = x div 4096" if "x < unat (sb_size (sb s))" for x
    using of_nat_unat_less [OF that] by (simp add: unat_div)
  have "BBLOCK (of_nat b) (sb s) = BBLOCK (of_nat c) (sb s) \<longleftrightarrow> (of_nat b div 4096 :: u32) = of_nat c div 4096" by (simp add: BBLOCK_def)
  also have "\<dots> \<longleftrightarrow> b div BPB = c div BPB" using u [OF assms(2)] u [OF assms(3)] by (simp add: word_unat_eq_iff)
  finally show ?thesis .
qed

lemma bzero_spec:
  assumes "tx s" "good s n" "room (Suc k) s"
  shows "\<exists>s'. bzero 1 n s = Ret s' \<and> logs [(n, replicate BSIZE 0)] s s' \<and> inodes s' = inodes s"
  using put_block [OF assms, of "\<lambda>_. replicate BSIZE 0"] by (auto simp: bzero_def)


lemma nth_upt0: "i < n \<Longrightarrow> [0..<n] ! i = i" by simp

lemma used_div: "bi < BPB \<Longrightarrow> k * BPB + bi < unat (sb_size (sb s)) \<Longrightarrow> map_ok s \<Longrightarrow>
    used s (k * BPB + bi) \<longleftrightarrow> in_use (content s (BBLOCK (of_nat (k * BPB)) (sb s))) bi"
proof -
  assume a: "bi < BPB" "k * BPB + bi < unat (sb_size (sb s))" "map_ok s"
  have "BBLOCK (of_nat (k * BPB + bi)) (sb s) = BBLOCK (of_nat (k * BPB)) (sb s)"
    using BBLOCK_inj [OF a(3,2), of "k * BPB"] a by (simp del: of_nat_add of_nat_mult)
  moreover have "(k * BPB + bi) mod BPB = bi" using a(1) by simp
  ultimately show ?thesis unfolding used_def by (simp only:)
qed

abbreviation map_blocks :: "'a fs_state_scheme \<Rightarrow> nat" where
  "map_blocks s \<equiv> (unat (sb_size (sb s)) + (BPB - 1)) div BPB"

definition takes :: "nat \<Rightarrow> 'a fs_state_scheme \<Rightarrow> 'a fs_state_scheme \<Rightarrow> bool" where
  "takes a s s' \<longleftrightarrow> a < unat (sb_size (sb s)) \<and> \<not> used s a \<and> (\<forall>c < a. used s c) \<and> inodes s' = inodes s \<and>
     logs [(BBLOCK (of_nat a) (sb s), mark_used (a mod BPB) (content s (BBLOCK (of_nat a) (sb s)))), (of_nat a, replicate BSIZE 0)] s s'"

lemma balloc_found:
  assumes tx: "tx s" and m: "map_ok s" and room: "room (Suc (Suc k)) s" and a: "a < unat (sb_size (sb s))" "\<not> used s a" "\<forall>c < a. used s c"
    and r: "a = j * BPB + bi" "bi < BPB"
  shows "\<exists>i s1 s2 s3 s4. bread 1 (BBLOCK (of_nat (j * BPB)) (sb s)) s = Ret (i, s1) \<and> bdata (bufs s1 ! i) = content s (BBLOCK (of_nat (j * BPB)) (sb s)) \<and>
    sb s1 = sb s \<and> log_write i (set_data i (mark_used bi) s1) = Ret s2 \<and> brelse i s2 = Ret s3 \<and> bzero 1 (of_nat a) s3 = Ret s4 \<and> takes a s s4"
proof -
  let ?B = "BBLOCK (of_nat (j * BPB)) (sb s)"
  have B: "?B = BBLOCK (of_nat a) (sb s)" using BBLOCK_inj [OF m, of "j * BPB" a] a r by simp
  have amod: "a mod BPB = bi" using r by simp
  have g: "good s ?B" unfolding B using map_okD(1) [OF m a(1)] .
  from put_block [OF tx g room, of "mark_used bi"] txD(6) [OF tx] obtain i s1 s2 s3 where p:
    "bread 1 ?B s = Ret (i, s1)" "bdata (bufs s1 ! i) = content s ?B" "log_write i (set_data i (mark_used bi) s1) = Ret s2"
    "brelse i s2 = Ret s3" "logs [(?B, mark_used bi (content s ?B))] s s3" "inodes s3 = inodes s" "sb s1 = sb s" by auto
  have "good s3 (of_nat a)" using map_okD(2) [OF m a(1,2)] logsD(7) [OF p(5)] by simp
  moreover have "room (Suc k) s3" using logs_room [OF p(5), of "Suc k"] room by simp
  ultimately obtain s4 where z: "bzero 1 (of_nat a) s3 = Ret s4" "logs [(of_nat a, replicate BSIZE 0)] s3 s4" "inodes s4 = inodes s3"
    using bzero_spec [OF logsD(1) [OF p(5)]] by blast
  have "takes a s s4" unfolding takes_def using logs_trans [OF p(5) z(2)] a z(3) p(6) amod B by simp
  then show ?thesis using p z by blast
qed


lemma logs_nil:
  assumes "logs [] s t" "inodes t = inodes s"
  shows "content t = content s" "sb t = sb s" "used t = used s" "map_ok t = map_ok s" "takes a t u \<Longrightarrow> takes a s u" "room k s \<Longrightarrow> room k t"
proof -
  note L = logsD [OF assms(1)]
  show c: "content t = content s" "sb t = sb s" using L(2,5) by simp_all
  then show u: "used t = used s" by (simp add: used_def fun_eq_iff)
  show "map_ok t = map_ok s" by (simp add: map_ok_def L c u)
  show "takes a t u \<Longrightarrow> takes a s u" unfolding takes_def u c assms(2) using logs_trans [OF assms(1), of _ u] by simp
  show "room k s \<Longrightarrow> room k t" using logs_room [OF assms(1), of k] by simp
qed

lemma balloc_loop_spec:
  assumes "tx s" "map_ok s" "room (Suc (Suc k)) s" "\<exists>b < unat (sb_size (sb s)). \<not> used s b" "\<forall>c < j * BPB. c < unat (sb_size (sb s)) \<longrightarrow> used s c"
    "n = map_blocks s - j"
  shows "\<exists>a s'. balloc_loop 1 (map (\<lambda>j. j * BPB) [j..<map_blocks s]) s = Ret (of_nat a, s') \<and> takes a s s'"
  using assms
proof (induction n arbitrary: j s)
  case 0
  then have "unat (sb_size (sb s)) \<le> j * BPB" by simp
  then show ?case using 0 by (meson less_le_trans)
next
  case (Suc n)
  let ?S = "unat (sb_size (sb s))" and ?B = "BBLOCK (of_nat (j * BPB)) (sb s)"
  have j: "j < map_blocks s" "j * BPB < ?S" using Suc.prems(6) by simp_all
  have step: "[j..<map_blocks s] = j # [Suc j..<map_blocks s]" using j(1) by (rule upt_conv_Cons)
  define m where "m = min BPB (?S - j * BPB)"
  have m: "bi < BPB" "j * BPB + bi < ?S" if "bi < m" for bi using that unfolding m_def by linarith+
  have used: "used s (j * BPB + bi) \<longleftrightarrow> in_use (content s ?B) bi" if "bi < m" for bi
    by (rule used_div [OF m(1,2) [OF that] Suc.prems(2)])
  show ?case
  proof (cases "scan (\<lambda>bi. \<not> in_use (content s ?B) bi) [0..<m]")
    case (Some bi)
    note b = scan_SomeD [OF Some]
    have bi: "bi < m" using b by simp
    have b2: "in_use (content s ?B) x" if "x < bi" for x using b bi that by auto
    have b3: "\<not> in_use (content s ?B) bi" using b bi by simp
    let ?a = "j * BPB + bi"
    have "\<not> used s ?a" using b3 used [OF bi] by simp
    moreover have "used s c" if c: "c < ?a" for c
    proof (cases "c < j * BPB")
      case True
      then show ?thesis using Suc.prems(5) j(2) by simp
    next
      case False
      then have "c - j * BPB < bi" using c by simp
      moreover from this have "c - j * BPB < m" using bi by linarith
      ultimately show ?thesis using b2 used [of "c - j * BPB"] False by simp
    qed
    moreover have "?a < ?S" using m(2) [OF bi] .
    ultimately obtain i s1 s2 s3 s4 where p: "bread 1 ?B s = Ret (i, s1)" "bdata (bufs s1 ! i) = content s ?B" "sb s1 = sb s"
      "log_write i (set_data i (mark_used bi) s1) = Ret s2" "brelse i s2 = Ret s3" "bzero 1 (of_nat ?a) s3 = Ret s4" "takes ?a s s4"
      using balloc_found [OF Suc.prems(1-3), of ?a j bi] m(1) [OF bi] by auto
    show ?thesis unfolding step using p Some
      by (intro exI [of _ ?a] exI [of _ s4]) (simp del: of_nat_add of_nat_mult add: p m_def)
  next
    case None
    then have all: "\<forall>bi < m. in_use (content s ?B) bi" by simp
    have "good s ?B" using map_okD(1) [OF Suc.prems(2) j(2)] .
    then have "?B < disksize s" by (simp add: good_def)
    from get_block [OF Suc.prems(1) this] obtain i s1 s2 where p: "bread 1 ?B s = Ret (i, s1)" "bdata (bufs s1 ! i) = content s ?B"
      "brelse i s1 = Ret s2" "logs [] s s2" "inodes s2 = inodes s" "sb s1 = sb s" by blast
    note N = logs_nil [OF p(4,5)]
    have "\<forall>c < Suc j * BPB. c < ?S \<longrightarrow> used s c"
    proof (intro allI impI)
      fix c assume c: "c < Suc j * BPB" "c < ?S"
      show "used s c"
      proof (cases "c < j * BPB")
        case False
        then have "c - j * BPB < m" using c unfolding m_def by (simp; linarith)
        then show ?thesis using all used [of "c - j * BPB"] False by simp
      qed (use Suc.prems(5) c in simp)
    qed
    then have "\<forall>c < Suc j * BPB. c < unat (sb_size (sb s2)) \<longrightarrow> used s2 c" unfolding N(2,3) .
    moreover have "n = map_blocks s2 - Suc j" using Suc.prems(6) N(2) by simp
    moreover have "\<exists>b < unat (sb_size (sb s2)). \<not> used s2 b" using Suc.prems(4) N(2,3) by simp
    moreover have "map_ok s2" "room (Suc (Suc k)) s2" using Suc.prems(2,3) N(4,6) by simp_all
    ultimately obtain a s' where "balloc_loop 1 (map (\<lambda>j. j * BPB) [Suc j..<map_blocks s2]) s2 = Ret (of_nat a, s')" "takes a s2 s'"
      using Suc.IH [OF logsD(1) [OF p(4)]] by blast
    then show ?thesis unfolding step using p None N(2) N(5)
      by (intro exI [of _ a] exI [of _ s']) (simp del: of_nat_add of_nat_mult scan_None_iff add: m_def)
  qed
qed


lemma used_logs:
  assumes m: "map_ok s" and a: "a < unat (sb_size (sb s))" and l: "logs ws s s'"
    and w: "content s' (BBLOCK (of_nat a) (sb s)) = f (content s (BBLOCK (of_nat a) (sb s)))"
    and o: "\<And>c. c < unat (sb_size (sb s)) \<Longrightarrow> BBLOCK (of_nat c) (sb s) \<noteq> BBLOCK (of_nat a) (sb s) \<Longrightarrow>
      content s' (BBLOCK (of_nat c) (sb s)) = content s (BBLOCK (of_nat c) (sb s))"
    and f: "\<And>bj. bj < BPB \<Longrightarrow> in_use (f (content s (BBLOCK (of_nat a) (sb s)))) bj \<longleftrightarrow> P bj" and c: "c < unat (sb_size (sb s))"
  shows "used s' c \<longleftrightarrow> (if c div BPB = a div BPB then P (c mod BPB) else used s c)"
proof -
  have sb: "sb s' = sb s" using logsD(5) [OF l] .
  show ?thesis
  proof (cases "c div BPB = a div BPB")
    case True
    then have "BBLOCK (of_nat c) (sb s) = BBLOCK (of_nat a) (sb s)" using BBLOCK_inj [OF m c a] by simp
    then show ?thesis unfolding used_def sb using True w f [of "c mod BPB"] by simp
  next
    case False
    then have "BBLOCK (of_nat c) (sb s) \<noteq> BBLOCK (of_nat a) (sb s)" using BBLOCK_inj [OF m c a] by simp
    then show ?thesis unfolding used_def sb using False o [OF c] by simp
  qed
qed

lemma same_block_mod: "c div 4096 = a div 4096 \<Longrightarrow> c mod 4096 = a mod 4096 \<longleftrightarrow> c = a" for a c :: nat
  by (metis div_mult_mod_eq)

lemma takesD:
  assumes tx0: "tx s" and m: "map_ok s" and t: "takes a s s'"
  shows "logs [(BBLOCK (of_nat a) (sb s), mark_used (a mod BPB) (content s (BBLOCK (of_nat a) (sb s)))), (of_nat a, replicate BSIZE 0)] s s'"
    "a < unat (sb_size (sb s))" "\<not> used s a" "unat (of_nat a :: u32) = a" "inodes s' = inodes s" "sb s' = sb s"
    "content s' (of_nat a) = replicate BSIZE 0" "\<And>n. n \<noteq> of_nat a \<Longrightarrow> n \<noteq> BBLOCK (of_nat a) (sb s) \<Longrightarrow> content s' n = content s n"
    "\<And>c. c < unat (sb_size (sb s)) \<Longrightarrow> used s' c \<longleftrightarrow> c = a \<or> used s c" "map_ok s'" "tx s'"
proof -
  let ?B = "BBLOCK (of_nat a) (sb s)"
  show l: "logs [(?B, mark_used (a mod BPB) (content s ?B)), (of_nat a, replicate BSIZE 0)] s s'" and a: "a < unat (sb_size (sb s))" "\<not> used s a"
    and "inodes s' = inodes s" using t by (simp_all add: takes_def)
  show "unat (of_nat a :: u32) = a" using of_nat_unat_less [OF a(1)] .
  note L = logsD [OF l]
  show sb: "sb s' = sb s" and tx: "tx s'" using L by simp_all
  have ne: "of_nat a \<noteq> BBLOCK (of_nat c) (sb s)" if "c < unat (sb_size (sb s))" for c using map_okD(3) [OF m a that] .
  have c: "content s' = (content s)(?B := mark_used (a mod BPB) (content s ?B), of_nat a := replicate BSIZE 0)" using L(2) by simp
  show "content s' (of_nat a) = replicate BSIZE 0" "\<And>n. n \<noteq> of_nat a \<Longrightarrow> n \<noteq> ?B \<Longrightarrow> content s' n = content s n" by (simp_all add: c)
  have len: "length (content s ?B) = BSIZE" by (rule txD(6) [OF tx0])
  show u: "used s' b \<longleftrightarrow> b = a \<or> used s b" if b: "b < unat (sb_size (sb s))" for b
  proof -
    have "used s' b \<longleftrightarrow> (if b div BPB = a div BPB then b mod BPB = a mod BPB \<or> in_use (content s ?B) (b mod BPB) else used s b)"
    proof (rule used_logs [OF m a(1) l _ _ _ b, where f = "mark_used (a mod BPB)"])
      show "content s' ?B = mark_used (a mod BPB) (content s ?B)" using c ne [OF a(1)] by simp
      show "content s' (BBLOCK (of_nat x) (sb s)) = content s (BBLOCK (of_nat x) (sb s))"
        if "x < unat (sb_size (sb s))" "BBLOCK (of_nat x) (sb s) \<noteq> ?B" for x using c ne [OF that(1)] that(2) by simp
      show "in_use (mark_used (a mod BPB) (content s ?B)) bj \<longleftrightarrow> bj = a mod BPB \<or> in_use (content s ?B) bj" if "bj < BPB" for bj
        by (rule mark_used_bits) (use that len in simp_all)
    qed
    moreover have "b div BPB = a div BPB \<Longrightarrow> used s b \<longleftrightarrow> in_use (content s ?B) (b mod BPB)"
      unfolding used_def using BBLOCK_inj [OF m b a(1)] by simp
    ultimately show ?thesis using same_block_mod [of b a] by (auto split: if_splits)
  qed
  show "map_ok s'" unfolding map_ok_def sb L(7) using m u by (auto simp: map_ok_def)
qed


lemma balloc_takes:
  assumes "tx s" "map_ok s" "room (Suc (Suc k)) s" "\<exists>b < unat (sb_size (sb s)). \<not> used s b"
  shows "\<exists>a s'. balloc 1 s = Ret (of_nat a, s') \<and> takes a s s'"
  using balloc_loop_spec [OF assms, of 0] unfolding balloc_def by simp

text \<open>
  C2: the block allocator. Inside a transaction with room for two more blocks, and as long as
  the bitmap has a free block, \<open>balloc\<close> returns; it hands out the first free block, which
  is no block of the bitmap and none of the log, marks it used and zeroes it, and changes
  neither the state nor the content of any other block.
\<close>

theorem balloc_fresh:
  assumes "tx s" "map_ok s" "room 2 s" "\<exists>b < unat (sb_size (sb s)). \<not> used s b"
  shows "\<exists>a s'. balloc 1 s = Ret (a, s') \<and> unat a < unat (sb_size (sb s)) \<and> \<not> used s (unat a) \<and> (\<forall>c < unat a. used s c) \<and>
    used s' (unat a) \<and> content s' a = replicate BSIZE 0 \<and> good s a \<and> a \<noteq> BBLOCK a (sb s) \<and>
    (\<forall>c < unat (sb_size (sb s)). c \<noteq> unat a \<longrightarrow> used s' c = used s c) \<and>
    (\<forall>n. n \<noteq> a \<longrightarrow> n \<noteq> BBLOCK a (sb s) \<longrightarrow> content s' n = content s n) \<and> tx s' \<and> map_ok s' \<and> sb s' = sb s"
proof -
  obtain a s' where b: "balloc 1 s = Ret (of_nat a, s')" "takes a s s'" using balloc_takes [of s 0] assms by (auto simp: numeral_2_eq_2)
  note T = takesD [OF assms(1,2) b(2)]
  have "\<forall>c < a. used s c" using b(2) by (simp add: takes_def)
  moreover have "good s (of_nat a)" "of_nat a \<noteq> BBLOCK (of_nat a) (sb s)" using map_okD(2,3) [OF assms(2) T(2,3)] T(2) by simp_all
  ultimately show ?thesis using b(1) T by (intro exI [of _ "of_nat a"] exI [of _ s']) simp
qed

text \<open>The superblock in memory is the one on the disk, in block 1, which is neither free nor part of the bitmap.\<close>

definition sb_ok :: "'a fs_state_scheme \<Rightarrow> bool" where
  "sb_ok s \<longleftrightarrow> get_superblock (content s 1) = sb s \<and> 1 < disksize s \<and> used s 1 \<and> 1 < unat (sb_size (sb s)) \<and>
     (\<forall>c < unat (sb_size (sb s)). BBLOCK (of_nat c) (sb s) \<noteq> 1)"

lemma of_nat_not_1: "unat (of_nat a :: u32) = a \<Longrightarrow> a \<noteq> 1 \<Longrightarrow> (1 :: u32) \<noteq> of_nat a"
  by (metis unat_1)

lemma sb_ok_takes:
  assumes "tx s" "map_ok s" "takes a s s'" "sb_ok s"
  shows "sb_ok s'"
proof -
  note T = takesD [OF assms(1-3)]
  have "a \<noteq> 1" using T(3) assms(4) by (auto simp: sb_ok_def)
  then have "content s' 1 = content s 1" using T(8) [OF of_nat_not_1 [OF T(4)]] assms(4) T(2) by (auto simp: sb_ok_def)
  then show ?thesis using assms(4) T(6,9) logsD(6) [OF T(1)] by (simp add: sb_ok_def)
qed

lemma readsb_spec:
  assumes "tx s" "sb_ok s"
  shows "\<exists>s'. readsb 1 s = Ret (sb s, s') \<and> logs [] s s' \<and> inodes s' = inodes s"
  using get_block [OF assms(1), of 1] assms(2) by (auto simp: readsb_def sb_ok_def)

lemma set_sb_same: "sb s = x \<Longrightarrow> s\<lparr>sb := x\<rparr> = s" by (cases s) simp

lemma bfree_frees:
  assumes tx: "tx s" and m: "map_ok s" and sb: "sb_ok s" and room: "room (Suc k) s" and b: "b < unat (sb_size (sb s))" "used s b"
  shows "\<exists>s'. bfree 1 (of_nat b) s = Ret s' \<and> inodes s' = inodes s \<and>
    logs [(BBLOCK (of_nat b) (sb s), mark_free (b mod BPB) (content s (BBLOCK (of_nat b) (sb s))))] s s'"
proof -
  let ?B = "BBLOCK (of_nat b) (sb s)"
  obtain s1 where r: "readsb 1 s = Ret (sb s, s1)" "logs [] s s1" "inodes s1 = inodes s" using readsb_spec [OF tx sb] by blast
  note N = logs_nil [OF r(2,3)]
  have "good s1 ?B" using map_okD(1) [OF m b(1)] logsD(7) [OF r(2)] by simp
  from put_block [OF logsD(1) [OF r(2)] this N(6) [OF room], of "mark_free (b mod BPB)"] txD(6) [OF logsD(1) [OF r(2)]] obtain i s2 s3 s4 where p:
    "bread 1 ?B s1 = Ret (i, s2)" "bdata (bufs s2 ! i) = content s1 ?B" "log_write i (set_data i (mark_free (b mod BPB)) s2) = Ret s3"
    "brelse i s3 = Ret s4" "logs [(?B, mark_free (b mod BPB) (content s1 ?B))] s1 s4" "inodes s4 = inodes s1" by auto
  have "in_use (content s ?B) (b mod BPB)" using b(2) by (simp add: used_def)
  moreover have e: "s1\<lparr>sb := sb s\<rparr> = s1" by (rule set_sb_same [OF N(2)])
  ultimately have "bfree 1 (of_nat b) s = Ret s4"
    unfolding bfree_def by (simp add: r(1) p(1-4) N(1,2) e of_nat_unat_less [OF b(1)] Let_def del: fs_state.update_convs)
  then show ?thesis using p(5,6) logs_trans [OF r(2) p(5)] r(3) N(1) by (intro exI [of _ s4]) simp
qed


lemma bfree_free:
  assumes tx: "tx s" and m: "map_ok s" and sb: "sb_ok s" and b: "b < unat (sb_size (sb s))" "\<not> used s b"
  shows "bfree 1 (of_nat b) s = Panic ''freeing free block''"
proof -
  let ?B = "BBLOCK (of_nat b) (sb s)"
  obtain s1 where r: "readsb 1 s = Ret (sb s, s1)" "logs [] s s1" "inodes s1 = inodes s" using readsb_spec [OF tx sb] by blast
  note N = logs_nil [OF r(2,3)]
  have "?B < disksize s1" using map_okD(1) [OF m b(1)] logsD(6) [OF r(2)] by (simp add: good_def)
  from get_block [OF logsD(1) [OF r(2)] this] obtain i s2 where p: "bread 1 ?B s1 = Ret (i, s2)" "bdata (bufs s2 ! i) = content s1 ?B" by blast
  have "\<not> in_use (content s ?B) (b mod BPB)" using b(2) by (simp add: used_def)
  moreover have e: "s1\<lparr>sb := sb s\<rparr> = s1" by (rule set_sb_same [OF N(2)])
  ultimately show ?thesis
    unfolding bfree_def by (simp add: r(1) p N(1,2) e of_nat_unat_less [OF b(1)] Let_def del: fs_state.update_convs)
qed

lemma mark_free_used:
  assumes "\<not> in_use d bi"
  shows "mark_free bi (mark_used bi d) = d"
proof (cases "bi div 8 < length d")
  case True
  let ?x = "d ! (bi div 8)" and ?m = "2 ^ (bi mod 8) :: u8"
  have "(?x OR ?m) AND NOT ?m = ?x"
  proof (rule bit_word_eqI)
    fix n assume "n < LENGTH(8)"
    then show "bit ((?x OR ?m) AND NOT ?m) n = bit ?x n"
      using assms bit_mask8 [of "bi mod 8" n] by (auto simp: in_use_bit bit_and_iff bit_or_iff bit_not_iff)
  qed
  then show ?thesis using True by (simp add: mark_free_def mark_used_def)
qed (simp add: mark_free_def mark_used_def list_update_beyond)

text \<open>
  C21: allocating and freeing are inverse. With room for three blocks in the transaction, the block
  that \<open>balloc\<close> hands out can be given back with \<open>bfree\<close>; afterwards the bitmap and every
  block but the one that was handed out are what they were, and freeing it once more panics.
\<close>

theorem balloc_bfree:
  assumes tx: "tx s" and m: "map_ok s" and sb: "sb_ok s" and room: "room 3 s" and free: "\<exists>b < unat (sb_size (sb s)). \<not> used s b"
  shows "\<exists>a s1 s2. balloc 1 s = Ret (a, s1) \<and> bfree 1 a s1 = Ret s2 \<and> (\<forall>c < unat (sb_size (sb s)). used s2 c = used s c) \<and>
    (\<forall>n. n \<noteq> a \<longrightarrow> content s2 n = content s n) \<and> bfree 1 a s2 = Panic ''freeing free block''"
proof -
  have r3: "room (Suc (Suc 1)) s" using room by (simp add: numeral_3_eq_3)
  obtain a s1 where b: "balloc 1 s = Ret (of_nat a, s1)" "takes a s s1" using balloc_takes [OF tx m r3 free] by blast
  note T = takesD [OF tx m b(2)]
  let ?B = "BBLOCK (of_nat a) (sb s)"
  have sb1: "sb_ok s1" using sb_ok_takes [OF tx m b(2) sb] .
  have a1: "a < unat (sb_size (sb s1))" "used s1 a" using T(2,6,9) by simp_all
  have "room (Suc 0) s1" using logs_room [OF T(1), of 1] room by (simp add: numeral_3_eq_3)
  from bfree_frees [OF T(11,10) sb1 this a1] T(6) obtain s2 where f: "bfree 1 (of_nat a) s1 = Ret s2" "inodes s2 = inodes s1"
    "logs [(?B, mark_free (a mod BPB) (content s1 ?B))] s1 s2" by auto
  have ne: "of_nat a \<noteq> BBLOCK (of_nat c) (sb s)" if "c < unat (sb_size (sb s))" for c using map_okD(3) [OF m T(2,3) that] .
  have "content s1 ?B = mark_used (a mod BPB) (content s ?B)" using logsD(2) [OF T(1)] ne [OF T(2)] by simp
  moreover have "\<not> in_use (content s ?B) (a mod BPB)" using T(3) by (simp add: used_def)
  ultimately have "mark_free (a mod BPB) (content s1 ?B) = content s ?B" using mark_free_used by simp
  then have c2: "content s2 = (content s1)(?B := content s ?B)" using logsD(2) [OF f(3)] by simp
  then have c: "content s2 n = content s n" if "n \<noteq> of_nat a" for n using T(8) that by simp
  have s2: "sb s2 = sb s" "tx s2" "good s2 = good s" using logsD(1,5,7) [OF f(3)] logsD(7) [OF T(1)] T(6) by simp_all
  have u: "used s2 x = used s x" if "x < unat (sb_size (sb s))" for x using c [of "BBLOCK (of_nat x) (sb s)"] ne [OF that] s2 by (simp add: used_def)
  have m2: "map_ok s2" using m u unfolding map_ok_def s2 by simp
  have "a \<noteq> 1" using T(3) sb by (auto simp: sb_ok_def)
  then have "content s2 1 = content s 1" using c [OF of_nat_not_1 [OF T(4)]] by simp
  then have "sb_ok s2" using sb u s2 logsD(6) [OF f(3)] logsD(6) [OF T(1)] by (simp add: sb_ok_def)
  from bfree_free [OF s2(2) m2 this, of a] have "bfree 1 (of_nat a) s2 = Panic ''freeing free block''" using T(2,3) s2 u by simp
  then show ?thesis using b(1) f(1) c u by blast
qed


section \<open>Inodes on the disk\<close>

lemma length_fold_put32 [simp]: "length (fold (\<lambda>j d. put32 d (a + 4 * j) (f j)) js d) = length d"
  by (induction js arbitrary: d) simp_all

lemma nth_fold_put32: "x < a \<or> a + 4 * n \<le> x \<Longrightarrow> fold (\<lambda>j d. put32 d (a + 4 * j) (f j)) [0..<n] d ! x = d ! x"
  by (induction n) (auto simp: nth_put32)

lemma get32_addrs:
  "k < n \<Longrightarrow> a + 4 * n \<le> length d \<Longrightarrow> get32 (fold (\<lambda>j d. put32 d (a + 4 * j) (f j)) [0..<n] d) (a + 4 * k) = f k"
proof (induction n)
  case (Suc n)
  then show ?case by (cases "k = n") simp_all
qed simp

lemma get_put_addrs:
  assumes "a + 52 \<le> length d"
  shows "length (put_addrs as a d) = length d" "j < 13 \<Longrightarrow> get32 (put_addrs as a d) (a + 4 * j) = as ! j"
    "x + 4 \<le> a \<or> a + 52 \<le> x \<Longrightarrow> get32 (put_addrs as a d) x = get32 d x"
    "x + 2 \<le> a \<or> a + 52 \<le> x \<Longrightarrow> get16 (put_addrs as a d) x = get16 d x"
  using assms get32_addrs [of j 13 a d "(!) as"] unfolding put_addrs_def
  by (auto simp: get32_def get16_def nth_fold_put32 del: upt_Suc)

lemma length_put_dinode [simp]: "k < IPB \<Longrightarrow> length d = BSIZE \<Longrightarrow> length (put_dinode x k d) = BSIZE"
  by (simp add: put_dinode_def Let_def get_put_addrs(1))

lemma nth_put_dinode: "x < 64 * k \<or> 64 * k + 64 \<le> x \<Longrightarrow> put_dinode y k d ! x = d ! x"
  unfolding put_dinode_def put_addrs_def Let_def by (subst nth_fold_put32; force simp: nth_put32 nth_put16)

lemma get_put_dinode:
  assumes "k < IPB" "length d = BSIZE" "length (daddrs x) = NDIRECT + 1"
  shows "get_dinode (put_dinode x k d) k = x"
proof -
  have a: "64 * k + 12 + 52 \<le> 512" using assms(1) by simp
  have "map (\<lambda>j. get32 (put_dinode x k d) (64 * k + 12 + 4 * j)) [0..<13] = daddrs x"
    using assms a by (intro nth_equalityI) (simp_all add: put_dinode_def Let_def get_put_addrs del: upt_Suc)
  then show ?thesis using assms a
    by (cases x) (simp add: get_dinode_def put_dinode_def Let_def get_put_addrs del: upt_Suc)
qed

lemma get_put_dinode_other:
  assumes "k < IPB" "j < IPB" "j \<noteq> k" "length d = BSIZE"
  shows "get_dinode (put_dinode x k d) j = get_dinode d j"
proof -
  have a: "64 * k + 12 + 52 \<le> 512" using assms(1) by simp
  have d: "64 * j + 64 \<le> 64 * k \<or> 64 * k + 64 \<le> 64 * j" using assms(3) by linarith
  have n: "put_dinode x k d ! (64 * j + i) = d ! (64 * j + i)" if "i < 64" for i
    using nth_put_dinode [of "64 * j + i" k x d] d that by linarith
  have "get32 (put_dinode x k d) (64 * j + i) = get32 d (64 * j + i)" if "i + 4 \<le> 64" for i
    using n [of i] n [of "i + 1"] n [of "i + 2"] n [of "i + 3"] that by (simp add: get32_def add.assoc)
  moreover have "get16 (put_dinode x k d) (64 * j + i) = get16 d (64 * j + i)" if "i + 2 \<le> 64" for i
    using n [of i] n [of "i + 1"] that by (simp add: get16_def add.assoc)
  moreover from this [of 0] this [of 2] have "get16 (put_dinode x k d) (64 * j) = get16 d (64 * j)"
    "get16 (put_dinode x k d) (Suc (Suc (64 * j))) = get16 d (Suc (Suc (64 * j)))" by simp_all
  ultimately show ?thesis
    unfolding get_dinode_def Let_def by (simp add: add.assoc del: upt_Suc)
qed


lemma fs_upd [simp]:
  "bio_ok H (s\<lparr>inodes := ns\<rparr>) = bio_ok H s" "content (s\<lparr>inodes := ns\<rparr>) = content s" "dirty_blocks (s\<lparr>inodes := ns\<rparr>) = dirty_blocks s"
  by (rule bio_cong; simp add: curproc_def)+

lemma tx_inodes [simp]: "tx (s\<lparr>inodes := ns\<rparr>) = tx s"
  by (simp add: tx_def trans_ok_def log_ok_def log_area_def)

lemma upd_inode_simps [simp]:
  "inodes (upd_inode i f s) = (inodes s)[i := f (inodes s ! i)]" "sb (upd_inode i f s) = sb s" "content (upd_inode i f s) = content s"
  "tx (upd_inode i f s) = tx s" "slocks (upd_inode i f s) = slocks s" "disksize (upd_inode i f s) = disksize s" "log_area (upd_inode i f s) = log_area s"
  "room k (upd_inode i f s) = room k s" "disk (upd_inode i f s) = disk s" "trace (upd_inode i f s) = trace s" "lhn (upd_inode i f s) = lhn s"
  by (simp_all add: upd_inode_def log_area_def room_def)

lemma bio_only_inodes:
  assumes "bio_only s s'"
  shows "bio_only (s\<lparr>inodes := ns\<rparr>) (s'\<lparr>inodes := ns\<rparr>)"
proof -
  obtain ps sl bf dk tr where x: "s' = s\<lparr>procs := ps, slocks := sl, bufs := bf, disk := dk, trace := tr\<rparr>"
    "woken (procs s) ps" "\<forall>l. (\<forall>i. l \<noteq> BufLock i) \<longrightarrow> sl l = slocks s l" using assms unfolding bio_only_def by auto
  show ?thesis unfolding x(1) by (intro bio_onlyI) (use x(2,3) in simp_all)
qed

text \<open>A block is read, the inode cache may change, and the block is released.\<close>

lemma get_block_inodes:
  assumes "tx s" "n < disksize s"
  shows "\<exists>i s1. bread 1 n s = Ret (i, s1) \<and> bdata (bufs s1 ! i) = content s n \<and> inodes s1 = inodes s \<and> sb s1 = sb s \<and>
    (\<forall>ns. \<exists>s2. brelse i (s1\<lparr>inodes := ns\<rparr>) = Ret s2 \<and> logs [] (s\<lparr>inodes := ns\<rparr>) s2 \<and> inodes s2 = ns)"
proof -
  note t = txD [OF assms(1)]
  obtain i s1 where r: "bread 1 n s = Ret (i, s1)" using bread_in_trans [OF t(1,2), of n] t(4) assms(2) by auto
  note b = bread_spec [OF t(1) r]
  have "\<exists>s2. brelse i (s1\<lparr>inodes := ns\<rparr>) = Ret s2 \<and> logs [] (s\<lparr>inodes := ns\<rparr>) s2 \<and> inodes s2 = ns" for ns
  proof -
    let ?s = "s\<lparr>inodes := ns\<rparr>" and ?s1 = "s1\<lparr>inodes := ns\<rparr>"
    have "bio_ok {i} ?s1" "is_for n (bufs ?s1 ! i)" "n \<in> dirty_blocks ?s1 \<or> content ?s1 n = disk ?s1 n" using b by auto
    from brelse_spec [OF this(1) _ this(2,3)] obtain s2 where s2: "brelse i ?s1 = Ret s2" "bio_ok {} s2" "content s2 = content s" "dirty_blocks s2 = dirty_blocks s"
      "disk s2 = disk s" "trace s2 = trace s" "bio_only ?s1 s2" using b by auto
    have o: "bio_only ?s s2" using bio_only_trans [OF bio_only_inodes [OF b(11)] s2(7)] .
    have "tx s2" using bio_only_trans_ok [OF o] s2(2,4) assms(1) tx_inodes [of ns s] by (simp add: tx_def)
    then have "logs [] ?s s2" using s2 o by (intro logs_bio_only) simp_all
    moreover have "inodes s2 = ns" using o by (auto simp: bio_only_def)
    ultimately show ?thesis using s2(1) by blast
  qed
  moreover have "inodes s1 = inodes s" "sb s1 = sb s" using b(11) by (auto simp: bio_only_def)
  ultimately show ?thesis using r b(5) by blast
qed

lemma inode_lock_simps [simp]:
  "content (upd_slock (InodeLock i) f s) = content s" "tx (upd_slock (InodeLock i) f s) = tx s" "inodes (upd_slock (InodeLock i) f s) = inodes s"
  "sb (upd_slock (InodeLock i) f s) = sb s" "disksize (upd_slock (InodeLock i) f s) = disksize s"
proof -
  let ?s = "upd_slock (InodeLock i) f s"
  have b: "bufs ?s = bufs s" "disk ?s = disk s" by (simp_all add: upd_slock_def)
  have n: "nxt ?s = nxt s" "prv ?s = prv s" by (simp_all add: fun_eq_iff nxt_def prv_def b)
  have h: "holdingsleep (BufLock l) ?s = holdingsleep (BufLock l) s" for l by (simp add: holdingsleep_def)
  show c: "content ?s = content s" by (simp add: fun_eq_iff content_def b cong: option.case_cong)
  have "dirty_blocks ?s = dirty_blocks s" by (simp add: dirty_blocks_def b)
  moreover have "bio_ok {} ?s = bio_ok {} s" by (simp add: bio_ok_def ring_def n h b)
  ultimately show "tx ?s = tx s" by (simp add: tx_def trans_ok_def log_ok_def log_area_def upd_slock_def)
  show "inodes ?s = inodes s" "sb ?s = sb s" "disksize ?s = disksize s" by (simp_all add: upd_slock_def)
qed


definition disk_inode :: "'a fs_state_scheme \<Rightarrow> u32 \<Rightarrow> dinode" where
  "disk_inode s n = get_dinode (content s (IBLOCK n (sb s))) (unat n mod IPB)"

lemma IBLOCK_inj: "IBLOCK n x = IBLOCK m x \<longleftrightarrow> unat n div 8 = unat m div 8"
proof -
  have "IBLOCK n x = IBLOCK m x \<longleftrightarrow> n div 8 = m div 8" by (simp add: IBLOCK_def)
  then show ?thesis by (simp add: word_unat_eq_iff unat_div)
qed

lemma iupdate_spec:
  assumes tx: "tx s" and d: "idev (inodes s ! i) = 1" and g: "good s (IBLOCK (inum (inodes s ! i)) (sb s))" and r: "room (Suc k) s"
    and len: "length (iaddrs (inodes s ! i)) = NDIRECT + 1"
  shows "\<exists>s'. iupdate i s = Ret s' \<and> inodes s' = inodes s \<and>
    logs [(IBLOCK (inum (inodes s ! i)) (sb s), put_dinode (inode_dinode (inodes s ! i)) (unat (inum (inodes s ! i)) mod IPB)
      (content s (IBLOCK (inum (inodes s ! i)) (sb s))))] s s' \<and>
    (\<forall>n. disk_inode s' n = (if n = inum (inodes s ! i) then inode_dinode (inodes s ! i) else disk_inode s n))"
proof -
  let ?n = "inum (inodes s ! i)"
  let ?B = "IBLOCK ?n (sb s)" and ?f = "put_dinode (inode_dinode (inodes s ! i)) (unat ?n mod IPB)"
  have len': "length (content s ?B) = BSIZE" using txD(6) [OF tx] .
  then obtain b s1 s2 s3 where p: "bread 1 ?B s = Ret (b, s1)" "log_write b (set_data b ?f s1) = Ret s2" "brelse b s2 = Ret s3"
    "logs [(?B, ?f (content s ?B))] s s3" "inodes s1 = inodes s" "inodes s3 = inodes s" using put_block [OF tx g r, of ?f] by auto
  have "iupdate i s = Ret s3" unfolding iupdate_def d by (simp add: p Let_def)
  moreover have "disk_inode s3 n = (if n = ?n then inode_dinode (inodes s ! i) else disk_inode s n)" for n
  proof -
    have c: "content s3 = (content s)(?B := ?f (content s ?B))" and sb: "sb s3 = sb s" using logsD(2,5) [OF p(4)] by simp_all
    have l: "length (daddrs (inode_dinode (inodes s ! i))) = NDIRECT + 1" using len by (simp add: inode_dinode_def)
    show ?thesis
    proof (cases "unat n div 8 = unat ?n div 8")
      case True
      then have B: "IBLOCK n (sb s) = ?B" by (simp add: IBLOCK_inj)
      have "n = ?n \<longleftrightarrow> unat n mod 8 = unat ?n mod 8" using True same_bit [of "unat n" "unat ?n"] by (auto simp: word_unat_eq_iff)
      then show ?thesis unfolding disk_inode_def c sb B
        using get_put_dinode [OF _ len' l] get_put_dinode_other [OF _ _ _ len', of "unat ?n mod IPB" "unat n mod IPB"] by auto
    next
      case False
      then have "IBLOCK n (sb s) \<noteq> ?B" "n \<noteq> ?n" by (auto simp: IBLOCK_inj)
      then show ?thesis by (simp add: disk_inode_def c sb)
    qed
  qed
  ultimately show ?thesis using p(4,6) by blast
qed

lemma ilock_loads:
  assumes tx: "tx s" and i: "i < length (inodes s)" "iref (inodes s ! i) \<ge> 1" "slocked (slocks s (InodeLock i)) = 0" "\<not> ivalid (inodes s ! i)"
    and d: "idev (inodes s ! i) = 1" "IBLOCK (inum (inodes s ! i)) (sb s) < disksize s" and t: "dtype (disk_inode s (inum (inodes s ! i))) \<noteq> 0"
  shows "\<exists>s'. ilock i s = Ret s' \<and> tx s' \<and> content s' = content s \<and> sb s' = sb s \<and> holdingsleep (InodeLock i) s' \<and>
    (\<exists>ip. inodes s' = (inodes s)[i := ip] \<and> inode_dinode ip = disk_inode s (inum (inodes s ! i)) \<and> ivalid ip \<and>
      inum ip = inum (inodes s ! i) \<and> idev ip = 1 \<and> iref ip = iref (inodes s ! i))"
proof -
  obtain c where c: "curproc s = Some c" using bio_okD(3) [OF txD(1) [OF tx]] by blast
  define s0 where "s0 = upd_slock (InodeLock i) (\<lambda>k. k\<lparr>slocked := 1, slpid := pid (procs s ! c)\<rparr>) s"
  have a: "acquiresleep_now (InodeLock i) s = Ret s0" unfolding s0_def using acquiresleep_now_eq [OF i(3) c] .
  have S: "tx s0" "content s0 = content s" "inodes s0 = inodes s" "sb s0 = sb s" "disksize s0 = disksize s" using tx by (simp_all add: s0_def)
  let ?n = "inum (inodes s ! i)"
  let ?D = "disk_inode s ?n"
  obtain b s1 where p: "bread 1 (IBLOCK ?n (sb s)) s0 = Ret (b, s1)" "bdata (bufs s1 ! b) = content s (IBLOCK ?n (sb s))"
    "inodes s1 = inodes s" "sb s1 = sb s" "\<forall>ns. \<exists>s2. brelse b (s1\<lparr>inodes := ns\<rparr>) = Ret s2 \<and> logs [] (s0\<lparr>inodes := ns\<rparr>) s2 \<and> inodes s2 = ns"
    using get_block_inodes [OF S(1), of "IBLOCK ?n (sb s)"] d(2) S by auto
  define ip where "ip = (inodes s ! i)\<lparr>itype := dtype ?D, imajor := dmajor ?D, iminor := dminor ?D, inlink := dnlink ?D, isize := dsize ?D, iaddrs := daddrs ?D\<rparr>"
  obtain s2 where s2: "brelse b (s1\<lparr>inodes := (inodes s)[i := ip]\<rparr>) = Ret s2" "logs [] (s0\<lparr>inodes := (inodes s)[i := ip]\<rparr>) s2" "inodes s2 = (inodes s)[i := ip]"
    using p(5) by blast
  have u: "upd_inode i (\<lambda>x. x\<lparr>itype := dtype ?D, imajor := dmajor ?D, iminor := dminor ?D, inlink := dnlink ?D, isize := dsize ?D, iaddrs := daddrs ?D\<rparr>) s1
      = s1\<lparr>inodes := (inodes s)[i := ip]\<rparr>" by (simp add: upd_inode_def p(3) ip_def)
  let ?s' = "upd_inode i (\<lambda>x. x\<lparr>ivalid := True\<rparr>) s2"
  have D: "get_dinode (content s (IBLOCK ?n (sb s))) (unat ?n mod 8) = ?D" by (simp add: disk_inode_def)
  have ty: "itype ip = dtype ?D" by (simp add: ip_def)
  have r: "ilock i s = Ret ?s'"
    unfolding ilock_def using i t ty by (simp add: a S p(1-4) d(1) D u s2 Let_def)
  have "slocked (slocks s2 (InodeLock i)) \<noteq> 0" using logsD(11) [OF s2(2)] by (simp add: s0_def)
  then have h: "holdingsleep (InodeLock i) ?s'" by (simp add: holdingsleep_def)
  have m: "inode_dinode (ip\<lparr>ivalid := True\<rparr>) = ?D" by (simp add: ip_def inode_dinode_def)
  have ns: "inodes ?s' = (inodes s)[i := ip\<lparr>ivalid := True\<rparr>]" using i(1) by (simp add: s2(3))
  show ?thesis
    using r h m ns logsD(1,2,5) [OF s2(2)] S d(1)
    by (intro exI [of _ ?s'] conjI exI [of _ "ip\<lparr>ivalid := True\<rparr>"]) (simp_all add: ip_def)
qed


text \<open>A cache entry for inode \<open>n\<close> that is in use, unlocked and not read from the disk yet.\<close>

definition unloaded :: "'a fs_state_scheme \<Rightarrow> nat \<Rightarrow> u32 \<Rightarrow> bool" where
  "unloaded s j n \<longleftrightarrow> j < length (inodes s) \<and> iref (inodes s ! j) \<ge> 1 \<and> slocked (slocks s (InodeLock j)) = 0 \<and>
     \<not> ivalid (inodes s ! j) \<and> idev (inodes s ! j) = 1 \<and> inum (inodes s ! j) = n"

text \<open>
  C8: inodes survive the trip to the disk. \<open>iupdate\<close> returns and changes no other inode on the
  disk; and any later \<open>ilock\<close> of a cache entry that has to read the inode again, whatever
  happened to the cache in between, returns with exactly the type, device numbers, link
  count, size and block addresses that were written.
\<close>

theorem inode_roundtrip:
  fixes s :: "'a fs_state_scheme"
  assumes "tx s" "idev (inodes s ! i) = 1" "good s (IBLOCK (inum (inodes s ! i)) (sb s))" "room 1 s"
    "length (iaddrs (inodes s ! i)) = NDIRECT + 1" "itype (inodes s ! i) \<noteq> 0"
  shows "\<exists>s'. iupdate i s = Ret s' \<and> (\<forall>n. n \<noteq> inum (inodes s ! i) \<longrightarrow> disk_inode s' n = disk_inode s n) \<and>
    (\<forall>(t :: 'a fs_state_scheme) j. tx t \<and> content t = content s' \<and> sb t = sb s' \<and> disksize t = disksize s' \<and> unloaded t j (inum (inodes s ! i)) \<longrightarrow>
      (\<exists>t'. ilock j t = Ret t' \<and> holdingsleep (InodeLock j) t' \<and> inode_dinode (inodes t' ! j) = inode_dinode (inodes s ! i)))"
proof -
  let ?n = "inum (inodes s ! i)"
  obtain s' where s': "iupdate i s = Ret s'" "sb s' = sb s" "disksize s' = disksize s"
    "\<forall>n. disk_inode s' n = (if n = ?n then inode_dinode (inodes s ! i) else disk_inode s n)"
    using iupdate_spec [OF assms(1-3) _ assms(5), of 0] assms(4) by (auto dest: logsD(5,6))
  have "\<exists>t'. ilock j t = Ret t' \<and> holdingsleep (InodeLock j) t' \<and> inode_dinode (inodes t' ! j) = inode_dinode (inodes s ! i)"
    if t: "tx t" "content t = content s'" "sb t = sb s'" "disksize t = disksize s'" "unloaded t j ?n" for t :: "'a fs_state_scheme" and j
  proof -
    have u: "j < length (inodes t)" "iref (inodes t ! j) \<ge> 1" "slocked (slocks t (InodeLock j)) = 0" "\<not> ivalid (inodes t ! j)" "idev (inodes t ! j) = 1"
      "inum (inodes t ! j) = ?n" using t(5) by (simp_all add: unloaded_def)
    have d: "disk_inode t ?n = inode_dinode (inodes s ! i)" using s'(4) t(2,3) by (simp add: disk_inode_def)
    then have "dtype (disk_inode t (inum (inodes t ! j))) \<noteq> 0" using assms(6) u(6) by (simp add: inode_dinode_def)
    moreover have "IBLOCK (inum (inodes t ! j)) (sb t) < disksize t" using assms(3) t s' u(6) by (simp add: good_def)
    ultimately obtain t' ip where "ilock j t = Ret t'" "holdingsleep (InodeLock j) t'" "inodes t' = (inodes t)[j := ip]" "inode_dinode ip = disk_inode t ?n"
      using ilock_loads [OF t(1) u(1-5)] u(6) by auto
    then show ?thesis using d u(1) by auto
  qed
  then show ?thesis using s' by auto
qed


section \<open>The claims at work\<close>

text \<open>
  A small file system of 100 blocks: log in 2 to 31, inodes in 32 and 33, the bitmap in 34, data
  blocks from 35. One inode is open.
\<close>

definition sb_demo :: superblock where
  "sb_demo = \<lparr>sb_size = 100, sb_nblocks = 65, sb_ninodes = 16, sb_nlog = 30, sb_logstart = 2, sb_inodestart = 32, sb_bmapstart = 34\<rparr>"

definition sb_block :: block where
  "sb_block = put32 (put32 (put32 (put32 (put32 (put32 (put32 (replicate BSIZE 0) 0 100) 4 65) 8 16) 12 30) 16 2) 20 32) 24 34"

definition map_demo :: block where
  "map_demo = [0xff, 0xff, 0xff, 0xff, 0x07] @ replicate 507 0"

definition inode_demo :: inode where
  "inode_demo = \<lparr>idev = 1, inum = 1, iref = 1, ivalid = True, itype = T_FILE, imajor = 0, iminor = 0, inlink = 1, isize = 0,
     iaddrs = replicate 13 0\<rparr>"

definition disk_demo :: "u32 \<Rightarrow> block" where
  "disk_demo n = (if n = 1 then sb_block else if n = 34 then map_demo else replicate BSIZE 0)"

definition fs_demo :: "'a \<Rightarrow> 'a fs_state_scheme" where
  "fs_demo m = binit \<lparr>mem = (\<lambda>_. 0), freelist = 0, use_lock = True, kend = 0x80115000, kpgdir = 0x803ff000, kdata = 0x80109000,
     procs = [first_proc\<lparr>pstate := RUNNING\<rparr>], initproc = Some 0, nextpid = 2, this = 0, cpu_proc = (\<lambda>_. None)(0 := Some 0),
     sched_pos = (\<lambda>_. 0), sched_idle = (\<lambda>_. True), halted = (\<lambda>_. False), cr3 = (\<lambda>_. 0), esp0 = (\<lambda>_. 0), trapret = 0x80105000, forkret = 0x80103000,
     slocks = (\<lambda>_. \<lparr>slocked = 0, slpid = 0\<rparr>), pipes = (\<lambda>_. None), bufs = replicate (NBUF + 1) zero_buf,
     disk = disk_demo, disksize = 1000, trace = [], lstart = 2, lsize = 30, loutstanding = 1, lcommitting = False, ldev = 1, lhn = 0,
     lhblock = replicate LOGSIZE 0, sb = sb_demo, inodes = [inode_demo], \<dots> = m\<rparr>"

lemma binit_slocks [simp]: "slocks (binit s) (InodeLock i) = slocks s (InodeLock i)"
proof -
  have "slocks (fold (\<lambda>i s. link_front i (initsleeplock (BufLock i) s)) xs t) (InodeLock i) = slocks t (InodeLock i)" for xs and t :: "'a bio_state_scheme"
    by (induction xs arbitrary: t) (simp_all add: link_front_def initsleeplock_def Let_def)
  then show ?thesis by (simp add: binit_def Let_def)
qed

lemma binit_fs [simp]: "sb (binit s) = sb s" "inodes (binit s) = inodes s" "disksize (binit t) = disksize t"
  by (rule binit_keeps, simp)+

lemma fs_demo_fields [simp]:
  "sb (fs_demo m) = sb_demo" "inodes (fs_demo m) = [inode_demo]" "disksize (fs_demo m) = 1000" "lstart (fs_demo m) = 2" "lsize (fs_demo m) = 30"
  "loutstanding (fs_demo m) = 1" "lhn (fs_demo m) = 0" "ldev (fs_demo m) = 1" "lhblock (fs_demo m) = replicate LOGSIZE 0"
  "slocks (fs_demo m) (InodeLock i) = \<lparr>slocked = 0, slpid = 0\<rparr>"
  by (simp_all add: fs_demo_def)

lemma disk_demo_length: "length (disk_demo n) = BSIZE"
  by (simp add: disk_demo_def sb_block_def map_demo_def)

lemma fs_demo_ok: "tx (fs_demo m)" "content (fs_demo m) = disk_demo" "room 29 (fs_demo m)"
proof -
  have b: "bio_ok {} (fs_demo m) \<and> content (fs_demo m) = disk_demo \<and> dirty_blocks (fs_demo m) = {}"
    unfolding fs_demo_def by (subst (asm) binit_ok | subst binit_ok; simp add: curproc_def disk_demo_length)+
  then show "content (fs_demo m) = disk_demo" by simp
  have "log_ok (fs_demo m)" unfolding log_ok_def by simp
  then show "tx (fs_demo m)" using b by (simp add: tx_def trans_ok_def)
  show "room 29 (fs_demo m)" by (simp add: room_def)
qed

lemma good_demo: "good (fs_demo m) n \<longleftrightarrow> unat n < 1000 \<and> (unat n < 2 \<or> 32 \<le> unat n)"
  by (auto simp: good_def log_area_def word_less_nat_alt)


lemma map_demo_bits: "b < 100 \<Longrightarrow> in_use map_demo b \<longleftrightarrow> b < 35"
proof -
  have "\<forall>b \<in> set [0..<100]. in_use map_demo b \<longleftrightarrow> b < 35" by code_simp
  then show "b < 100 \<Longrightarrow> in_use map_demo b \<longleftrightarrow> b < 35" by simp
qed

lemma BBLOCK_demo: "b < 100 \<Longrightarrow> BBLOCK (of_nat b) sb_demo = 34"
proof -
  assume "b < 100"
  then have "unat (of_nat b :: u32) = b" by (intro unat_of_nat_small) simp
  then have "(of_nat b :: u32) div 4096 = 0" using \<open>b < 100\<close> by (simp add: word_unat_eq_iff unat_div)
  then show ?thesis by (simp add: BBLOCK_def sb_demo_def)
qed

lemma used_demo: "b < 100 \<Longrightarrow> used (fs_demo m) b \<longleftrightarrow> b < 35"
  using map_demo_bits [of b] by (simp add: used_def BBLOCK_demo fs_demo_ok disk_demo_def)

lemma size_demo [simp]: "unat (sb_size sb_demo) = 100" "unat (sb_bmapstart sb_demo) = 34" by (simp_all add: sb_demo_def)

lemma map_demo_ok: "map_ok (fs_demo m)" "sb_ok (fs_demo m)" "\<exists>b < unat (sb_size (sb (fs_demo m))). \<not> used (fs_demo m) b"
proof -
  have s: "unat (of_nat b :: u32) = b" if "b < 100" for b using that by (intro unat_of_nat_small) simp
  show "map_ok (fs_demo m)" unfolding map_ok_def
  proof (intro conjI allI impI)
    fix b c assume "b < unat (sb_size (sb (fs_demo m)))" "\<not> used (fs_demo m) b" and c: "c < unat (sb_size (sb (fs_demo m)))"
    then have b: "b < 100" "35 \<le> b" using used_demo [of b m] by auto
    show "of_nat b \<noteq> BBLOCK (of_nat c) (sb (fs_demo m))" using BBLOCK_demo [of c] c s [OF b(1)] b(2) by (auto simp: word_unat_eq_iff)
  next
    fix b assume "b < unat (sb_size (sb (fs_demo m)))" "\<not> used (fs_demo m) b"
    then have b: "b < 100" "35 \<le> b" using used_demo [of b m] by auto
    then show "good (fs_demo m) (of_nat b)" using s by (simp add: good_demo)
  qed (simp_all add: BBLOCK_demo good_demo)
  have "get_superblock sb_block = sb_demo" by (simp add: get_superblock_def sb_block_def sb_demo_def)
  then show "sb_ok (fs_demo m)" using used_demo [of 1 m] by (simp add: sb_ok_def fs_demo_ok disk_demo_def BBLOCK_demo)
  show "\<exists>b < unat (sb_size (sb (fs_demo m))). \<not> used (fs_demo m) b" using used_demo [of 40 m] by (intro exI [of _ 40]) simp
qed

lemma demo_room: "k \<le> 29 \<Longrightarrow> room k (fs_demo m)"
  using room_mono [OF fs_demo_ok(3)] .

theorem balloc_fresh_witness: "\<exists>a s'. balloc 1 (fs_demo ()) = Ret (a, s') \<and> unat a \<ge> 35 \<and> content s' a = replicate BSIZE 0"
proof -
  obtain a s' where "balloc 1 (fs_demo ()) = Ret (a, s')" "unat a < 100" "\<not> used (fs_demo ()) (unat a)" "content s' a = replicate BSIZE 0"
    using balloc_fresh [OF fs_demo_ok(1) map_demo_ok(1) demo_room map_demo_ok(3), of "()"] by auto
  moreover from this have "unat a \<ge> 35" using used_demo [of "unat a" "()"] by auto
  ultimately show ?thesis by blast
qed

theorem balloc_bfree_witness:
  "\<exists>a s1 s2. balloc 1 (fs_demo ()) = Ret (a, s1) \<and> bfree 1 a s1 = Ret s2 \<and> bfree 1 a s2 = Panic ''freeing free block''"
  using balloc_bfree [OF fs_demo_ok(1) map_demo_ok(1,2) demo_room map_demo_ok(3), of "()"] by auto

theorem inode_roundtrip_witness:
  "\<exists>s'. iupdate 0 (fs_demo ()) = Ret s' \<and>
    (\<exists>t'. ilock 0 (upd_inode 0 (\<lambda>ip. ip\<lparr>ivalid := False, itype := 0, inlink := 7\<rparr>) s') = Ret t' \<and> inode_dinode (inodes t' ! 0) = inode_dinode inode_demo)"
proof -
  have g: "good (fs_demo ()) (IBLOCK 1 sb_demo)" by (simp add: good_demo IBLOCK_def sb_demo_def)
  have "\<exists>s'. iupdate 0 (fs_demo ()) = Ret s' \<and> inodes s' = inodes (fs_demo ()) \<and>
    logs [(IBLOCK (inum (inodes (fs_demo ()) ! 0)) (sb (fs_demo ())), put_dinode (inode_dinode (inodes (fs_demo ()) ! 0)) (unat (inum (inodes (fs_demo ()) ! 0)) mod IPB)
      (content (fs_demo ()) (IBLOCK (inum (inodes (fs_demo ()) ! 0)) (sb (fs_demo ())))))] (fs_demo ()) s'"
    using iupdate_spec [OF fs_demo_ok(1) [of "()"], of 0 0] demo_room [of 1 "()"] g by (auto simp: inode_demo_def)
  then obtain s' ws where r: "iupdate 0 (fs_demo ()) = Ret s'" "inodes s' = [inode_demo]" "logs ws (fs_demo ()) s'" by auto
  have s': "iupdate 0 (fs_demo ()) = Ret s'" "inodes s' = [inode_demo]" "tx s'" "slocks s' (InodeLock i) = \<lparr>slocked = 0, slpid = 0\<rparr>" for i
    using r logsD(1,11) [OF r(3)] by simp_all
  let ?t = "upd_inode 0 (\<lambda>ip. ip\<lparr>ivalid := False, itype := 0, inlink := 7\<rparr>) s'"
  have u: "unloaded ?t 0 1" using s' by (simp add: unloaded_def inode_demo_def)
  from inode_roundtrip [OF fs_demo_ok(1) [of "()"], of 0] demo_room [of 1 "()"] g obtain s'' where "iupdate 0 (fs_demo ()) = Ret s''" and
    L: "\<forall>(t :: fs_state) j. tx t \<and> content t = content s'' \<and> sb t = sb s'' \<and> disksize t = disksize s'' \<and> unloaded t j 1 \<longrightarrow>
      (\<exists>t'. ilock j t = Ret t' \<and> holdingsleep (InodeLock j) t' \<and> inode_dinode (inodes t' ! j) = inode_dinode inode_demo)"
    by (auto simp: inode_demo_def)
  then have "s'' = s'" using s'(1) by simp
  then have "\<exists>t'. ilock 0 ?t = Ret t' \<and> inode_dinode (inodes t' ! 0) = inode_dinode inode_demo"
    using L [rule_format, of ?t 0] u s'(3) by auto
  then show ?thesis using s'(1) by blast
qed

end
