(* ===== verification/Fsfile.thy ===== *)
theory Fsfile
  imports Fsblock
begin

text \<open>
  The contents of files, \<open>bmap\<close>, \<open>readi\<close> and \<open>writei\<close> of \<^verbatim>\<open>fs.c\<close>, seen as byte arrays. Block
  \<open>k\<close> of a file is found through the addresses of its inode, from the thirteenth block on
  through the indirect block; byte \<open>p\<close> of the file is byte \<open>p mod 512\<close> of block \<open>p div 512\<close>.
\<close>

section \<open>The blocks of a file\<close>

definition fblock :: "'a fs_state_scheme \<Rightarrow> nat \<Rightarrow> nat \<Rightarrow> u32" where
  "fblock s i k =
     (let as = iaddrs (inodes s ! i) in if k < NDIRECT then as ! k else get32 (content s (as ! NDIRECT)) (4 * (k - NDIRECT)))"

definition fbyte :: "'a fs_state_scheme \<Rightarrow> nat \<Rightarrow> nat \<Rightarrow> u8" where
  "fbyte s i p = content s (fblock s i (p div BSIZE)) ! (p mod BSIZE)"

text \<open>The first \<open>n\<close> blocks of the file are allocated, apart from each other and from the indirect block.\<close>

definition file_ok :: "'a fs_state_scheme \<Rightarrow> nat \<Rightarrow> nat \<Rightarrow> bool" where
  "file_ok s i n \<longleftrightarrow> n \<le> NDIRECT + NINDIRECT \<and> idev (inodes s ! i) = 1 \<and>
     (\<forall>k < n. fblock s i k \<noteq> 0 \<and> good s (fblock s i k)) \<and> inj_on (fblock s i) {..<n} \<and>
     (NDIRECT < n \<longrightarrow> iaddrs (inodes s ! i) ! NDIRECT \<noteq> 0 \<and> good s (iaddrs (inodes s ! i) ! NDIRECT) \<and>
        iaddrs (inodes s ! i) ! NDIRECT \<notin> fblock s i ` {..<n})"

lemma file_okD:
  assumes "file_ok s i n"
  shows "n \<le> NDIRECT + NINDIRECT" "idev (inodes s ! i) = 1" "\<And>k. k < n \<Longrightarrow> fblock s i k \<noteq> 0" "\<And>k. k < n \<Longrightarrow> good s (fblock s i k)"
    "\<And>j k. j < n \<Longrightarrow> k < n \<Longrightarrow> fblock s i j = fblock s i k \<Longrightarrow> j = k"
    "NDIRECT < n \<Longrightarrow> iaddrs (inodes s ! i) ! NDIRECT \<noteq> 0" "NDIRECT < n \<Longrightarrow> good s (iaddrs (inodes s ! i) ! NDIRECT)"
    "\<And>k. NDIRECT < n \<Longrightarrow> k < n \<Longrightarrow> iaddrs (inodes s ! i) ! NDIRECT \<noteq> fblock s i k"
  using assms unfolding file_ok_def inj_on_def by auto

text \<open>A change of other blocks, with the inode the same, leaves the blocks of the file where they are.\<close>

lemma file_ok_frame:
  assumes "file_ok s i n" "inodes t = inodes s" "good t = good s" "NDIRECT < n \<longrightarrow> content t (iaddrs (inodes s ! i) ! NDIRECT) = content s (iaddrs (inodes s ! i) ! NDIRECT)"
  shows "file_ok t i n" "k < n \<Longrightarrow> fblock t i k = fblock s i k"
proof -
  have f: "fblock t i k = fblock s i k" if "k < n" for k using that assms(2,4) by (auto simp: fblock_def Let_def)
  then show "k < n \<Longrightarrow> fblock t i k = fblock s i k" .
  have "fblock t i ` {..<n} = fblock s i ` {..<n}" using f by auto
  moreover have "inj_on (fblock t i) {..<n} = inj_on (fblock s i) {..<n}" using f by (intro inj_on_cong) auto
  ultimately show "file_ok t i n" using assms f unfolding file_ok_def by simp
qed

lemma bmap_mapped:
  assumes tx: "tx s" and f: "file_ok s i n" and k: "k < n"
  shows "\<exists>t. bmap i (of_nat k) s = Ret (fblock s i k, t) \<and> logs [] s t \<and> inodes t = inodes s"
proof -
  note F = file_okD [OF f]
  have u: "unat (of_nat k :: u32) = k" using k F(1) by (simp add: unat_of_nat_small)
  show ?thesis
  proof (cases "k < NDIRECT")
    case True
    then show ?thesis using F(3) [OF k] u logs_refl [OF tx] by (simp add: bmap_def fblock_def Let_def)
  next
    case False
    then have n: "NDIRECT < n" using k by simp
    define a where "a = iaddrs (inodes s ! i) ! NDIRECT"
    have a: "a \<noteq> 0" "a < disksize s" using F(6,7) [OF n] by (auto simp: a_def good_def)
    obtain b s1 s2 where r: "bread 1 a s = Ret (b, s1)" "bdata (bufs s1 ! b) = content s a" "brelse b s1 = Ret s2" "logs [] s s2" "inodes s2 = inodes s"
      using get_block [OF tx a(2)] by blast
    have fb: "fblock s i k = get32 (content s a) (4 * (k - NDIRECT))" using False by (simp add: fblock_def a_def Let_def)
    then show ?thesis using F(1-3) k u False a(1) r by (simp add: bmap_def Let_def a_def [symmetric] fb [symmetric])
  qed
qed

section \<open>Reading\<close>

lemma logs_Nil: "logs [] s t \<Longrightarrow> content t = content s"
  using logsD(2) [of "[]" s t] by simp

lemma same_place:
  assumes "j < BSIZE - off mod BSIZE"
  shows "(off + j) div BSIZE = off div BSIZE" "(off + j) mod BSIZE = off mod BSIZE + j"
proof -
  define q r where "q = off div BSIZE" and "r = off mod BSIZE"
  have e: "off + j = (r + j) + BSIZE * q" "r + j < BSIZE" using assms by (auto simp: q_def r_def)
  have "(off + j) div BSIZE = q" "(off + j) mod BSIZE = r + j" unfolding e(1) using e(2) by simp_all
  then show "(off + j) div BSIZE = off div BSIZE" "(off + j) mod BSIZE = off mod BSIZE + j"
    by (simp_all add: q_def [symmetric] r_def [symmetric])
qed

lemma chunk_bytes:
  assumes "m \<le> BSIZE - off mod BSIZE" "length (content s (fblock s i (off div BSIZE))) = BSIZE"
  shows "take m (drop (off mod BSIZE) (content s (fblock s i (off div BSIZE)))) = map (fbyte s i) [off..<off + m]"
  using assms by (intro nth_equalityI) (auto simp: fbyte_def same_place)

text \<open>The blocks that a range of the file touches are allocated.\<close>

definition in_file :: "nat \<Rightarrow> nat \<Rightarrow> nat \<Rightarrow> bool" where
  "in_file n off m \<longleftrightarrow> off + m \<le> BSIZE * n"

lemma in_file_chunk:
  assumes "in_file n off m" "0 < m"
  shows "off div BSIZE < n" "in_file n (off + min m (BSIZE - off mod BSIZE)) (m - min m (BSIZE - off mod BSIZE))"
  using assms by (auto simp: in_file_def less_mult_imp_div_less)

lemma read_chunks_spec:
  assumes "tx s" "file_ok s i n" "in_file n off m"
  shows "\<exists>t. read_chunks i (chunks off m) s = Ret (map (fbyte s i) [off..<off + m], t) \<and> logs [] s t \<and> inodes t = inodes s"
  using assms
proof (induction off m arbitrary: s rule: chunks.induct)
  case (1 off m)
  show ?case
  proof (cases "m = 0")
    case True
    then show ?thesis using logs_refl [OF 1(2)] by (simp add: chunks.simps)
  next
    case False
    define l where "l = min m (BSIZE - off mod BSIZE)"
    note c = in_file_chunk [OF 1(4), folded l_def]
    have m: "0 < m" using False by simp
    obtain t where t: "bmap i (of_nat (off div BSIZE)) s = Ret (fblock s i (off div BSIZE), t)" "logs [] s t" "inodes t = inodes s"
      using bmap_mapped [OF 1(2,3) c(1) [OF m]] by blast
    define a where "a = fblock s i (off div BSIZE)"
    have g: "good s a" unfolding a_def using file_okD(4) [OF 1(3) c(1) [OF m]] .
    then have "a < disksize t" using logsD(6) [OF t(2)] by (simp add: good_def)
    then obtain b s1 s2 where r: "bread 1 a t = Ret (b, s1)" "bdata (bufs s1 ! b) = content t a" "brelse b s1 = Ret s2" "logs [] t s2" "inodes s2 = inodes t"
      using get_block [OF logsD(1) [OF t(2)], of a] by blast
    have l2: "logs [] s s2" using logs_trans [OF t(2) r(4)] by simp
    have s2: "content s2 = content s" "inodes s2 = inodes s" "good s2 = good s" using logs_Nil [OF l2] r(5) t(3) logsD(7) [OF l2] by simp_all
    have f2: "file_ok s2 i n" using file_ok_frame(1) [OF 1(3) s2(2,3)] s2(1) by simp
    have fb: "fbyte s2 i = fbyte s i" unfolding fbyte_def fblock_def s2(1,2) ..
    obtain u where u: "read_chunks i (chunks (off + l) (m - l)) s2 = Ret (map (fbyte s2 i) [off + l..<off + l + (m - l)], u)" "logs [] s2 u" "inodes u = inodes s2"
      using 1(1) [OF False l_def logsD(1) [OF l2] f2 c(2) [OF m]] by blast
    have ch: "chunks off m = (off, l) # chunks (off + l) (m - l)" using False by (subst chunks.simps) (simp add: l_def Let_def)
    have len: "length (content s a) = BSIZE" using txD(6) [OF 1(2)] .
    have bs: "take l (drop (off mod BSIZE) (content t a)) = map (fbyte s i) [off..<off + l]"
      using chunk_bytes [of l off s i] len logs_Nil [OF t(2)] by (simp add: l_def a_def)
    have "l \<le> m" by (simp add: l_def)
    then have up: "[off..<off + l] @ [off + l..<off + l + (m - l)] = [off..<off + m]" using upt_add_eq_append [of off "off + l" "m - l"] by simp
    have d: "idev (inodes t ! i) = 1" using file_okD(2) [OF 1(3)] t(3) by simp
    have "read_chunks i (chunks off m) s = Ret (map (fbyte s i) [off..<off + l] @ map (fbyte s i) [off + l..<off + l + (m - l)], u)"
      unfolding ch using t(1) r d u(1) bs fb by (simp add: a_def [symmetric])
    then have "read_chunks i (chunks off m) s = Ret (map (fbyte s i) [off..<off + m], u)" unfolding map_append [symmetric] up .
    moreover have "logs [] s u" using logs_trans [OF l2 u(2)] by simp
    ultimately show ?thesis using u(3) s2(2) by auto
  qed
qed

section \<open>Writing\<close>

lemma length_splice: "a + length bs \<le> length d \<Longrightarrow> length (splice d a bs) = length d"
  by (simp add: splice_def)

lemma nth_splice: "a + length bs \<le> length d \<Longrightarrow> p < length d \<Longrightarrow> splice d a bs ! p = (if a \<le> p \<and> p < a + length bs then bs ! (p - a) else d ! p)"
  by (auto simp: splice_def nth_append)

text \<open>
  From \<open>s\<close> to \<open>t\<close> the bytes \<open>src\<close> were stored at \<open>off\<close> in the first \<open>n\<close> blocks of the file: the other
  bytes of the file, and every block that is not one of its blocks, are unchanged.
\<close>

definition stored :: "nat \<Rightarrow> nat \<Rightarrow> nat \<Rightarrow> u8 list \<Rightarrow> 'a fs_state_scheme \<Rightarrow> 'a fs_state_scheme \<Rightarrow> bool" where
  "stored i n off src s t \<longleftrightarrow> file_ok t i n \<and> inodes t = inodes s \<and> (\<forall>k < n. fblock t i k = fblock s i k) \<and>
     (\<forall>p < BSIZE * n. fbyte t i p = (if off \<le> p \<and> p < off + length src then src ! (p - off) else fbyte s i p)) \<and>
     (\<forall>b. b \<notin> fblock s i ` {..<n} \<longrightarrow> content t b = content s b)"

lemma storedD:
  assumes "stored i n off src s t"
  shows "file_ok t i n" "inodes t = inodes s" "\<And>k. k < n \<Longrightarrow> fblock t i k = fblock s i k"
    "\<And>p. p < BSIZE * n \<Longrightarrow> fbyte t i p = (if off \<le> p \<and> p < off + length src then src ! (p - off) else fbyte s i p)"
    "\<And>b. b \<notin> fblock s i ` {..<n} \<Longrightarrow> content t b = content s b"
  using assms unfolding stored_def by auto

lemma stored_Nil: "file_ok s i n \<Longrightarrow> stored i n off [] s s"
  by (auto simp: stored_def)

lemma stored_append:
  assumes "stored i n off xs s t" "stored i n (off + length xs) ys t u"
  shows "stored i n off (xs @ ys) s u"
proof -
  note S = storedD [OF assms(1)] and T = storedD [OF assms(2)]
  have im: "fblock t i ` {..<n} = fblock s i ` {..<n}" using S(3) by auto
  have "fbyte u i p = (if off \<le> p \<and> p < off + length (xs @ ys) then (xs @ ys) ! (p - off) else fbyte s i p)" if p: "p < BSIZE * n" for p
    using S(4) [OF p] T(4) [OF p] by (auto simp: nth_append)
  then show ?thesis using S T im unfolding stored_def by simp
qed

lemma put_stored:
  assumes tx: "tx s" and f: "file_ok s i n" and k: "off div BSIZE < n" and len: "length bs \<le> BSIZE - off mod BSIZE" and room: "room (Suc m) s"
  defines "a \<equiv> fblock s i (off div BSIZE)"
  shows "\<exists>b s1 s2 s3. bread 1 a s = Ret (b, s1) \<and> inodes s1 = inodes s \<and> log_write b (set_data b (\<lambda>d. splice d (off mod BSIZE) bs) s1) = Ret s2 \<and>
    brelse b s2 = Ret s3 \<and> tx s3 \<and> room m s3 \<and> stored i n off bs s s3"
proof -
  note F = file_okD [OF f]
  have c: "length (content s a) = BSIZE" using txD(6) [OF tx] .
  have o: "off mod BSIZE + length bs \<le> BSIZE" using len by simp
  obtain b s1 s2 s3 where r: "bread 1 a s = Ret (b, s1)" "log_write b (set_data b (\<lambda>d. splice d (off mod BSIZE) bs) s1) = Ret s2" "brelse b s2 = Ret s3"
      "logs [(a, splice (content s a) (off mod BSIZE) bs)] s s3" "inodes s1 = inodes s" "inodes s3 = inodes s"
    using put_block [OF tx F(4) [OF k] room, of "\<lambda>d. splice d (off mod BSIZE) bs"] c o unfolding a_def by (auto simp: length_splice)
  have ct: "content s3 = (content s)(a := splice (content s a) (off mod BSIZE) bs)" using logsD(2) [OF r(4)] by (simp add: apply_writes_def)
  have ind: "NDIRECT < n \<longrightarrow> content s3 (iaddrs (inodes s ! i) ! NDIRECT) = content s (iaddrs (inodes s ! i) ! NDIRECT)"
    using F(8) [OF _ k] ct by (auto simp: a_def)
  note fr = file_ok_frame [OF f r(6) logsD(7) [OF r(4)] ind]
  have "fbyte s3 i p = (if off \<le> p \<and> p < off + length bs then bs ! (p - off) else fbyte s i p)" if p: "p < BSIZE * n" for p
  proof -
    have pn: "p div BSIZE < n" using p by (simp add: less_mult_imp_div_less)
    show ?thesis
    proof (cases "p div BSIZE = off div BSIZE")
      case True
      have e: "p = off div BSIZE * BSIZE + p mod BSIZE" "off = off div BSIZE * BSIZE + off mod BSIZE" using True by (metis div_mult_mod_eq)+
      have "off \<le> p \<and> p < off + length bs \<longleftrightarrow> off mod BSIZE \<le> p mod BSIZE \<and> p mod BSIZE < off mod BSIZE + length bs"
        "p - off = p mod BSIZE - off mod BSIZE"
        using e by linarith+
      then show ?thesis using True fr(2) [OF pn] ct nth_splice [of "off mod BSIZE" bs "content s a" "p mod BSIZE"] c o
        by (simp add: fbyte_def a_def)
    next
      case False
      have "p < off \<or> off + length bs \<le> p"
      proof (rule ccontr)
        assume "\<not> (p < off \<or> off + length bs \<le> p)"
        then have "p - off < BSIZE - off mod BSIZE" "p = off + (p - off)" using len by auto
        then show False using same_place(1) [of "p - off" off] False by simp
      qed
      moreover have "fblock s i (p div BSIZE) \<noteq> a" using F(5) [OF pn k] False by (auto simp: a_def)
      ultimately show ?thesis using fr(2) [OF pn] ct by (auto simp: fbyte_def)
    qed
  qed
  moreover have "content s3 b = content s b" if "b \<notin> fblock s i ` {..<n}" for b using that k ct by (auto simp: a_def)
  ultimately have "stored i n off bs s s3" using fr r(6) unfolding stored_def by blast
  then show ?thesis using r logsD(1) [OF r(4)] logs_room [OF r(4), of m] room by auto
qed

lemma length_chunks_aligned: "off mod BSIZE = 0 \<Longrightarrow> length (chunks off m) \<le> m div BSIZE + 1"
proof (induction off m rule: chunks.induct)
  case (1 off m)
  show ?case
  proof (cases "m \<le> BSIZE")
    case True
    then show ?thesis using 1(2) by (subst chunks.simps) (simp add: chunks.simps min_def)
  next
    case False
    then have "length (chunks (off + BSIZE) (m - BSIZE)) \<le> (m - BSIZE) div BSIZE + 1" using 1 by (simp add: min_def)
    moreover have "chunks off m = (off, BSIZE) # chunks (off + BSIZE) (m - BSIZE)" using False 1(2) by (subst chunks.simps) (simp add: min_def)
    ultimately show ?thesis using False by (simp add: le_div_geq)
  qed
qed

lemma length_chunks: "length (chunks off m) \<le> m div BSIZE + 2"
proof (cases "m \<le> BSIZE - off mod BSIZE")
  case True
  then show ?thesis by (subst chunks.simps) (simp add: chunks.simps min_def)
next
  case False
  define l where "l = BSIZE - off mod BSIZE"
  have "chunks off m = (off, l) # chunks (off + l) (m - l)" using False by (subst chunks.simps) (simp add: min_def l_def)
  moreover have "(off + l) mod BSIZE = 0"
  proof -
    define q r where "q = off div BSIZE" and "r = off mod BSIZE"
    then have "off = q * BSIZE + r" "r < BSIZE" by simp_all
    then have "off + l = (q + 1) * BSIZE" by (simp add: l_def r_def [symmetric])
    then show ?thesis by (metis mod_mult_self2_is_0)
  qed
  moreover have "(m - l) div BSIZE \<le> m div BSIZE" by (simp add: div_le_mono)
  ultimately show ?thesis using length_chunks_aligned [of "off + l" "m - l"] by simp
qed

lemma stored_same:
  assumes "file_ok s i n" "logs [] s t" "inodes t = inodes s"
  shows "stored i n off [] s t"
proof -
  have c: "content t = content s" by (rule logs_Nil [OF assms(2)])
  then have "file_ok t i n" using file_ok_frame(1) [OF assms(1,3) logsD(7) [OF assms(2)]] by simp
  moreover have "fblock t i = fblock s i" "fbyte t i = fbyte s i" unfolding fbyte_def fblock_def c assms(3) by (rule refl)+
  ultimately show ?thesis using assms(3) c by (auto simp: stored_def)
qed

lemma write_chunks_spec:
  assumes "tx s" "file_ok s i n" "in_file n off m" "length src = m" "room (length (chunks off m) + k) s"
  shows "\<exists>t. write_chunks i (chunks off m) src s = Ret t \<and> tx t \<and> room k t \<and> stored i n off src s t"
  using assms
proof (induction off m arbitrary: s src rule: chunks.induct)
  case (1 off m)
  show ?case
  proof (cases "m = 0")
    case True
    then show ?thesis using 1(2,3,5,6) stored_Nil by (simp add: chunks.simps)
  next
    case False
    then have m: "0 < m" by simp
    define l where "l = min m (BSIZE - off mod BSIZE)"
    note c = in_file_chunk [OF 1(4) m, folded l_def]
    have ch: "chunks off m = (off, l) # chunks (off + l) (m - l)" using False by (subst chunks.simps) (simp add: l_def Let_def)
    obtain t where t: "bmap i (of_nat (off div BSIZE)) s = Ret (fblock s i (off div BSIZE), t)" "logs [] s t" "inodes t = inodes s"
      using bmap_mapped [OF 1(2,3) c(1)] by blast
    have s0: "stored i n off [] s t" by (rule stored_same [OF 1(3) t(2,3)])
    note ft = storedD(1,3) [OF s0]
    have len: "length (take l src) = l" "l \<le> BSIZE - off mod BSIZE" using 1(5) by (auto simp: l_def)
    have room: "room (Suc (length (chunks (off + l) (m - l)) + k)) t" using logs_room [OF t(2)] 1(6) ch by simp
    obtain b s1 s2 s3 where r: "bread 1 (fblock t i (off div BSIZE)) t = Ret (b, s1)" "inodes s1 = inodes t"
      "log_write b (set_data b (\<lambda>d. splice d (off mod BSIZE) (take l src)) s1) = Ret s2" "brelse b s2 = Ret s3" "tx s3"
      "room (length (chunks (off + l) (m - l)) + k) s3" "stored i n off (take l src) t s3"
      using put_stored [OF logsD(1) [OF t(2)] ft(1) c(1) _ room, of "take l src"] len by auto
    have s3: "stored i n off (take l src) s s3" using stored_append [OF s0] r(7) by simp
    have "length (drop l src) = m - l" using 1(5) by simp
    then obtain u where u: "write_chunks i (chunks (off + l) (m - l)) (drop l src) s3 = Ret u" "tx u" "room k u" "stored i n (off + l) (drop l src) s3 u"
      using 1(1) [OF False l_def r(5) storedD(1) [OF s3] c(2) _ r(6)] by blast
    have d: "idev (inodes t ! i) = 1" using file_okD(2) [OF ft(1)] .
    have "write_chunks i (chunks off m) src s = Ret u" unfolding ch using t(1) r(1,3,4) u(1) d ft(2) [OF c(1)] by simp
    moreover have "stored i n off src s u" using stored_append [OF s3, of "drop l src" u] u(4) len(1) by simp
    ultimately show ?thesis using u(2,3) by blast
  qed
qed

section \<open>The two operations\<close>

text \<open>A range inside the file passes the guards of both operations unchanged.\<close>

lemma range_words:
  fixes off sz :: u32
  assumes "unat off + m \<le> unat sz" "unat sz \<le> BSIZE * n" "n \<le> NDIRECT + NINDIRECT"
  shows "unat (of_nat m :: u32) = m" "unat (off + of_nat m) = unat off + m" "sint (of_nat m :: u32) = int m"
    "\<not> off > sz" "\<not> off + of_nat m < off" "\<not> off + of_nat m > sz"
proof -
  have b: "unat off + m \<le> 71680" using assms by simp
  show u: "unat (of_nat m :: u32) = m" using b by (intro unat_of_nat_small) simp
  show a: "unat (off + of_nat m) = unat off + m" using b u by (intro unat_add_of_nat) simp
  show "sint (of_nat m :: u32) = int m" using b u sint_small [of "of_nat m"] by simp
  show "\<not> off > sz" "\<not> off + of_nat m < off" "\<not> off + of_nat m > sz" using assms(1) a by (simp_all add: word_less_nat_alt)
qed

lemma readi_inside:
  assumes "tx s" "file_ok s i n" "itype (inodes s ! i) \<noteq> T_DEV" "unat (isize (inodes s ! i)) \<le> BSIZE * n"
    and "unat off + m \<le> unat (isize (inodes s ! i))"
  shows "\<exists>t. readi devsw i off (of_nat m) s = Ret ((int m, map (fbyte s i) [unat off..<unat off + m]), t) \<and> logs [] s t \<and> inodes t = inodes s"
proof -
  note w = range_words [OF assms(5,4) file_okD(1) [OF assms(2)]]
  have "in_file n (unat off) m" using assms(4,5) by (simp add: in_file_def)
  then obtain t where t: "read_chunks i (chunks (unat off) m) s = Ret (map (fbyte s i) [unat off..<unat off + m], t)" "logs [] s t" "inodes t = inodes s"
    using read_chunks_spec [OF assms(1,2)] by blast
  have "readi devsw i off (of_nat m) s = Ret ((int m, map (fbyte s i) [unat off..<unat off + m]), t)"
    using assms(3) w(4-6) t(1) by (simp only: readi_def Let_def if_False w(1,3) de_Morgan_disj simp_thms obind_Ret prod.case)
  then show ?thesis using t(2,3) by blast
qed

lemma writei_inside:
  assumes "tx s" "file_ok s i n" "itype (inodes s ! i) \<noteq> T_DEV" "unat (isize (inodes s ! i)) \<le> BSIZE * n"
    and "unat off + length src \<le> unat (isize (inodes s ! i))" "room (length src div BSIZE + 2 + k) s"
  shows "\<exists>t. writei devsw i src off (of_nat (length src)) s = Ret (int (length src), t) \<and> tx t \<and> room k t \<and> stored i n (unat off) src s t"
proof -
  note w = range_words [OF assms(5,4) file_okD(1) [OF assms(2)]]
  have "in_file n (unat off) (length src)" using assms(4,5) by (simp add: in_file_def)
  moreover have "room (length (chunks (unat off) (length src)) + k) s" using room_mono [OF assms(6)] length_chunks [of "unat off" "length src"] by simp
  ultimately obtain t where t: "write_chunks i (chunks (unat off) (length src)) src s = Ret t" "tx t" "room k t" "stored i n (unat off) src s t"
    using write_chunks_spec [OF assms(1,2)] by blast
  have m: "\<not> unat off + length src > MAXFILE * BSIZE" using assms(4,5) file_okD(1) [OF assms(2)] by simp
  have "writei devsw i src off (of_nat (length src)) s = Ret (int (length src), t)"
    using assms(3) w(4-6) m t(1) storedD(2) [OF t(4)] by (simp only: writei_def Let_def if_False w(1-3) de_Morgan_disj simp_thms obind_Ret)
  then show ?thesis using t(2-4) by blast
qed

lemma stored_bytes:
  assumes "stored i n off src s t" "off + length src \<le> BSIZE * n"
  shows "map (fbyte t i) [off..<off + length src] = src"
  using storedD(4) [OF assms(1)] assms(2) by (intro nth_equalityI) auto

text \<open>
  C9: Writing inside a file and reading it back. \<open>writei\<close> of a string of bytes inside the
  size of a file whose blocks are allocated succeeds with their number, whatever the alignment of the offset and
  also through the indirect block; \<open>readi\<close> of the same range then returns exactly these bytes, and \<open>readi\<close> of a
  range that the write does not touch returns what it returned before. The inodes, the placement of the file
  and every block outside it are unchanged.
\<close>

theorem writei_readi:
  assumes "tx s" "file_ok s i n" "itype (inodes s ! i) \<noteq> T_DEV" "unat (isize (inodes s ! i)) \<le> BSIZE * n"
    and "unat off + length src \<le> unat (isize (inodes s ! i))" "room (length src div BSIZE + 2) s"
  shows "\<exists>t. writei devsw i src off (of_nat (length src)) s = Ret (int (length src), t) \<and> tx t \<and> inodes t = inodes s \<and>
    (\<exists>u. readi devsw i off (of_nat (length src)) t = Ret ((int (length src), src), u)) \<and>
    (\<forall>p m. unat p + m \<le> unat (isize (inodes s ! i)) \<longrightarrow> unat p + m \<le> unat off \<or> unat off + length src \<le> unat p \<longrightarrow>
      (\<exists>bs u v. readi devsw i p (of_nat m) s = Ret ((int m, bs), u) \<and> readi devsw i p (of_nat m) t = Ret ((int m, bs), v))) \<and>
    (\<forall>b. b \<notin> fblock s i ` {..<n} \<longrightarrow> content t b = content s b)"
proof -
  obtain t where t: "writei devsw i src off (of_nat (length src)) s = Ret (int (length src), t)" "tx t" "stored i n (unat off) src s t"
    using writei_inside [OF assms(1-5), of 0 devsw] assms(6) by auto
  note S = storedD [OF t(3)]
  have sz: "itype (inodes t ! i) \<noteq> T_DEV" "unat (isize (inodes t ! i)) \<le> BSIZE * n" using assms(3,4) S(2) by simp_all
  have rb: "\<exists>u. readi devsw i off (of_nat (length src)) t = Ret ((int (length src), src), u)"
    using readi_inside [OF t(2) S(1) sz, of off "length src" devsw] stored_bytes [OF t(3)] assms(4,5) S(2) by auto
  have "\<exists>bs u v. readi devsw i p (of_nat m) s = Ret ((int m, bs), u) \<and> readi devsw i p (of_nat m) t = Ret ((int m, bs), v)"
    if p: "unat p + m \<le> unat (isize (inodes s ! i))" "unat p + m \<le> unat off \<or> unat off + length src \<le> unat p" for p m
  proof -
    have "map (fbyte t i) [unat p..<unat p + m] = map (fbyte s i) [unat p..<unat p + m]" using S(4) p assms(4) by auto
    then show ?thesis using readi_inside [OF assms(1-4) p(1), of devsw] readi_inside [OF t(2) S(1) sz, of p m devsw] p(1) S(2) by fastforce
  qed
  then show ?thesis using t(1,2) S(2,5) rb by blast
qed

text \<open>A file of 1000 bytes in blocks 40 and 41; three bytes are written across the boundary of the blocks.\<close>

definition file_demo :: inode where
  "file_demo = inode_demo\<lparr>isize := 1000, iaddrs := [40, 41] @ replicate 11 0\<rparr>"

lemma file_demo_ok:
  defines "s \<equiv> upd_inode 0 (\<lambda>_. file_demo) (fs_demo ())"
  shows "tx s" "file_ok s 0 2" "inodes s ! 0 = file_demo" "room 29 s"
proof -
  show "tx s" "inodes s ! 0 = file_demo" "room 29 s" using fs_demo_ok by (simp_all add: s_def)
  have fb: "fblock s 0 k = (if k = 0 then 40 else 41)" if "k < 2" for k
    using that by (auto simp: fblock_def s_def file_demo_def less_2_cases_iff)
  have "good s = good (fs_demo ())" by (simp add: fun_eq_iff s_def good_def)
  then have "good s 40" "good s 41" by (simp_all add: good_demo)
  then show "file_ok s 0 2" using fb by (auto simp: file_ok_def inj_on_def s_def file_demo_def inode_demo_def)
qed

theorem writei_readi_witness:
  "\<exists>t u. writei (\<lambda>_. \<lparr>dev_read = None, dev_write = None\<rparr>) 0 [1, 2, 3] 510 3 (upd_inode 0 (\<lambda>_. file_demo) (fs_demo ())) = Ret (3, t) \<and>
    readi (\<lambda>_. \<lparr>dev_read = None, dev_write = None\<rparr>) 0 510 3 t = Ret ((3, [1, 2, 3]), u)"
proof -
  let ?d = "\<lambda>_. \<lparr>dev_read = None, dev_write = None\<rparr>" and ?s = "upd_inode 0 (\<lambda>_. file_demo) (fs_demo ())" and ?n = "of_nat (length [1, 2, 3 :: u8]) :: u32"
  have f: "itype file_demo \<noteq> T_DEV" "unat (isize file_demo) = 1000" by (simp_all add: file_demo_def inode_demo_def)
  have "room (length [1, 2, 3 :: u8] div BSIZE + 2) ?s" using room_mono [OF file_demo_ok(4)] by simp
  then have "\<exists>t u. writei ?d 0 [1, 2, 3] 510 ?n ?s = Ret (int (length [1, 2, 3 :: u8]), t) \<and> readi ?d 0 510 ?n t = Ret ((int (length [1, 2, 3 :: u8]), [1, 2, 3]), u)"
    using writei_readi [OF file_demo_ok(1,2), of 510 "[1, 2, 3]" ?d] unfolding file_demo_ok(3) f(2) using f(1) by fastforce
  then show ?thesis by simp
qed

end
