(* ===== verification/Ide.thy ===== *)
theory Ide
  imports Bio
begin

text \<open>
  The IDE disk driver, \<^verbatim>\<open>ide.c\<close>, which the kernel uses unless it is built with the memory
  disk. The queue of requests is linked through the buffers, as in the code. The ports of the
  controller are a map; what the drive does with a command, and the data register it reads
  and writes through, are that of the ATA interface. The status of the drive is an argument:
  \<open>ok\<close> says that it reports no error. The wait for the drive to become ready is not part of
  the state. \<open>disk\<close> is drive 1, which holds the file system.
\<close>

section \<open>State and the drive\<close>

record ide_state = bio_state +
  idequeue :: "nat option"
  qnext :: "nat \<Rightarrow> nat option"
  havedisk1 :: bool
  ports :: "u32 \<Rightarrow> u8"
  pio :: block
  disk0 :: "u32 \<Rightarrow> block"

definition outb :: "u32 \<Rightarrow> u8 \<Rightarrow> 'a ide_state_scheme \<Rightarrow> 'a ide_state_scheme" where
  "outb p v s = s\<lparr>ports := (ports s)(p := v)\<rparr>"

text \<open>The sector and the drive that the registers address.\<close>

definition lba :: "(u32 \<Rightarrow> u8) \<Rightarrow> u32" where
  "lba r = ucast (r 0x1f3) OR push_bit 8 (ucast (r 0x1f4)) OR push_bit 16 (ucast (r 0x1f5)) OR push_bit 24 (ucast (r 0x1f6) AND 0x0f)"

definition second_drive :: "(u32 \<Rightarrow> u8) \<Rightarrow> bool" where
  "second_drive r \<longleftrightarrow> bit (r 0x1f6) 4"

text \<open>The drive completes the command in its command register.\<close>

definition drive_run :: "'a ide_state_scheme \<Rightarrow> 'a ide_state_scheme" where
  "drive_run s =
     (if ports s 0x1f7 = 0x30 then
        if second_drive (ports s)
        then s\<lparr>disk := (disk s)(lba (ports s) := pio s), trace := trace s @ [(lba (ports s), pio s)]\<rparr>
        else s\<lparr>disk0 := (disk0 s)(lba (ports s) := pio s)\<rparr>
      else s)"

definition insl :: "'a ide_state_scheme \<Rightarrow> block" where
  "insl s = (if second_drive (ports s) then disk s (lba (ports s)) else disk0 s (lba (ports s)))"

section \<open>The driver\<close>

text \<open>\<open>probe\<close> holds the values the status port delivers while disk 1 is looked for.\<close>

definition ide_init :: "u8 list \<Rightarrow> 'a ide_state_scheme \<Rightarrow> 'a ide_state_scheme" where
  "ide_init probe s =
     (let s = outb 0x1f6 0xf0 s;
          s = (if list_ex (\<lambda>v. v \<noteq> 0) (take 1000 probe) then s\<lparr>havedisk1 := True\<rparr> else s)
      in outb 0x1f6 0xe0 s)"

definition idestart :: "nat option \<Rightarrow> 'a ide_state_scheme \<Rightarrow> 'a ide_state_scheme outcome" where
  "idestart b s =
     (case b of
        None \<Rightarrow> Panic ''idestart''
      | Some i \<Rightarrow>
          let b = bufs s ! i; sector = bblockno b in
          if sector \<ge> of_nat FSSIZE then Panic ''incorrect blockno''
          else
            let s = outb 0x3f6 0 s;
                s = outb 0x1f2 1 s;
                s = outb 0x1f3 (ucast (sector AND 0xff)) s;
                s = outb 0x1f4 (ucast (drop_bit 8 sector AND 0xff)) s;
                s = outb 0x1f5 (ucast (drop_bit 16 sector AND 0xff)) s;
                s = outb 0x1f6 (0xe0 OR push_bit 4 (ucast (bdev b AND 1)) OR ucast (drop_bit 24 sector AND 0x0f)) s
            in Ret (if bflags b AND B_DIRTY \<noteq> 0 then (outb 0x1f7 0x30 s)\<lparr>pio := bdata b\<rparr> else outb 0x1f7 0x20 s))"

definition ide_intr :: "bool \<Rightarrow> 'a ide_state_scheme \<Rightarrow> 'a ide_state_scheme outcome" where
  "ide_intr ok s =
     (case idequeue s of
        None \<Rightarrow> Ret s
      | Some i \<Rightarrow>
          let s = s\<lparr>idequeue := qnext s i\<rparr>;
              s = (if bflags (bufs s ! i) AND B_DIRTY = 0 \<and> ok then upd_buf i (\<lambda>b. b\<lparr>bdata := insl s\<rparr>) s else s);
              s = upd_buf i (\<lambda>b. b\<lparr>bflags := bflags b OR B_VALID\<rparr>) s;
              s = upd_buf i (\<lambda>b. b\<lparr>bflags := bflags b AND NOT B_DIRTY\<rparr>) s;
              s = wakeup (ChBuf i) s
          in if idequeue s \<noteq> None then idestart (idequeue s) s else Ret s)"

text \<open>The last buffer of a queue; the walk is bounded by the number of buffers.\<close>

fun queue_last :: "nat \<Rightarrow> (nat \<Rightarrow> nat option) \<Rightarrow> nat \<Rightarrow> nat outcome" where
  "queue_last 0 qn i = Diverged"
| "queue_last (Suc k) qn i = (case qn i of None \<Rightarrow> Ret i | Some j \<Rightarrow> queue_last k qn j)"

definition append_queue :: "nat \<Rightarrow> 'a ide_state_scheme \<Rightarrow> 'a ide_state_scheme outcome" where
  "append_queue i s =
     (let s = s\<lparr>qnext := (qnext s)(i := None)\<rparr> in
      case idequeue s of
        None \<Rightarrow> Ret (s\<lparr>idequeue := Some i\<rparr>)
      | Some j \<Rightarrow> obind (queue_last (NBUF + 1) (qnext s) j) (\<lambda>k. Ret (s\<lparr>qnext := (qnext s)(k := Some i)\<rparr>)))"

text \<open>One round of the loop of \<open>iderw\<close> that waits for the request.\<close>

definition ide_wait :: "nat \<Rightarrow> 'a ide_state_scheme \<Rightarrow> (unit progress \<times> 'a ide_state_scheme) outcome" where
  "ide_wait i s =
     (if bflags (bufs s ! i) AND (B_VALID OR B_DIRTY) \<noteq> B_VALID then obind (sleep (ChBuf i) s) (\<lambda>s. Ret (Sleep, s))
      else Ret (Done (), s))"

definition ide_rw :: "nat \<Rightarrow> 'a ide_state_scheme \<Rightarrow> (unit progress \<times> 'a ide_state_scheme) outcome" where
  "ide_rw i s =
     (let b = bufs s ! i in
      if \<not> holdingsleep (BufLock i) s then Panic ''iderw: buf not locked''
      else if bflags b AND (B_VALID OR B_DIRTY) = B_VALID then Panic ''iderw: nothing to do''
      else if bdev b \<noteq> 0 \<and> \<not> havedisk1 s then Panic ''iderw: ide disk 1 not present''
      else
        obind (append_queue i s) (\<lambda>s.
        obind (if idequeue s = Some i then idestart (Some i) s else Ret s) (ide_wait i)))"

section \<open>Registers\<close>

lemma outb_simps [simp]:
  "ports (outb p v s) = (ports s)(p := v)" "bufs (outb p v s) = bufs s" "disk (outb p v s) = disk s" "trace (outb p v s) = trace s"
  "idequeue (outb p v s) = idequeue s" "qnext (outb p v s) = qnext s" "havedisk1 (outb p v s) = havedisk1 s" "pio (outb p v s) = pio s"
  "disksize (outb p v s) = disksize s" "holdingsleep l (outb p v s) = holdingsleep l s" "curproc (outb p v s) = curproc s"
  "procs (outb p v s) = procs s"
  by (simp_all add: outb_def holdingsleep_def curproc_def)

lemma and_masks: "w AND 0xff = take_bit 8 (w :: u32)" "w AND 0x0f = take_bit 4 (w :: u32)"
proof -
  have m: "(0xff :: u32) = mask 8" "(0x0f :: u32) = mask 4" by (simp_all add: mask_eq_exp_minus_1)
  show "w AND 0xff = take_bit 8 w" "w AND 0x0f = take_bit 4 w" unfolding m by (simp_all only: take_bit_eq_mask)
qed

lemma byte_part: "(ucast (ucast (w AND 0xff :: u32) :: u8) :: u32) = take_bit 8 w"
  unfolding and_masks by (intro bit_eqI) (auto simp: bit_unsigned_iff bit_take_bit_iff)

lemma head_part:
  "(ucast (0xe0 OR push_bit 4 (ucast (d AND 1 :: u32)) OR ucast (drop_bit 24 w AND 0x0f :: u32) :: u8) AND 0x0f :: u32) = take_bit 4 (drop_bit 24 w)"
proof -
  have e: "\<not> bit (0xe0 :: u8) n" if "n < 4" for n
  proof -
    have "(0xe0 :: u8) = push_bit 5 7" by simp
    then show ?thesis using that by (simp only: bit_push_bit_iff) simp
  qed
  show ?thesis unfolding and_masks
    by (intro bit_eqI) (use e in \<open>auto simp: bit_unsigned_iff bit_or_iff bit_push_bit_iff bit_take_bit_iff\<close>)
qed

lemma lba_split:
  assumes "w < 2 ^ 28"
  shows "take_bit 8 w OR push_bit 8 (take_bit 8 (drop_bit 8 w)) OR push_bit 16 (take_bit 8 (drop_bit 16 w)) OR
     push_bit 24 (take_bit 4 (drop_bit 24 w)) = (w :: u32)"
proof (rule bit_eqI)
  have high: "\<not> bit w n" if "28 \<le> n" for n
  proof -
    have "unat w < 2 ^ 28" using assms by (simp add: word_less_nat_alt)
    then have "take_bit 28 (unat w) = unat w" by (simp add: take_bit_nat_eq_self_iff)
    then have "\<not> bit (unat w) n" using that by (metis bit_take_bit_iff not_le)
    then show ?thesis by (simp add: bit_unsigned_iff)
  qed
  fix n :: nat assume "possible_bit TYPE(u32) n"
  consider "n < 8" | "8 \<le> n" "n < 16" | "16 \<le> n" "n < 24" | "24 \<le> n" "n < 28" | "28 \<le> n" by linarith
  then show "bit (take_bit 8 w OR push_bit 8 (take_bit 8 (drop_bit 8 w)) OR push_bit 16 (take_bit 8 (drop_bit 16 w)) OR
     push_bit 24 (take_bit 4 (drop_bit 24 w))) n \<longleftrightarrow> bit w n"
  proof cases
    case 5
    then show ?thesis using high [of n] by (auto simp: bit_or_iff bit_push_bit_iff bit_take_bit_iff bit_drop_bit_eq)
  qed (use \<open>possible_bit TYPE(u32) n\<close> in \<open>auto simp: bit_or_iff bit_push_bit_iff bit_take_bit_iff bit_drop_bit_eq\<close>)
qed

section \<open>Requests\<close>

definition request :: "buf \<Rightarrow> bool" where
  "request b \<longleftrightarrow> bdev b = 1 \<and> bblockno b < of_nat FSSIZE \<and> \<not> (valid b \<and> \<not> dirty b)"

text \<open>The registers hold the command for buffer \<open>i\<close>.\<close>

definition started :: "nat \<Rightarrow> 'a ide_state_scheme \<Rightarrow> bool" where
  "started i s \<longleftrightarrow> lba (ports s) = bblockno (bufs s ! i) \<and> second_drive (ports s) \<and>
     ports s 0x1f7 = (if dirty (bufs s ! i) then 0x30 else 0x20) \<and> (dirty (bufs s ! i) \<longrightarrow> pio s = bdata (bufs s ! i))"

definition ide_frame :: "'a ide_state_scheme \<Rightarrow> 'a ide_state_scheme \<Rightarrow> bool" where
  "ide_frame s t \<longleftrightarrow> bufs t = bufs s \<and> disk t = disk s \<and> trace t = trace s \<and> idequeue t = idequeue s \<and> qnext t = qnext s \<and>
     curproc t = curproc s \<and> procs t = procs s"

lemma lba_regs:
  assumes "w < 2 ^ 28" "r 0x1f3 = ucast (w AND 0xff)" "r 0x1f4 = ucast (drop_bit 8 w AND 0xff)" "r 0x1f5 = ucast (drop_bit 16 w AND 0xff)"
    "r 0x1f6 = 0xe0 OR push_bit 4 (ucast (d AND 1 :: u32)) OR ucast (drop_bit 24 w AND 0x0f)"
  shows "lba r = w"
  unfolding lba_def assms(2-5) byte_part head_part by (rule lba_split [OF assms(1)])

lemma drive_regs:
  assumes "r 0x1f6 = 0xe0 OR push_bit 4 (ucast (d AND 1 :: u32)) OR ucast (drop_bit 24 w AND 0x0f :: u32)" "d = 1"
  shows "second_drive r"
  unfolding second_drive_def assms by (simp add: bit_or_iff)

lemma idestart_spec:
  assumes "request (bufs s ! i)"
  shows "\<exists>t. idestart (Some i) s = Ret t \<and> started i t \<and> ide_frame s t"
proof -
  define b where "b = bufs s ! i"
  define w where "w = bblockno b"
  define h :: u8 where "h = 0xe0 OR push_bit 4 (ucast (bdev b AND 1)) OR ucast (drop_bit 24 w AND 0x0f)"
  define u where "u = outb 0x1f6 h (outb 0x1f5 (ucast (drop_bit 16 w AND 0xff)) (outb 0x1f4 (ucast (drop_bit 8 w AND 0xff))
    (outb 0x1f3 (ucast (w AND 0xff)) (outb 0x1f2 1 (outb 0x3f6 0 s)))))"
  define t where "t = (if bflags b AND B_DIRTY \<noteq> 0 then (outb 0x1f7 0x30 u)\<lparr>pio := bdata b\<rparr> else outb 0x1f7 0x20 u)"
  have b: "bdev b = 1" "\<not> of_nat FSSIZE \<le> w" "w < 2 ^ 28"
    using assms by (auto simp: request_def word_less_nat_alt word_le_nat_alt b_def w_def)
  have "idestart (Some i) s = Ret t"
    unfolding idestart_def Let_def option.case b_def [symmetric] w_def [symmetric] h_def [symmetric] u_def [symmetric] t_def [symmetric] using b(2) by simp
  moreover have "ide_frame s t" by (simp add: ide_frame_def t_def u_def curproc_def outb_def)
  moreover have r: "ports t 0x1f6 = 0xe0 OR push_bit 4 (ucast (bdev b AND 1)) OR ucast (drop_bit 24 w AND 0x0f)"
    unfolding h_def [symmetric] by (simp add: t_def u_def)
  have "lba (ports t) = w" 
    using lba_regs [of w "ports t" "bdev b", OF b(3) _ _ _ r] by (simp add: t_def u_def)
  moreover have "second_drive (ports t)" using drive_regs [of "ports t", OF r b(1)] .
  ultimately have "started i t" using \<open>ide_frame s t\<close>
    by (auto simp: started_def ide_frame_def b_def [symmetric] w_def dirty_def flag_and t_def)
  then show ?thesis using \<open>idestart (Some i) s = Ret t\<close> \<open>ide_frame s t\<close> by blast
qed

fun qlist :: "(nat \<Rightarrow> nat option) \<Rightarrow> nat option \<Rightarrow> nat list \<Rightarrow> bool" where
  "qlist qn h [] \<longleftrightarrow> h = None"
| "qlist qn h (i # q) \<longleftrightarrow> h = Some i \<and> qlist qn (qn i) q"

lemma qlist_cong: "qlist qn h q \<Longrightarrow> (\<And>i. i \<in> set q \<Longrightarrow> qn' i = qn i) \<Longrightarrow> qlist qn' h q"
  by (induction q arbitrary: h) auto

lemma qlist_snoc:
  "qlist qn h q \<Longrightarrow> i \<notin> set q \<Longrightarrow> distinct q \<Longrightarrow> q \<noteq> [] \<Longrightarrow> qlist (qn(i := None, last q := Some i)) h (q @ [i])"
proof (induction q arbitrary: h)
  case (Cons j q)
  show ?case
  proof (cases "q = []")
    case True
    then show ?thesis using Cons.prems by auto
  next
    case False
    then have "qlist (qn(i := None, last q := Some i)) (qn j) (q @ [i])" using Cons.prems by (intro Cons.IH) auto
    moreover have "j \<noteq> last q" "j \<noteq> i" using Cons.prems False by auto
    then have "(qn(i := None, last q := Some i)) j = qn j" by simp
    moreover have "last (j # q) = last q" "h = Some j" using Cons.prems(1) False by simp_all
    ultimately show ?thesis by (simp only: append_Cons qlist.simps)
  qed
qed simp

lemma queue_last_spec: "qlist qn (Some j) q \<Longrightarrow> length q \<le> n \<Longrightarrow> queue_last n qn j = Ret (last q)"
proof (induction q arbitrary: j n)
  case (Cons k q)
  then obtain m where n: "n = Suc m" by (cases n) auto
  show ?case
  proof (cases q)
    case Nil
    then show ?thesis using Cons.prems n by auto
  next
    case (Cons l r)
    then have "qn j = Some l" "qlist qn (Some l) q" using Cons.prems by auto
    then show ?thesis using Cons.IH [of l m] Cons.prems n Cons by simp
  qed
qed simp

definition ide_inv :: "'a ide_state_scheme \<Rightarrow> nat list \<Rightarrow> bool" where
  "ide_inv s q \<longleftrightarrow> qlist (qnext s) (idequeue s) q \<and> distinct q \<and> (\<forall>i \<in> set q. i < length (bufs s) \<and> request (bufs s ! i)) \<and>
     (q \<noteq> [] \<longrightarrow> started (hd q) s)"

text \<open>The transfer of the memory disk: \<open>iderw\<close> of \<^verbatim>\<open>memide.c\<close> after its checks.\<close>

definition transfer :: "nat \<Rightarrow> 'a bio_state_scheme \<Rightarrow> 'a bio_state_scheme" where
  "transfer i s =
     (let b = bufs s ! i in
      if dirty b then
        (upd_buf i (\<lambda>b. b\<lparr>bflags := (bflags b AND NOT 4) OR 2\<rparr>) s)
          \<lparr>disk := (disk s)(bblockno b := bdata b), trace := trace s @ [(bblockno b, bdata b)]\<rparr>
      else upd_buf i (\<lambda>c. c\<lparr>bdata := disk s (bblockno b), bflags := bflags c OR 2\<rparr>) s)"

lemma iderw_transfer:
  "holdingsleep (BufLock i) s \<Longrightarrow> request (bufs s ! i) \<Longrightarrow> disksize s = of_nat FSSIZE \<Longrightarrow> iderw i s = Ret (transfer i s)"
  unfolding iderw_eq transfer_def request_def by (auto simp: Let_def)

text \<open>What the two drivers have in common.\<close>

definition same_disk :: "'a bio_state_scheme \<Rightarrow> 'b bio_state_scheme \<Rightarrow> bool" where
  "same_disk s t \<longleftrightarrow> bufs s = bufs t \<and> disk s = disk t \<and> trace s = trace t"

lemma same_disk_transfer: "same_disk s t \<Longrightarrow> same_disk (transfer i s) (transfer i t)"
  by (auto simp: same_disk_def transfer_def Let_def upd_buf_def)

lemma same_disk_trans: "same_disk s t \<Longrightarrow> same_disk t u \<Longrightarrow> same_disk s u"
  by (simp add: same_disk_def)

lemma transfer_other: "j \<noteq> i \<Longrightarrow> bufs (transfer i s) ! j = bufs s ! j" "length (bufs (transfer i s)) = length (bufs s)"
  by (auto simp: transfer_def Let_def upd_buf_def)

lemma flags_swap: "(w OR 2) AND NOT 4 = (w AND NOT 4) OR (2 :: u32)"
proof (rule bit_eqI)
  fix n :: nat assume "possible_bit TYPE(u32) n"
  then show "bit ((w OR 2) AND NOT 4) n = bit ((w AND NOT 4) OR (2 :: u32)) n"
    by (simp only: bit_or_iff bit_and_iff bit_not_iff bit_24) auto
qed

lemma flags_clean: "\<not> bit w 2 \<Longrightarrow> (w OR 2) AND NOT 4 = w OR (2 :: u32)"
proof (rule bit_eqI)
  fix n :: nat assume "possible_bit TYPE(u32) n" "\<not> bit w 2"
  then show "bit ((w OR 2) AND NOT 4) n = bit (w OR (2 :: u32)) n"
    by (simp only: bit_or_iff bit_and_iff bit_not_iff bit_24) auto
qed

section \<open>Serving the queue\<close>

lemma intr_transfer:
  assumes "ide_inv s (i # q)"
  defines "u \<equiv> drive_run s"
  shows "\<exists>t. ide_intr True u = Ret t \<and> ide_inv t q \<and> same_disk t (transfer i s)"
proof -
  define b where "b = bufs s ! i"
  have inv: "idequeue s = Some i" "qlist (qnext s) (qnext s i) q" "i \<notin> set q" "distinct q" "i < length (bufs s)" "request b" "started i s"
    "\<forall>j \<in> set q. j < length (bufs s) \<and> request (bufs s ! j)"
    using assms(1) by (auto simp: ide_inv_def b_def)
  have st: "lba (ports s) = bblockno b" "second_drive (ports s)" "ports s 0x1f7 = (if dirty b then 0x30 else 0x20)" "dirty b \<Longrightarrow> pio s = bdata b"
    using inv(7) by (auto simp: started_def b_def)
  have u: "bufs u = bufs s" "qnext u = qnext s" "idequeue u = idequeue s" "ports u = ports s"
    "disk u = (if dirty b then (disk s)(bblockno b := bdata b) else disk s)" "trace u = trace s @ (if dirty b then [(bblockno b, bdata b)] else [])"
    using st by (auto simp: u_def drive_run_def)
  define v where "v = wakeup (ChBuf i) (upd_buf i (\<lambda>c. c\<lparr>bflags := bflags c AND NOT B_DIRTY\<rparr>) (upd_buf i (\<lambda>c. c\<lparr>bflags := bflags c OR B_VALID\<rparr>)
     (let w = u\<lparr>idequeue := qnext s i\<rparr> in if bflags b AND B_DIRTY = 0 \<and> True then upd_buf i (\<lambda>c. c\<lparr>bdata := insl w\<rparr>) w else w)))"
  have v: "idequeue v = qnext s i" "qnext v = qnext s"
    by (simp_all add: v_def wakeup_def wakeup1_def upd_buf_def Let_def u)
  have sd: "same_disk v (transfer i s)"
    using st(1,2) inv(5) flags_swap flags_clean
    by (auto simp: same_disk_def v_def transfer_def Let_def upd_buf_def u insl_def flag_and dirty_def b_def [symmetric])
  have vb: "bufs v ! j = bufs s ! j \<and> j < length (bufs v)" if "j \<in> set q" for j
    using sd that inv(3,8) transfer_other(1) [of j i s] transfer_other(2) [of i s] by (auto simp: same_disk_def)
  have e: "ide_intr True u = (if idequeue v \<noteq> None then idestart (idequeue v) v else Ret v)"
    unfolding ide_intr_def v_def using inv(1) u by (simp add: Let_def b_def)
  show ?thesis
  proof (cases q)
    case Nil
    then have "idequeue v = None" using inv(2) v(1) by simp
    then show ?thesis using e sd Nil by (auto simp: ide_inv_def)
  next
    case (Cons j r)
    then have j: "idequeue v = Some j" "request (bufs v ! j)" using inv(2,8) v(1) vb [of j] by auto
    obtain t where t: "idestart (Some j) v = Ret t" "started j t" "ide_frame v t" using idestart_spec [OF j(2)] by blast
    have "ide_inv t q" using t(2,3) inv(2,4,8) v vb Cons by (auto simp: ide_inv_def ide_frame_def)
    moreover have "same_disk t (transfer i s)" using t(3) sd by (simp add: ide_frame_def same_disk_def)
    ultimately show ?thesis using e j(1) t(1) by auto
  qed
qed

text \<open>\<open>n\<close> commands completed and their interrupts.\<close>

fun serve :: "nat \<Rightarrow> 'a ide_state_scheme \<Rightarrow> 'a ide_state_scheme outcome" where
  "serve 0 s = Ret s"
| "serve (Suc n) s = obind (ide_intr True (drive_run s)) (serve n)"

lemma serve_queue:
  "ide_inv s q \<Longrightarrow> same_disk s w \<Longrightarrow> \<exists>t. serve (length q) s = Ret t \<and> ide_inv t [] \<and> same_disk t (fold transfer q w)"
proof (induction q arbitrary: s w)
  case (Cons i q)
  obtain t where t: "ide_intr True (drive_run s) = Ret t" "ide_inv t q" "same_disk t (transfer i s)"
    using intr_transfer [OF Cons.prems(1)] by blast
  have "same_disk t (transfer i w)" using t(3) same_disk_transfer [OF Cons.prems(2)] same_disk_trans by blast
  then show ?case using Cons.IH [OF t(2)] t(1) by simp
qed simp

section \<open>A new request\<close>

lemma append_queue_spec:
  assumes "qlist (qnext s) (idequeue s) q" "i \<notin> set q" "distinct q" "length q \<le> NBUF + 1"
  shows "\<exists>qn h. append_queue i s = Ret (s\<lparr>qnext := qn, idequeue := h\<rparr>) \<and> qlist qn h (q @ [i])"
proof (cases "q = []")
  case True
  then show ?thesis using assms(1) by (intro exI [of _ "(qnext s)(i := None)"] exI [of _ "Some i"]) (simp add: append_queue_def)
next
  case False
  then obtain j where j: "idequeue s = Some j" using assms(1) by (cases q) auto
  have "qlist ((qnext s)(i := None)) (Some j) q" using assms(1,2) unfolding j by (auto intro: qlist_cong)
  then have "queue_last (NBUF + 1) ((qnext s)(i := None)) j = Ret (last q)" using assms(4) by (rule queue_last_spec)
  then have "append_queue i s = Ret (s\<lparr>qnext := (qnext s)(i := None, last q := Some i)\<rparr>)"
    using j by (simp add: append_queue_def Let_def del: queue_last.simps)
  then have "append_queue i s = Ret (s\<lparr>qnext := (qnext s)(i := None, last q := Some i), idequeue := idequeue s\<rparr>)"
    by simp
  then show ?thesis using qlist_snoc [OF assms(1,2,3) False] by blast
qed

lemma sleep_ide:
  assumes "curproc s = Some c" "c < length (procs s)"
  shows "\<exists>t. sleep ch s = Ret t \<and> same_disk t s \<and> idequeue t = idequeue s \<and> qnext t = qnext s \<and> ports t = ports s \<and> pio t = pio s"
  using assms by (simp add: sleep_def sched_def switchkvm_def upd_proc_def curproc_def Let_def same_disk_def)

lemma request_flags: "request b \<Longrightarrow> bflags b AND (B_VALID OR B_DIRTY) \<noteq> B_VALID"
proof -
  assume "request b"
  moreover have "(2 :: u32) OR 4 = 6" by simp
  ultimately show ?thesis using flag_both [of "bflags b"] by (simp add: request_def valid_def dirty_def)
qed

lemma ide_rw_queues:
  assumes inv: "ide_inv s q" and i: "i \<notin> set q" "i < length (bufs s)" "request (bufs s ! i)" "holdingsleep (BufLock i) s" "havedisk1 s"
    and len: "length (bufs s) = NBUF + 1" and c: "curproc s = Some c" "c < length (procs s)"
  shows "\<exists>t. ide_rw i s = Ret (Sleep, t) \<and> ide_inv t (q @ [i]) \<and> same_disk t s"
proof -
  have q: "qlist (qnext s) (idequeue s) q" "distinct q" "\<forall>j \<in> set q. j < length (bufs s) \<and> request (bufs s ! j)" "q \<noteq> [] \<Longrightarrow> started (hd q) s"
    using inv by (auto simp: ide_inv_def)
  have "set q \<subseteq> {..<NBUF + 1}" using q(3) len by auto
  then have "card (set q) \<le> NBUF + 1" using card_mono [of "{..<NBUF + 1}"] by fastforce
  then have "length q \<le> NBUF + 1" using distinct_card [OF q(2)] by simp
  then obtain qn h where a: "append_queue i s = Ret (s\<lparr>qnext := qn, idequeue := h\<rparr>)" "qlist qn h (q @ [i])"
    using append_queue_spec [OF q(1) i(1) q(2)] by blast
  define s1 where "s1 = s\<lparr>qnext := qn, idequeue := h\<rparr>"
  have "\<exists>s2. (if h = Some i then idestart (Some i) s1 else Ret s1) = Ret s2 \<and> ide_frame s1 s2 \<and> started (hd (q @ [i])) s2"
  proof (cases q)
    case Nil
    then have "h = Some i" using a(2) by simp
    then show ?thesis using Nil idestart_spec [of s1 i] i(3) by (auto simp: s1_def)
  next
    case (Cons j r)
    then have "h = Some j" "j \<noteq> i" "started j s1" using a(2) i(1) q(4) by (auto simp: s1_def started_def)
    then show ?thesis using Cons by (auto simp: ide_frame_def)
  qed
  then obtain s2 where s2: "(if h = Some i then idestart (Some i) s1 else Ret s1) = Ret s2" "ide_frame s1 s2" "started (hd (q @ [i])) s2" by blast
  then obtain t where t: "sleep (ChBuf i) s2 = Ret t" "same_disk t s2" "idequeue t = h" "qnext t = qn" "ports t = ports s2" "pio t = pio s2"
    using sleep_ide [of s2 c "ChBuf i"] c by (auto simp: ide_frame_def s1_def curproc_def)
  have b: "bufs s2 = bufs s" "disk s2 = disk s" "trace s2 = trace s" using s2(2) by (auto simp: ide_frame_def s1_def)
  have "ide_wait i s2 = Ret (Sleep, t)" using request_flags [OF i(3)] t(1) b(1) by (simp add: ide_wait_def)
  moreover have "idequeue s1 = h" by (simp add: s1_def)
  then have "ide_rw i s = obind (if h = Some i then idestart (Some i) s1 else Ret s1) (ide_wait i)"
    using request_flags [OF i(3)] i(4,5) a(1) [folded s1_def] by (simp add: ide_rw_def Let_def)
  ultimately have "ide_rw i s = Ret (Sleep, t)" unfolding s2(1) by simp
  moreover have "ide_inv t (q @ [i])"
    using a(2) q(2,3) i(1-3) s2(3) t b by (auto simp: ide_inv_def same_disk_def started_def)
  ultimately show ?thesis using t(2) b by (auto simp: same_disk_def)
qed

lemma fold_transfer_other:
  "i \<notin> set q \<Longrightarrow> bufs (fold transfer q s) ! i = bufs s ! i" "length (bufs (fold transfer q s)) = length (bufs s)"
  "disksize (fold transfer q s) = disksize s" "holdingsleep l (fold transfer q s) = holdingsleep l s"
proof -
  have "disksize (transfer i s) = disksize s" "holdingsleep l (transfer i s) = holdingsleep l s" for i and s :: "'a bio_state_scheme"
    by (simp_all add: transfer_def Let_def holdingsleep_def upd_buf_def)
  then show "length (bufs (fold transfer q s)) = length (bufs s)" "disksize (fold transfer q s) = disksize s"
    "holdingsleep l (fold transfer q s) = holdingsleep l s" by (induction q arbitrary: s) (simp_all add: transfer_other)
  show "i \<notin> set q \<Longrightarrow> bufs (fold transfer q s) ! i = bufs s ! i" by (induction q arbitrary: s) (auto simp: transfer_other)
qed

lemma transfer_done: "i < length (bufs s) \<Longrightarrow> bflags (bufs (transfer i s) ! i) AND (B_VALID OR B_DIRTY) = B_VALID"
proof -
  assume i: "i < length (bufs s)"
  have "(2 :: u32) OR 4 = 6" by simp
  moreover have "bit (w OR 2 :: u32) (Suc 0)" for w using flag_bits(1) [of w] by simp
  ultimately show ?thesis using i by (auto simp: flag_both transfer_def Let_def upd_buf_def dirty_def flag_bits flag_clear)
qed

section \<open>Claims\<close>

text \<open>
  C5: The IDE driver does what the memory disk does. With any queue of pending requests, a
  request put by \<open>iderw\<close> of \<^verbatim>\<open>ide.c\<close> sleeps; after the drive has completed the commands of
  the queue and this one, each followed by its interrupt, the caller's wait is over, the queue is
  empty, and buffers, disk and the order of disk writes are those of \<open>iderw\<close> of \<^verbatim>\<open>memide.c\<close>
  after the transfers of the requests before it.
\<close>

theorem ide_refines_memide:
  assumes "ide_inv s q" "i \<notin> set q" "i < length (bufs s)" "request (bufs s ! i)" "holdingsleep (BufLock i) s" "havedisk1 s"
    "length (bufs s) = NBUF + 1" "curproc s = Some c" "c < length (procs s)" "disksize s = of_nat FSSIZE"
  shows "\<exists>t u v. ide_rw i s = Ret (Sleep, t) \<and> serve (length q + 1) t = Ret u \<and> ide_wait i u = Ret (Done (), u) \<and> idequeue u = None \<and>
    iderw i (fold transfer q s) = Ret v \<and> same_disk u v"
proof -
  obtain t where t: "ide_rw i s = Ret (Sleep, t)" "ide_inv t (q @ [i])" "same_disk t s" using ide_rw_queues [OF assms(1-9)] by blast
  obtain u where u: "serve (length (q @ [i])) t = Ret u" "ide_inv u []" "same_disk u (fold transfer (q @ [i]) s)" using serve_queue [OF t(2,3)] by blast
  have "iderw i (fold transfer q s) = Ret (transfer i (fold transfer q s))"
    using assms(2,4,5,10) by (intro iderw_transfer) (simp_all add: fold_transfer_other)
  moreover have "ide_wait i u = Ret (Done (), u)"
    using u(3) transfer_done [of i "fold transfer q s"] assms(3) by (simp add: ide_wait_def same_disk_def fold_transfer_other)
  ultimately show ?thesis using t(1) u by (auto simp: ide_inv_def)
qed

definition ide_demo :: ide_state where
  "ide_demo = \<lparr>mem = (\<lambda>_. 0), freelist = 0, use_lock = True, kend = 0x80115000, kpgdir = 0x803ff000, kdata = 0x80109000,
     procs = [first_proc\<lparr>pstate := RUNNING\<rparr>], initproc = Some 0, nextpid = 2, this = 0, cpu_proc = (\<lambda>_. None)(0 := Some 0),
     sched_pos = (\<lambda>_. 0), sched_idle = (\<lambda>_. True), halted = (\<lambda>_. False), cr3 = (\<lambda>_. 0), esp0 = (\<lambda>_. 0), trapret = 0x80105000, forkret = 0x80103000,
     slocks = (\<lambda>_. \<lparr>slocked = 1, slpid = 1\<rparr>), pipes = (\<lambda>_. None),
     bufs = replicate (NBUF + 1) (zero_buf\<lparr>bdev := 1, bblockno := 7, bflags := 4\<rparr>),
     disk = (\<lambda>_. replicate BSIZE 0), disksize = of_nat FSSIZE, trace = [],
     idequeue = None, qnext = (\<lambda>_. None), havedisk1 = True, ports = (\<lambda>_. 0), pio = [], disk0 = (\<lambda>_. [])\<rparr>"

theorem ide_refines_memide_witness:
  "\<exists>t u v. ide_rw 0 ide_demo = Ret (Sleep, t) \<and> serve 1 t = Ret u \<and> iderw 0 ide_demo = Ret v \<and> same_disk u v"
proof -
  have "request (bufs ide_demo ! 0)" by (simp add: ide_demo_def request_def dirty_def bit_24)
  moreover have "holdingsleep (BufLock 0) ide_demo" "curproc ide_demo = Some 0" "ide_inv ide_demo []"
    by (simp_all add: ide_demo_def holdingsleep_def curproc_def ide_inv_def)
  ultimately show ?thesis using ide_refines_memide [of ide_demo "[]" 0 0] by (auto simp: ide_demo_def)
qed

end
