(* ===== verification/Mp.thy ===== *)
theory Mp
  imports Cstring
begin

text \<open>
  The search for the multiprocessor tables, \<^verbatim>\<open>mp.c\<close>, over the memory the BIOS leaves. The
  loop of \<open>mpinit\<close> over the table entries may not end and is a partial function. The
  processors found are the list of their APIC ids; the access to the IMCR port is a flag.
\<close>

section \<open>Operations\<close>

record mp_state =
  cpu_ids :: "u8 list"
  ioapicid :: u8
  lapic :: u32
  imcr :: bool

definition ld16 :: "memory \<Rightarrow> u32 \<Rightarrow> u16" where
  "ld16 m a = join16 (m a) (m (a + 1))"

definition checksum :: "memory \<Rightarrow> u32 \<Rightarrow> nat \<Rightarrow> u8" where
  "checksum m addr len = sum_list (bytes_at m addr len)"

definition mpsearch1 :: "memory \<Rightarrow> u32 \<Rightarrow> nat \<Rightarrow> u32 option" where
  "mpsearch1 m a len =
     find (\<lambda>p. bytes_at m p 4 = [0x5F, 0x4D, 0x50, 0x5F] \<and> checksum m p 16 = 0)
       (map (\<lambda>k. P2V a + 16 * of_nat k) [0..<(len + 15) div 16])"

definition mpsearch :: "memory \<Rightarrow> u32 option" where
  "mpsearch m =
     (let bda = P2V 0x400;
          p = push_bit 4 (push_bit 8 (ucast (m (bda + 0x0F))) OR ucast (m (bda + 0x0E)));
          r = (if p \<noteq> 0 then mpsearch1 m p 1024
               else mpsearch1 m ((push_bit 8 (ucast (m (bda + 0x14))) OR ucast (m (bda + 0x13))) * 1024 - 1024) 1024)
      in case r of Some mp \<Rightarrow> Some mp | None \<Rightarrow> mpsearch1 m 0xF0000 0x10000)"

text \<open>The address of the floating pointer structure and of the configuration table.\<close>

definition mpconfig :: "memory \<Rightarrow> (u32 \<times> u32) option" where
  "mpconfig m =
     (case mpsearch m of
        None \<Rightarrow> None
      | Some mp \<Rightarrow>
          if ld32 m (mp + 4) = 0 then None
          else
            let conf = P2V (ld32 m (mp + 4)) in
            if bytes_at m conf 4 \<noteq> [0x50, 0x43, 0x4D, 0x50] then None
            else if m (conf + 6) \<noteq> 1 \<and> m (conf + 6) \<noteq> 4 then None
            else if checksum m conf (unat (ld16 m (conf + 4))) \<noteq> 0 then None
            else Some (mp, conf))"

partial_function (option) mp_loop :: "memory \<Rightarrow> u32 \<Rightarrow> u32 \<Rightarrow> bool \<Rightarrow> mp_state \<Rightarrow> (bool \<times> mp_state) option" where
  "mp_loop m e p ismp s =
     (if p < e then
        if m p = 0 then
          mp_loop m e (p + 20) ismp (if length (cpu_ids s) < NCPU then s\<lparr>cpu_ids := cpu_ids s @ [m (p + 1)]\<rparr> else s)
        else if m p = 2 then mp_loop m e (p + 8) ismp (s\<lparr>ioapicid := m (p + 1)\<rparr>)
        else if m p = 1 \<or> m p = 3 \<or> m p = 4 then mp_loop m e (p + 8) ismp s
        else mp_loop m e p False s
      else Some (ismp, s))"

definition mpinit :: "memory \<Rightarrow> mp_state \<Rightarrow> mp_state outcome" where
  "mpinit m s =
     (case mpconfig m of
        None \<Rightarrow> Panic ''Expect to run on an SMP''
      | Some (mp, conf) \<Rightarrow>
          (case mp_loop m (conf + ucast (ld16 m (conf + 4))) (conf + 44) True (s\<lparr>lapic := ld32 m (conf + 36)\<rparr>) of
             None \<Rightarrow> Diverged
           | Some (ismp, s) \<Rightarrow>
               if \<not> ismp then Panic ''Didn't find a suitable machine''
               else Ret (if m (mp + 12) \<noteq> 0 then s\<lparr>imcr := True\<rparr> else s)))"

section \<open>Tables\<close>

datatype entry = Proc u8 | Ioapic u8 | Other u8

fun entry_size :: "entry \<Rightarrow> u32" where
  "entry_size (Proc _) = 20"
| "entry_size _ = 8"

fun entry_at :: "memory \<Rightarrow> u32 \<Rightarrow> entry \<Rightarrow> bool" where
  "entry_at m p (Proc i) \<longleftrightarrow> m p = 0 \<and> m (p + 1) = i"
| "entry_at m p (Ioapic i) \<longleftrightarrow> m p = 2 \<and> m (p + 1) = i"
| "entry_at m p (Other t) \<longleftrightarrow> m p = t \<and> t \<in> {1, 3, 4}"

text \<open>The entries \<open>es\<close> lie from \<open>p\<close> to \<open>q\<close>, each beginning before \<open>e\<close>.\<close>

fun entries :: "memory \<Rightarrow> u32 \<Rightarrow> u32 \<Rightarrow> entry list \<Rightarrow> u32 \<Rightarrow> bool" where
  "entries m e p [] q \<longleftrightarrow> p = q"
| "entries m e p (x # es) q \<longleftrightarrow> p < e \<and> entry_at m p x \<and> entries m e (p + entry_size x) es q"

fun learn :: "mp_state \<Rightarrow> entry \<Rightarrow> mp_state" where
  "learn s (Proc i) = (if length (cpu_ids s) < NCPU then s\<lparr>cpu_ids := cpu_ids s @ [i]\<rparr> else s)"
| "learn s (Ioapic i) = s\<lparr>ioapicid := i\<rparr>"
| "learn s (Other _) = s"

lemma mp_loop_entry:
  "p < e \<Longrightarrow> entry_at m p x \<Longrightarrow> mp_loop m e p ismp s = mp_loop m e (p + entry_size x) ismp (learn s x)"
  by (subst mp_loop.simps) (cases x; auto)

lemma mp_loop_entries: "entries m e p es q \<Longrightarrow> mp_loop m e p ismp s = mp_loop m e q ismp (foldl learn s es)"
proof (induction es arbitrary: p s)
  case (Cons x es)
  then show ?case using mp_loop_entry [of p e m x ismp s] by simp
qed simp

lemma mp_loop_stuck:
  assumes "p < e" "m p > 4"
  shows "mp_loop m e p ismp s = None"
proof (rule ccontr)
  assume "mp_loop m e p ismp s \<noteq> None"
  then obtain y where y: "mp_loop m e p ismp s = Some y" by auto
  have "\<not> (p < e \<and> m p > 4)"
    by (rule mp_loop.raw_induct [of "\<lambda>m e p ismp s y. \<not> (p < e \<and> m p > 4)", OF _ y]) (auto split: if_splits)
  then show False using assms by simp
qed


text \<open>A table at \<open>0x80001000\<close> with one processor and one entry of type 9.\<close>

definition bios_demo :: memory where
  "bios_demo a =
     (if a = 0x8000040E then 1
      else if unat (a - 0x80000010) < 16 then [0x5F, 0x4D, 0x50, 0x5F, 0, 0x10, 0, 0, 1, 4, 0x90, 0, 0, 0, 0, 0] ! unat (a - 0x80000010)
      else if unat (a - 0x80001000) < 8 then [0x50, 0x43, 0x4D, 0x50, 72, 0, 4, 0x7B] ! unat (a - 0x80001000)
      else if a = 0x80001040 then 9 else 0)"

lemma bios_demo_config: "mpconfig bios_demo = Some (0x80000010, 0x80001000)"
proof -
  have upt: "[0..<4] = [0, 1, 2, 3 :: nat]" "[0..<64] = 0 # [1..<64]" by (simp_all add: upt_rec [of _ 4] upt_conv_Cons)
  have "bytes_at bios_demo 0x80000010 4 = [0x5F, 0x4D, 0x50, 0x5F]" by (simp add: bytes_at_def upt bios_demo_def)
  moreover have "checksum bios_demo 0x80000010 16 = 0" by code_simp
  ultimately have "mpsearch1 bios_demo 16 1024 = Some 0x80000010" by (simp add: mpsearch1_def upt(2) P2V_def)
  moreover have "bios_demo 0x8000040E = 1" "bios_demo 0x8000040F = 0" by (simp_all add: bios_demo_def)
  ultimately have "mpsearch bios_demo = Some 0x80000010" by (simp add: mpsearch_def P2V_def)
  moreover have "ld32 bios_demo 0x80000014 = 0x1000" by (simp add: ld32_def bios_demo_def) code_simp
  moreover have "bytes_at bios_demo 0x80001000 4 = [0x50, 0x43, 0x4D, 0x50]" by (simp add: bytes_at_def upt bios_demo_def)
  moreover have "ld16 bios_demo 0x80001004 = 72" by (simp add: ld16_def bios_demo_def) code_simp
  moreover have "checksum bios_demo 0x80001000 72 = 0" by code_simp
  ultimately show ?thesis by (simp add: mpconfig_def P2V_def bios_demo_def)
qed

lemma bios_demo_entries: "entries bios_demo 0x80001048 0x8000102C [Proc 0] 0x80001040"
  by (simp add: bios_demo_def)

section \<open>Claims\<close>

text \<open>
  C31: \<open>mpinit\<close> on a configuration table. If the table is a sequence of known entries up to
  its length, it returns the processors (the first eight, in order) and the I/O APIC that the
  entries name. If the known entries are followed by one of an unknown type, it loops for
  ever: the \<open>break\<close> of the default case leaves only the \<open>switch\<close> and the pointer does not
  move, so that the panic for an unsuitable machine is never reached.
\<close>

theorem mpinit_table:
  assumes "mpconfig m = Some (mp, conf)" "entries m e (conf + 44) es q" "e = conf + ucast (ld16 m (conf + 4))"
  shows "(\<not> q < e \<longrightarrow> mpinit m s =
      Ret (let s = foldl learn (s\<lparr>lapic := ld32 m (conf + 36)\<rparr>) es in if m (mp + 12) \<noteq> 0 then s\<lparr>imcr := True\<rparr> else s)) \<and>
    (q < e \<and> m q > 4 \<longrightarrow> mpinit m s = Diverged)"
proof (intro conjI impI)
  assume "\<not> q < e"
  then have "mp_loop m e q ismp t = Some (ismp, t)" for ismp t by (subst mp_loop.simps) simp
  then show "mpinit m s =
      Ret (let s = foldl learn (s\<lparr>lapic := ld32 m (conf + 36)\<rparr>) es in if m (mp + 12) \<noteq> 0 then s\<lparr>imcr := True\<rparr> else s)"
    using assms mp_loop_entries [OF assms(2)] by (simp add: mpinit_def Let_def)
next
  assume "q < e \<and> m q > 4"
  then show "mpinit m s = Diverged"
    using assms mp_loop_entries [OF assms(2)] mp_loop_stuck [of q e m] by (simp add: mpinit_def)
qed

theorem mpinit_table_witness:
  "mpinit bios_demo \<lparr>cpu_ids = [], ioapicid = 0, lapic = 0, imcr = False\<rparr> = Diverged"
proof -
  have "ld16 bios_demo 0x80001004 = 72" by (simp add: ld16_def bios_demo_def) code_simp
  then have e: "0x80001048 = 0x80001000 + ucast (ld16 bios_demo (0x80001000 + 4))" by simp
  have "(0x80001000 + 44 :: u32) = 0x8000102C" by simp
  then have es: "entries bios_demo 0x80001048 (0x80001000 + 44) [Proc 0] 0x80001040" using bios_demo_entries by (simp only:)
  have "bios_demo 0x80001040 > 4" "(0x80001040 :: u32) < 0x80001048" by (simp_all add: bios_demo_def)
  then show ?thesis using mpinit_table [OF bios_demo_config es e] by blast
qed

end
