(* ===== verification/Ulib.thy ===== *)
theory Ulib
  imports Cstring
begin

text \<open>
  The C library of user programs, \<^verbatim>\<open>ulib.c\<close> and \<^verbatim>\<open>printf.c\<close>. A C string that is
  only read is the list of its characters up to the NUL, a pointer into it a suffix of that
  list. Functions that store through a pointer work on memory. An \<open>int\<close> is a 32-bit word,
  so that arithmetic wraps. The output of \<open>printf\<close> is the list of the characters it
  writes to the descriptor.
\<close>

section \<open>Strings\<close>

text \<open>The character a pointer points to: at the end of the list, the NUL.\<close>

definition deref :: "string \<Rightarrow> char" where
  "deref s = (case s of [] \<Rightarrow> CHR 0x00 | c # _ \<Rightarrow> c)"

partial_function (option) strcpy :: "memory \<Rightarrow> u32 \<Rightarrow> u32 \<Rightarrow> memory option" where
  "strcpy m s t =
     (let m' = m(s := m t) in if m' s = 0 then Some m' else strcpy m' (s + 1) (t + 1))"

fun strcmp :: "string \<Rightarrow> string \<Rightarrow> int" where
  "strcmp [] q = - of_char (deref q)"
| "strcmp (c # p) q = (if deref q = c then strcmp p (tl q) else of_char c - of_char (deref q))"

fun strchr :: "string \<Rightarrow> char \<Rightarrow> string option" where
  "strchr [] c = None"
| "strchr (d # s) c = (if d = c then Some (d # s) else strchr s c)"

definition umemset :: "memory \<Rightarrow> u32 \<Rightarrow> u8 \<Rightarrow> u32 \<Rightarrow> memory" where
  "umemset m dst c n = stosb m dst c (unat n)"

definition umemmove :: "memory \<Rightarrow> u32 \<Rightarrow> u32 \<Rightarrow> int \<Rightarrow> memory" where
  "umemmove m dst src n = copy_up m dst src (nat n)"

text \<open>
  \<open>gets\<close> reads one character at a time; \<open>inp\<close> holds those that \<open>read\<close> delivers before it
  returns less than 1. The result is the string in the buffer and the input left over.
\<close>

fun gets_loop :: "nat \<Rightarrow> string \<Rightarrow> string \<times> string" where
  "gets_loop 0 inp = ([], inp)"
| "gets_loop (Suc k) [] = ([], [])"
| "gets_loop (Suc k) (c # inp) =
     (if c = CHR 0x0A \<or> c = CHR 0x0D then ([c], inp)
      else let (buf, rest) = gets_loop k inp in (c # buf, rest))"

definition gets :: "nat \<Rightarrow> string \<Rightarrow> string \<times> string" where
  "gets n inp = gets_loop (n - 1) inp"

section \<open>Numbers\<close>

fun atoi_digits :: "u32 \<Rightarrow> u32 \<Rightarrow> string \<Rightarrow> u32" where
  "atoi_digits base n [] = n"
| "atoi_digits base n (c # s) =
     (if 48 \<le> (of_char c :: nat) \<and> of_char c < 48 + unat base
      then atoi_digits base (n * base + of_char c - 48) s else n)"

definition ato :: "u32 \<Rightarrow> string \<Rightarrow> u32" where
  "ato base s =
     (let s = dropWhile (\<lambda>c. c = CHR '' '') s;
          sign = (if deref s = CHR ''-'' then -1 else 1);
          s = (if deref s = CHR ''+'' \<or> deref s = CHR ''-'' then tl s else s)
      in sign * atoi_digits base 0 s)"

definition atoi :: "string \<Rightarrow> u32" where
  "atoi s = ato 10 s"

definition atoo :: "string \<Rightarrow> u32" where
  "atoo s = ato 8 s"

section \<open>Formatted output\<close>

text \<open>The loop of \<open>printint\<close> that fills the buffer, least significant digit first.\<close>

function udigits :: "nat \<Rightarrow> nat \<Rightarrow> string" where
  "udigits base x =
     (let c = ''0123456789ABCDEF'' ! (x mod base) in
      if base < 2 \<or> x div base = 0 then [c] else c # udigits base (x div base))"
  by pat_completeness auto
termination by (relation "measure snd") (auto simp: div_greater_zero_iff not_less intro!: div_less_dividend)

declare udigits.simps [simp del]

definition uprintint :: "u32 \<Rightarrow> nat \<Rightarrow> bool \<Rightarrow> string" where
  "uprintint xx base sg =
     (let neg = sg \<and> sint xx < 0; x = (if neg then - xx else xx) in
      rev (udigits base (unat x) @ (if neg then ''-'' else [])))"

text \<open>An argument is a word or a string, a null pointer being a string too.\<close>

datatype parg = PWord u32 | PStr "string option"

text \<open>\<open>pct\<close> is \<open>state == '%'\<close>. A format that asks for an argument it was not given has no result.\<close>

fun printf_loop :: "bool \<Rightarrow> string \<Rightarrow> parg list \<Rightarrow> string option" where
  "printf_loop pct [] args = Some []"
| "printf_loop False (c # fmt) args =
     (if c = CHR ''%'' then printf_loop True fmt args else map_option (Cons c) (printf_loop False fmt args))"
| "printf_loop True (c # fmt) args =
     (if c = CHR ''d'' then
        (case args of PWord w # args \<Rightarrow> map_option ((@) (uprintint w 10 True)) (printf_loop False fmt args) | _ \<Rightarrow> None)
      else if c = CHR ''x'' \<or> c = CHR ''p'' then
        (case args of PWord w # args \<Rightarrow> map_option ((@) (uprintint w 16 False)) (printf_loop False fmt args) | _ \<Rightarrow> None)
      else if c = CHR ''s'' then
        (case args of
           PStr t # args \<Rightarrow> map_option ((@) (case t of None \<Rightarrow> ''(null)'' | Some t \<Rightarrow> t)) (printf_loop False fmt args)
         | _ \<Rightarrow> None)
      else if c = CHR ''c'' then
        (case args of PWord w # args \<Rightarrow> map_option (Cons (char_of (unat w))) (printf_loop False fmt args) | _ \<Rightarrow> None)
      else if c = CHR ''%'' then map_option (Cons c) (printf_loop False fmt args)
      else map_option ((@) [CHR ''%'', c]) (printf_loop False fmt args))"

definition printf :: "string \<Rightarrow> parg list \<Rightarrow> string option" where
  "printf fmt args = printf_loop False fmt args"

section \<open>Decimal numbers\<close>

definition digit :: "nat \<Rightarrow> char" where
  "digit d = ''0123456789ABCDEF'' ! d"

lemma digit_code: "d < 10 \<Longrightarrow> of_char (digit d) = (48 + d :: nat)"
proof -
  assume "d < 10"
  then have "d \<in> {0, 1, 2, 3, 4, 5, 6, 7, 8, 9}" by auto
  then show ?thesis by (auto simp: digit_def)
qed

lemma of_char_word: "(of_char c :: u32) = of_nat (of_char c)"
  by (cases c) (simp add: of_char_def)

lemma udigits_rec:
  "udigits 10 x = (if x < 10 then [digit x] else digit (x mod 10) # udigits 10 (x div 10))"
  by (subst udigits.simps) (auto simp: digit_def Let_def div_eq_0_iff)

lemma atoi_digits_udigits:
  "atoi_digits 10 a (rev (udigits 10 x) @ t) = atoi_digits 10 (a * 10 ^ length (udigits 10 x) + of_nat x) t"
proof (induction x arbitrary: t rule: less_induct)
  case (less x)
  have step: "atoi_digits 10 n (digit d # t) = atoi_digits 10 (n * 10 + of_nat d) t" if "d < 10" for n d
    using that by (simp add: digit_code of_char_word)
  show ?case
  proof (cases "x < 10")
    case True
    then show ?thesis by (simp add: udigits_rec step del: atoi_digits.simps)
  next
    case False
    have x: "of_nat x = of_nat (x div 10) * 10 + (of_nat (x mod 10) :: u32)"
      by (metis div_mult_mod_eq of_nat_add of_nat_mult of_nat_numeral)
    from False less.IH [of "x div 10" "digit (x mod 10) # t"] show ?thesis
      by (subst (1 2) udigits_rec) (simp add: step x algebra_simps del: atoi_digits.simps)
  qed
qed

lemma udigits_last: "\<exists>ds d. udigits 10 x = ds @ [digit d] \<and> d < 10"
proof (induction x rule: less_induct)
  case (less x)
  show ?case
  proof (cases "x < 10")
    case True
    then show ?thesis by (auto simp: udigits_rec [of x])
  next
    case False
    with less.IH [of "x div 10"] obtain ds d where "udigits 10 (x div 10) = ds @ [digit d]" "d < 10" by auto
    with False have "udigits 10 x = (digit (x mod 10) # ds) @ [digit d]" by (simp add: udigits_rec [of x])
    with \<open>d < 10\<close> show ?thesis by blast
  qed
qed

section \<open>Claims\<close>

text \<open>
  C35: Printing a number with \<open>%d\<close> and reading it back with \<open>atoi\<close> gives the number, for
  every 32-bit value, the most negative one included.
\<close>

theorem printf_atoi: "map_option atoi (printf ''%d'' [PWord x]) = Some x"
proof -
  have un: "ato 10 (rev (udigits 10 n)) = of_nat n" for n
  proof -
    obtain ds d where d: "udigits 10 n = ds @ [digit d]" "d < 10" using udigits_last by blast
    then have "digit d \<notin> {CHR '' '', CHR ''-'', CHR ''+''}" using digit_code [of d] by auto
    with d have "ato 10 (rev (udigits 10 n)) = atoi_digits 10 0 (rev (udigits 10 n) @ [])"
      by (simp add: ato_def deref_def)
    then show ?thesis by (simp only: atoi_digits_udigits) simp
  qed
  have neg: "ato 10 (CHR ''-'' # rev (udigits 10 n)) = - of_nat n" for n
    using atoi_digits_udigits [of 0 n "[]"] by (simp add: ato_def deref_def)
  show ?thesis
    by (simp add: printf_def uprintint_def atoi_def un neg Let_def)
qed

end
