(* ===== verification/Sh.thy ===== *)
theory Sh
  imports Ulib "HOL-Library.Sublist"
begin

text \<open>
  The command parser of the shell, \<^verbatim>\<open>sh.c\<close>. The line is the list of its characters
  and a pointer into it a suffix of that list, the empty suffix being \<open>es\<close>. A token is
  the pair of the pointers \<open>q\<close> and \<open>eq\<close>. \<open>panic\<close> ends the process that parses, with a
  message. The recursive functions carry a fuel that \<open>parsecmd\<close> sets to four times the
  length of the line and four more; without fuel they are \<open>Diverged\<close>.
\<close>

section \<open>Commands\<close>

abbreviation (input) MAXARGS :: nat where "MAXARGS \<equiv> 10"
abbreviation (input) O_RDONLY :: int where "O_RDONLY \<equiv> 0"
abbreviation (input) O_WRONLY_CREATE :: int where "O_WRONLY_CREATE \<equiv> 0x201"

text \<open>The parameter is the type of the words: tokens while parsing, strings afterwards.\<close>

datatype 't cmd =
    EXEC (argv: "'t list")
  | REDIR "'t cmd" 't int int
  | PIPE "'t cmd" "'t cmd"
  | LIST "'t cmd" "'t cmd"
  | BACK "'t cmd"

type_synonym token = "string \<times> string"
type_synonym 't redir = "'t \<times> int \<times> int"

text \<open>\<open>redircmd\<close> around a command, once for each redirection.\<close>

definition add_redirs :: "'t cmd \<Rightarrow> 't redir list \<Rightarrow> 't cmd" where
  "add_redirs c rs = foldl (\<lambda>c (file, mode, fd). REDIR c file mode fd) c rs"

section \<open>Tokens\<close>

definition whitespace :: string where
  "whitespace = [CHR '' '', CHR 0x09, CHR 0x0D, CHR 0x0A, CHR 0x0B]"

definition symbols :: string where
  "symbols = ''<|>&;()''"

definition is_ws :: "char \<Rightarrow> bool" where
  "is_ws c \<longleftrightarrow> strchr whitespace c \<noteq> None"

definition is_sym :: "char \<Rightarrow> bool" where
  "is_sym c \<longleftrightarrow> strchr symbols c \<noteq> None"

definition plain :: "char \<Rightarrow> bool" where
  "plain c \<longleftrightarrow> \<not> is_ws c \<and> \<not> is_sym c"

definition gettoken :: "string \<Rightarrow> char \<times> token \<times> string" where
  "gettoken ps =
     (let s = dropWhile is_ws ps; q = s;
          (ret, s) =
            (if s = [] \<or> hd s = CHR 0x00 then (CHR 0x00, s)
             else if hd s \<in> set ''|();&<'' then (hd s, tl s)
             else if hd s = CHR ''>'' then (if deref (tl s) = CHR ''>'' then (CHR ''+'', tl (tl s)) else (CHR ''>'', tl s))
             else (CHR ''a'', dropWhile plain s))
      in (ret, (q, s), dropWhile is_ws s))"

definition peek :: "string \<Rightarrow> string \<Rightarrow> bool \<times> string" where
  "peek ps toks = (let s = dropWhile is_ws ps in (deref s \<noteq> CHR 0x00 \<and> strchr toks (deref s) \<noteq> None, s))"

section \<open>The parser\<close>

text \<open>The loop of \<open>parseredirs\<close>: the redirections it would wrap around its command.\<close>

fun parseredirs :: "nat \<Rightarrow> string \<Rightarrow> (token redir list \<times> string) outcome" where
  "parseredirs 0 s = Diverged"
| "parseredirs (Suc n) s =
     (let (more, s) = peek s ''<>'' in
      if \<not> more then Ret ([], s)
      else
        let (tok, _, s) = gettoken s; (word, file, s) = gettoken s in
        if word \<noteq> CHR ''a'' then Panic ''missing file for redirection''
        else
          let r = (if tok = CHR ''<'' then (file, O_RDONLY, 0) else (file, O_WRONLY_CREATE, 1)) in
          obind (parseredirs n s) (\<lambda>(rs, s). Ret (r # rs, s)))"

text \<open>The loop of \<open>parseexec\<close>, with the redirections and the arguments found so far.\<close>

fun exec_args :: "nat \<Rightarrow> token redir list \<Rightarrow> token list \<Rightarrow> string \<Rightarrow> (token cmd \<times> string) outcome" where
  "exec_args 0 rs args s = Diverged"
| "exec_args (Suc n) rs args s =
     (let (stop, s) = peek s ''|)&;'' in
      if stop then Ret (add_redirs (EXEC args) rs, s)
      else
        let (tok, word, s) = gettoken s in
        if tok = CHR 0x00 then Ret (add_redirs (EXEC args) rs, s)
        else if tok \<noteq> CHR ''a'' then Panic ''syntax''
        else
          let args = args @ [word] in
          if length args \<ge> MAXARGS then Panic ''too many args''
          else obind (parseredirs n s) (\<lambda>(more, s). exec_args n (rs @ more) args s))"

fun backs :: "nat \<Rightarrow> token cmd \<Rightarrow> string \<Rightarrow> (token cmd \<times> string) outcome" where
  "backs 0 c s = Diverged"
| "backs (Suc n) c s =
     (let (more, s) = peek s ''&'' in
      if more then (let (_, _, s) = gettoken s in backs n (BACK c) s) else Ret (c, s))"

fun parseline :: "nat \<Rightarrow> string \<Rightarrow> (token cmd \<times> string) outcome"
  and parsepipe :: "nat \<Rightarrow> string \<Rightarrow> (token cmd \<times> string) outcome"
  and parseexec :: "nat \<Rightarrow> string \<Rightarrow> (token cmd \<times> string) outcome"
  and parseblock :: "nat \<Rightarrow> string \<Rightarrow> (token cmd \<times> string) outcome" where
  "parseline 0 s = Diverged"
| "parseline (Suc n) s =
     obind (parsepipe n s) (\<lambda>(c, s).
     obind (backs n c s) (\<lambda>(c, s).
       let (more, s) = peek s '';'' in
       if more then
         let (_, _, s) = gettoken s in
         obind (parseline n s) (\<lambda>(d, s). Ret (LIST c d, s))
       else Ret (c, s)))"
| "parsepipe 0 s = Diverged"
| "parsepipe (Suc n) s =
     obind (parseexec n s) (\<lambda>(c, s).
       let (more, s) = peek s ''|'' in
       if more then
         let (_, _, s) = gettoken s in
         obind (parsepipe n s) (\<lambda>(d, s). Ret (PIPE c d, s))
       else Ret (c, s))"
| "parseexec 0 s = Diverged"
| "parseexec (Suc n) s =
     (let (block, s) = peek s ''('' in
      if block then parseblock n s
      else obind (parseredirs n s) (\<lambda>(rs, s). exec_args n rs [] s))"
| "parseblock 0 s = Diverged"
| "parseblock (Suc n) s =
     (let (open, s) = peek s ''('' in
      if \<not> open then Panic ''parseblock''
      else
        let (_, _, s) = gettoken s in
        obind (parseline n s) (\<lambda>(c, s).
          let (close, s) = peek s '')'' in
          if \<not> close then Panic ''syntax - missing )''
          else
            let (_, _, s) = gettoken s in
            obind (parseredirs n s) (\<lambda>(rs, s). Ret (add_redirs c rs, s))))"

text \<open>
  \<open>nulterminate\<close> on the array that holds the line and its NUL: it stores a NUL at the
  end pointer of every word.
\<close>

definition cut :: "token \<Rightarrow> string \<Rightarrow> string" where
  "cut t m = m[length m - 1 - length (snd t) := CHR 0x00]"

primrec nulterminate :: "token cmd \<Rightarrow> string \<Rightarrow> string" where
  "nulterminate (EXEC args) m = fold cut args m"
| "nulterminate (REDIR c file mode fd) m = cut file (nulterminate c m)"
| "nulterminate (PIPE l r) m = nulterminate r (nulterminate l m)"
| "nulterminate (LIST l r) m = nulterminate r (nulterminate l m)"
| "nulterminate (BACK c) m = nulterminate c m"

definition parsecmd :: "string \<Rightarrow> (token cmd \<times> string) outcome" where
  "parsecmd line =
     obind (parseline (4 * length line + 4) line) (\<lambda>(c, s).
       let (_, s) = peek s [] in
       if s \<noteq> [] then Panic ''syntax'' else Ret (c, nulterminate c (line @ [CHR 0x00])))"

section \<open>What the parser builds\<close>

text \<open>
  A word of the line \<open>b\<close>: a maximal run of plain characters, that is, not empty and followed
  by the end of the line or by a character that is not plain.
\<close>

definition tok_str :: "token \<Rightarrow> string" where
  "tok_str t = take (length (fst t) - length (snd t)) (fst t)"

definition tok_ok :: "string \<Rightarrow> token \<Rightarrow> bool" where
  "tok_ok b t \<longleftrightarrow> suffix (fst t) b \<and> fst t = tok_str t @ snd t \<and> tok_str t \<noteq> [] \<and> list_all plain (tok_str t) \<and>
     (snd t = [] \<or> \<not> plain (hd (snd t)))"

definition redir_ok :: "('t \<Rightarrow> bool) \<Rightarrow> 't redir \<Rightarrow> bool" where
  "redir_ok ok r \<longleftrightarrow> ok (fst r) \<and> snd r \<in> {(O_RDONLY, 0), (O_WRONLY_CREATE, 1)}"

primrec cmd_ok :: "('t \<Rightarrow> bool) \<Rightarrow> 't cmd \<Rightarrow> bool" where
  "cmd_ok ok (EXEC args) \<longleftrightarrow> length args < MAXARGS \<and> list_all ok args"
| "cmd_ok ok (REDIR c file mode fd) \<longleftrightarrow> cmd_ok ok c \<and> redir_ok ok (file, mode, fd)"
| "cmd_ok ok (PIPE l r) \<longleftrightarrow> cmd_ok ok l \<and> cmd_ok ok r"
| "cmd_ok ok (LIST l r) \<longleftrightarrow> cmd_ok ok l \<and> cmd_ok ok r"
| "cmd_ok ok (BACK c) \<longleftrightarrow> cmd_ok ok c"

text \<open>A parsing step from \<open>s\<close> ends: it moves forward to a result with \<open>P\<close>, or it panics.\<close>

definition lands :: "string \<Rightarrow> ('x \<Rightarrow> bool) \<Rightarrow> ('x \<times> string) outcome \<Rightarrow> bool" where
  "lands s P m \<longleftrightarrow> (case m of Ret (x, s') \<Rightarrow> suffix s' s \<and> P x | Panic _ \<Rightarrow> True | _ \<Rightarrow> False)"

lemma lands_Ret [simp]: "lands s P (Ret (x, s')) \<longleftrightarrow> suffix s' s \<and> P x"
  by (simp add: lands_def)

lemma lands_Panic [simp]: "lands s P (Panic e)"
  by (simp add: lands_def)

lemma lands_bind:
  assumes "lands s1 Q m" "suffix s1 s" "\<And>x s'. suffix s' s1 \<Longrightarrow> Q x \<Longrightarrow> lands s' P (k (x, s'))"
  shows "lands s P (obind m k)"
proof (cases m)
  case (Ret y)
  obtain x s' where y: "y = (x, s')" by (cases y)
  then have "suffix s' s1" "Q x" using assms(1) Ret by simp_all
  with assms(2,3) Ret y have "lands s' P (k (x, s'))" "suffix s' s" by (auto intro: suffix_order.trans)
  then show ?thesis using Ret y unfolding lands_def by (auto split: outcome.splits intro: suffix_order.trans)
qed (use assms(1) in \<open>auto simp: lands_def\<close>)

lemma lands_mono: "lands s' P m \<Longrightarrow> suffix s' s \<Longrightarrow> lands s P m"
  unfolding lands_def by (auto split: outcome.splits intro: suffix_order.trans)

lemma suffix_len: "suffix s' s \<Longrightarrow> length s' \<le> length s"
  by (rule suffix_length_le)

lemma peek_eq: "peek s toks = (deref (dropWhile is_ws s) \<noteq> CHR 0x00 \<and> strchr toks (deref (dropWhile is_ws s)) \<noteq> None, dropWhile is_ws s)"
  by (simp add: peek_def Let_def)

lemma gettoken_suffix: "gettoken s = (r, t, s') \<Longrightarrow> suffix s' s"
proof -
  assume g: "gettoken s = (r, t, s')"
  have tl: "suffix (tl x) x" for x :: string by (cases x) (auto simp: suffix_Cons)
  define d where "d = dropWhile is_ws s"
  have "\<exists>e. s' = dropWhile is_ws e \<and> suffix e d"
    using g tl [of d] suffix_order.trans [OF tl [of "tl d"] tl [of d]] suffix_dropWhile [of plain d]
    unfolding gettoken_def Let_def d_def [symmetric] by (auto split: if_splits)
  then show ?thesis unfolding d_def using suffix_dropWhile suffix_order.trans by blast
qed

lemma gettoken_shorter:
  assumes "deref (dropWhile is_ws s) \<noteq> CHR 0x00" "gettoken s = (r, t, s')"
  shows "length s' < length s"
proof -
  obtain c d where d: "dropWhile is_ws s = c # d" using assms(1) by (cases "dropWhile is_ws s") (auto simp: deref_def)
  have sym: "is_ws c \<or> plain c \<or> c \<in> set ''|();&<'' \<or> c = CHR ''>''"
    by (auto simp: plain_def is_sym_def symbols_def)
  have ws: "\<not> is_ws c" using hd_dropWhile [of is_ws s] d by auto
  have le: "length (dropWhile P x) \<le> length x" "length (dropWhile P (tl d)) \<le> length d" for P :: "char \<Rightarrow> bool" and x
    by (auto intro: length_dropWhile_le order_trans [OF length_dropWhile_le])
  have "length s' \<le> length d"
    using assms d sym ws le(1) [of is_ws d] le(2) [of is_ws] order_trans [OF le(1) [of is_ws "dropWhile plain d"] le(1) [of plain d]]
    unfolding gettoken_def by (auto simp: Let_def deref_def split: if_splits)
  also have "\<dots> < length s" using length_dropWhile_le [of is_ws s] d by simp
  finally show ?thesis .
qed

lemma gettoken_word:
  assumes "gettoken s = (CHR ''a'', t, s')" "suffix s b"
  shows "tok_ok b t"
proof -
  define d where "d = dropWhile is_ws s"
  have d: "d \<noteq> []" "hd d \<notin> set ''|();&<''" "hd d \<noteq> CHR ''>''" "t = (d, dropWhile plain d)"
    using assms(1) unfolding gettoken_def Let_def d_def by (auto split: if_splits)
  have "plain (hd d)" using d(1-3) hd_dropWhile [of is_ws s] unfolding d_def
    by (auto simp: plain_def is_sym_def symbols_def)
  then have ne: "takeWhile plain d \<noteq> []" using d(1) by (cases d) auto
  have len: "length d - length (dropWhile plain d) = length (takeWhile plain d)"
    by (metis add_diff_cancel_right' length_append takeWhile_dropWhile_id)
  have str: "tok_str t = takeWhile plain d"
    unfolding tok_str_def d(4) fst_conv snd_conv len by (simp add: takeWhile_eq_take [symmetric])
  have "suffix d b" unfolding d_def using suffix_dropWhile assms(2) suffix_order.trans by blast
  moreover have "dropWhile plain d = [] \<or> \<not> plain (hd (dropWhile plain d))" using hd_dropWhile by blast
  moreover have "list_all plain (takeWhile plain d)" unfolding list_all_iff by (blast dest: set_takeWhileD)
  ultimately show ?thesis unfolding tok_ok_def str using ne d(4) by simp
qed

lemma peek_suffix: "suffix (dropWhile is_ws s) s"
  by (rule suffix_dropWhile)

lemma add_redirs_ok: "cmd_ok ok c \<Longrightarrow> list_all (redir_ok ok) rs \<Longrightarrow> cmd_ok ok (add_redirs c rs)"
  unfolding add_redirs_def by (induction rs arbitrary: c) (auto simp: redir_ok_def)

text \<open>The next token after a successful \<open>peek\<close> is consumed.\<close>

lemma peek_token:
  assumes "peek s toks = (True, s1)" "gettoken s1 = (r, t, s2)"
  shows "suffix s2 s" "length s2 < length s"
proof -
  have s1: "suffix s1 s" "deref (dropWhile is_ws s1) \<noteq> CHR 0x00"
    using assms(1) by (auto simp: peek_eq intro: peek_suffix)
  show "suffix s2 s" using gettoken_suffix [OF assms(2)] s1(1) suffix_order.trans by blast
  show "length s2 < length s" using gettoken_shorter [OF s1(2) assms(2)] suffix_len [OF s1(1)] by simp
qed

lemma peek_suffixD: "peek s toks = (p, s1) \<Longrightarrow> suffix s1 s"
  by (auto simp: peek_eq intro: peek_suffix)

lemma parseredirs_lands:
  "length s < n \<Longrightarrow> suffix s b \<Longrightarrow> lands s (list_all (redir_ok (tok_ok b))) (parseredirs n s)"
proof (induction n arbitrary: s)
  case (Suc n)
  obtain p s1 where p: "peek s ''<>'' = (p, s1)" by fastforce
  show ?case
  proof (cases p)
    case True
    obtain tok t s2 where t: "gettoken s1 = (tok, t, s2)" by (rule prod_cases3)
    obtain word f s3 where w: "gettoken s2 = (word, f, s3)" by (rule prod_cases3)
    have pt: "peek s ''<>'' = (True, s1)" using p True by simp
    note s2 = peek_token [OF pt t]
    have s3: "suffix s3 s2" by (rule gettoken_suffix [OF w])
    have b: "suffix s2 b" "suffix s3 b" using s2(1) s3 Suc.prems(2) suffix_order.trans by blast+
    have IH: "lands s3 (list_all (redir_ok (tok_ok b))) (parseredirs n s3)"
      using Suc.prems(1) s2(2) suffix_len [OF s3] b(2) by (intro Suc.IH) auto
    show ?thesis
    proof (cases "word = CHR ''a''")
      case word: True
      have "tok_ok b f" using gettoken_word [OF w [unfolded word] b(1)] .
      then have "redir_ok (tok_ok b) (f, O_RDONLY, 0)" "redir_ok (tok_ok b) (f, O_WRONLY_CREATE, 1)" by (simp_all add: redir_ok_def)
      then show ?thesis using p True t w word s2(1) s3
        by (auto intro!: lands_bind [OF IH] suffix_order.trans [OF s3])
    qed (use p True t w in simp)
  qed (use p peek_suffixD [OF p] in simp)
qed simp

lemma exec_args_lands:
  "length s < n \<Longrightarrow> suffix s b \<Longrightarrow> length args < MAXARGS \<Longrightarrow> list_all (tok_ok b) args \<Longrightarrow> list_all (redir_ok (tok_ok b)) rs \<Longrightarrow>
     lands s (cmd_ok (tok_ok b)) (exec_args n rs args s)"
proof (induction n arbitrary: s rs args)
  case (Suc n)
  obtain p s1 where p: "peek s ''|)&;'' = (p, s1)" by fastforce
  obtain tok t s2 where t: "gettoken s1 = (tok, t, s2)" by (rule prod_cases3)
  have s1: "suffix s1 s" by (rule peek_suffixD [OF p])
  have s2: "suffix s2 s" using gettoken_suffix [OF t] s1 suffix_order.trans by blast
  have ok: "cmd_ok (tok_ok b) (add_redirs (EXEC args) rs)" using Suc.prems by (intro add_redirs_ok) simp_all
  show ?case
  proof (cases "\<not> p \<and> tok = CHR ''a'' \<and> length args + 1 < MAXARGS")
    case True
    have "deref (dropWhile is_ws s1) \<noteq> CHR 0x00" using True t unfolding gettoken_def by (auto simp: Let_def deref_def split: if_splits list.splits)
    then have len: "length s2 < length s" using gettoken_shorter t suffix_len [OF s1] by fastforce
    have tok: "tok_ok b t" using gettoken_word t True s1 Suc.prems(2) suffix_order.trans by blast
    have b: "suffix s2 b" using s2 Suc.prems(2) suffix_order.trans by blast
    have r: "lands s2 (list_all (redir_ok (tok_ok b))) (parseredirs n s2)"
      using Suc.prems(1) len b by (intro parseredirs_lands) auto
    have "lands s (cmd_ok (tok_ok b)) (obind (parseredirs n s2) (\<lambda>(more, s). exec_args n (rs @ more) (args @ [t]) s))"
    proof (rule lands_bind [OF r s2])
      fix more s' assume "suffix s' s2" "list_all (redir_ok (tok_ok b)) more"
      then show "lands s' (cmd_ok (tok_ok b)) (case (more, s') of (more, s) \<Rightarrow> exec_args n (rs @ more) (args @ [t]) s)"
        using Suc.prems(1,4,5) True tok len suffix_len [of s' s2] suffix_order.trans [OF _ b, of s'] by (auto intro!: Suc.IH)
    qed
    then show ?thesis using p t True by simp
  qed (use p t s1 s2 ok in auto)
qed simp

lemma backs_lands:
  "length s < n \<Longrightarrow> cmd_ok ok c \<Longrightarrow> lands s (cmd_ok ok) (backs n c s)"
proof (induction n arbitrary: s c)
  case (Suc n)
  obtain p s1 where p: "peek s ''&'' = (p, s1)" by fastforce
  obtain tok t s2 where t: "gettoken s1 = (tok, t, s2)" by (rule prod_cases3)
  show ?case
  proof (cases p)
    case True
    have pt: "peek s ''&'' = (True, s1)" using p True by simp
    note s2 = peek_token [OF pt t]
    have "lands s2 (cmd_ok ok) (backs n (BACK c) s2)" using Suc.prems s2(2) by (intro Suc.IH) auto
    then show ?thesis using p True t lands_mono [OF _ s2(1)] by simp
  qed (use p Suc.prems peek_suffixD [OF p] in simp)
qed simp

lemma token_lands:
  assumes "peek s toks = (True, s1)" "gettoken s1 = (r, t, s2)"
    "length s2 < length s \<Longrightarrow> suffix s2 s \<Longrightarrow> lands s2 P m"
  shows "lands s P m"
  using peek_token [OF assms(1,2)] assms(3) lands_mono by blast

text \<open>The four functions land where their fuel exceeds what is left of the line \<open>b\<close>.\<close>

definition parses :: "string \<Rightarrow> nat \<Rightarrow> bool" where
  "parses b n \<longleftrightarrow> (\<forall>s. suffix s b \<longrightarrow>
     (4 * length s + 4 \<le> n \<longrightarrow> lands s (cmd_ok (tok_ok b)) (parseline n s)) \<and>
     (4 * length s + 3 \<le> n \<longrightarrow> lands s (cmd_ok (tok_ok b)) (parsepipe n s)) \<and>
     (4 * length s + 2 \<le> n \<longrightarrow> lands s (cmd_ok (tok_ok b)) (parseexec n s)) \<and>
     (4 * length s + 1 \<le> n \<longrightarrow> lands s (cmd_ok (tok_ok b)) (parseblock n s)))"

lemma suffix_trans: "suffix x y \<Longrightarrow> suffix y z \<Longrightarrow> suffix x z"
  by (rule suffix_order.trans)

lemma line_tail_lands:
  assumes "parses b n" "suffix s b" "4 * length s \<le> n" "cmd_ok (tok_ok b) c"
  shows "lands s (cmd_ok (tok_ok b)) (let (more, s) = peek s '';'' in
     if more then let (_, _, s) = gettoken s in obind (parseline n s) (\<lambda>(d, s). Ret (LIST c d, s)) else Ret (c, s))"
proof -
  obtain p s1 where p: "peek s '';'' = (p, s1)" by fastforce
  obtain tok t s2 where t: "gettoken s1 = (tok, t, s2)" by (rule prod_cases3)
  have "lands s (cmd_ok (tok_ok b)) (obind (parseline n s2) (\<lambda>(d, s). Ret (LIST c d, s)))" if p
  proof (rule token_lands [OF _ t])
    show "peek s '';'' = (True, s1)" using p that by simp
    assume l: "length s2 < length s" "suffix s2 s"
    then have "lands s2 (cmd_ok (tok_ok b)) (parseline n s2)" using assms(1-3) suffix_trans [OF l(2) assms(2)] unfolding parses_def by auto
    then show "lands s2 (cmd_ok (tok_ok b)) (obind (parseline n s2) (\<lambda>(d, s). Ret (LIST c d, s)))"
      by (rule lands_bind) (use assms(4) in auto)
  qed
  then show ?thesis using p t assms(4) peek_suffixD [OF p] by simp
qed

lemma pipe_tail_lands:
  assumes "parses b n" "suffix s b" "4 * length s \<le> Suc n" "cmd_ok (tok_ok b) c"
  shows "lands s (cmd_ok (tok_ok b)) (let (more, s) = peek s ''|'' in
     if more then let (_, _, s) = gettoken s in obind (parsepipe n s) (\<lambda>(d, s). Ret (PIPE c d, s)) else Ret (c, s))"
proof -
  obtain p s1 where p: "peek s ''|'' = (p, s1)" by fastforce
  obtain tok t s2 where t: "gettoken s1 = (tok, t, s2)" by (rule prod_cases3)
  have "lands s (cmd_ok (tok_ok b)) (obind (parsepipe n s2) (\<lambda>(d, s). Ret (PIPE c d, s)))" if p
  proof (rule token_lands [OF _ t])
    show "peek s ''|'' = (True, s1)" using p that by simp
    assume l: "length s2 < length s" "suffix s2 s"
    then have "lands s2 (cmd_ok (tok_ok b)) (parsepipe n s2)" using assms(1-3) suffix_trans [OF l(2) assms(2)] unfolding parses_def by auto
    then show "lands s2 (cmd_ok (tok_ok b)) (obind (parsepipe n s2) (\<lambda>(d, s). Ret (PIPE c d, s)))"
      by (rule lands_bind) (use assms(4) in auto)
  qed
  then show ?thesis using p t assms(4) peek_suffixD [OF p] by simp
qed

lemma block_tail_lands:
  assumes "suffix s b" "length s \<le> n" "cmd_ok (tok_ok b) c"
  shows "lands s (cmd_ok (tok_ok b)) (let (close, s) = peek s '')'' in
     if \<not> close then Panic ''syntax - missing )'' else let (_, _, s) = gettoken s in
       obind (parseredirs n s) (\<lambda>(rs, s). Ret (add_redirs c rs, s)))"
proof -
  obtain p s1 where p: "peek s '')'' = (p, s1)" by fastforce
  obtain tok t s2 where t: "gettoken s1 = (tok, t, s2)" by (rule prod_cases3)
  have "lands s (cmd_ok (tok_ok b)) (obind (parseredirs n s2) (\<lambda>(rs, s). Ret (add_redirs c rs, s)))" if p
  proof (rule token_lands [OF _ t])
    show "peek s '')'' = (True, s1)" using p that by simp
    assume l: "length s2 < length s" "suffix s2 s"
    then have "lands s2 (list_all (redir_ok (tok_ok b))) (parseredirs n s2)"
      using assms(1,2) suffix_trans by (intro parseredirs_lands) auto
    then show "lands s2 (cmd_ok (tok_ok b)) (obind (parseredirs n s2) (\<lambda>(rs, s). Ret (add_redirs c rs, s)))"
      by (rule lands_bind) (use assms(3) in \<open>auto intro: add_redirs_ok\<close>)
  qed
  then show ?thesis using p t by simp
qed

lemma parseline_lands:
  assumes "parses b n" "suffix s b" "4 * length s + 4 \<le> Suc n"
  shows "lands s (cmd_ok (tok_ok b)) (parseline (Suc n) s)"
proof -
  have m: "lands s (cmd_ok (tok_ok b)) (parsepipe n s)" using assms unfolding parses_def by auto
  show ?thesis unfolding parseline.simps
  proof (rule lands_bind [OF m], simp, simp only: prod.case)
    fix c s1 assume c: "suffix s1 s" "cmd_ok (tok_ok b) c"
    have bk: "lands s1 (cmd_ok (tok_ok b)) (backs n c s1)" using c assms(3) suffix_len [OF c(1)] by (intro backs_lands) auto
    show "lands s1 (cmd_ok (tok_ok b)) (obind (backs n c s1) (\<lambda>(c, s). let (more, s) = peek s '';'' in
       if more then let (_, _, s) = gettoken s in obind (parseline n s) (\<lambda>(d, s). Ret (LIST c d, s)) else Ret (c, s)))"
    proof (rule lands_bind [OF bk], simp, simp only: prod.case)
      fix d s2 assume d: "suffix s2 s1" "cmd_ok (tok_ok b) d"
      show "lands s2 (cmd_ok (tok_ok b)) (let (more, s) = peek s2 '';'' in
         if more then let (_, _, s) = gettoken s in obind (parseline n s) (\<lambda>(e, s). Ret (LIST d e, s)) else Ret (d, s))"
        using assms(3) suffix_len [OF c(1)] suffix_len [OF d(1)]
        by (intro line_tail_lands [OF assms(1) suffix_trans [OF d(1) suffix_trans [OF c(1) assms(2)]] _ d(2)]) auto
    qed
  qed
qed

lemma parsepipe_lands:
  assumes "parses b n" "suffix s b" "4 * length s + 3 \<le> Suc n"
  shows "lands s (cmd_ok (tok_ok b)) (parsepipe (Suc n) s)"
proof -
  have m: "lands s (cmd_ok (tok_ok b)) (parseexec n s)" using assms unfolding parses_def by auto
  show ?thesis unfolding parsepipe.simps
  proof (rule lands_bind [OF m], simp, simp only: prod.case)
    fix c s1 assume c: "suffix s1 s" "cmd_ok (tok_ok b) c"
    show "lands s1 (cmd_ok (tok_ok b)) (let (more, s) = peek s1 ''|'' in
       if more then let (_, _, s) = gettoken s in obind (parsepipe n s) (\<lambda>(d, s). Ret (PIPE c d, s)) else Ret (c, s))"
      using assms(3) suffix_len [OF c(1)] by (intro pipe_tail_lands [OF assms(1) suffix_trans [OF c(1) assms(2)] _ c(2)]) auto
  qed
qed

lemma parseexec_lands:
  assumes "parses b n" "suffix s b" "4 * length s + 2 \<le> Suc n"
  shows "lands s (cmd_ok (tok_ok b)) (parseexec (Suc n) s)"
proof -
  obtain p s1 where p: "peek s ''('' = (p, s1)" by fastforce
  have s1: "suffix s1 s" "suffix s1 b" "length s1 \<le> length s"
    using peek_suffixD [OF p] assms(2) suffix_trans suffix_len by blast+
  then have bl: "lands s1 (cmd_ok (tok_ok b)) (parseblock n s1)" using assms unfolding parses_def by auto
  have r: "lands s1 (list_all (redir_ok (tok_ok b))) (parseredirs n s1)" using assms(3) s1 by (intro parseredirs_lands) auto
  have "lands s (cmd_ok (tok_ok b)) (obind (parseredirs n s1) (\<lambda>(rs, s). exec_args n rs [] s))"
  proof (rule lands_bind [OF r s1(1)], simp only: prod.case)
    fix rs s2 assume s2: "suffix s2 s1" "list_all (redir_ok (tok_ok b)) rs"
    then show "lands s2 (cmd_ok (tok_ok b)) (exec_args n rs [] s2)"
      using assms(3) s1(3) suffix_len [OF s2(1)] suffix_trans [OF s2(1) s1(2)] by (intro exec_args_lands) auto
  qed
  then show ?thesis using p lands_mono [OF bl s1(1)] by simp
qed

lemma parseblock_lands:
  assumes "parses b n" "suffix s b" "4 * length s + 1 \<le> Suc n"
  shows "lands s (cmd_ok (tok_ok b)) (parseblock (Suc n) s)"
proof -
  obtain p s1 where p: "peek s ''('' = (p, s1)" by fastforce
  obtain tok t s2 where t: "gettoken s1 = (tok, t, s2)" by (rule prod_cases3)
  define rest where "rest = (\<lambda>(c, s). let (close, s) = peek s '')'' in
        if \<not> close then Panic ''syntax - missing )'' else let (_, _, s) = gettoken s in
          obind (parseredirs n s) (\<lambda>(rs, s). Ret (add_redirs c rs, s)))"
  have "lands s (cmd_ok (tok_ok b)) (obind (parseline n s2) rest)" if p
  proof (rule token_lands [OF _ t])
    show "peek s ''('' = (True, s1)" using p that by simp
    assume l: "length s2 < length s" "suffix s2 s"
    have m: "lands s2 (cmd_ok (tok_ok b)) (parseline n s2)"
      using l assms suffix_trans [OF l(2) assms(2)] unfolding parses_def by auto
    show "lands s2 (cmd_ok (tok_ok b)) (obind (parseline n s2) rest)"
    proof (rule lands_bind [OF m], simp)
      fix c s3 assume c: "suffix s3 s2" "cmd_ok (tok_ok b) c"
      show "lands s3 (cmd_ok (tok_ok b)) (rest (c, s3))" unfolding rest_def prod.case
        using l assms(3) suffix_len [OF c(1)] suffix_trans [OF c(1) suffix_trans [OF l(2) assms(2)]] c(2) by (intro block_tail_lands) auto
    qed
  qed
  then show ?thesis using p t by (simp add: rest_def)
qed

lemma parses_all: "parses b n"
proof (induction n)
  case 0
  then show ?case by (simp add: parses_def)
next
  case (Suc n)
  show ?case unfolding parses_def
    using parseline_lands [OF Suc] parsepipe_lands [OF Suc] parseexec_lands [OF Suc] parseblock_lands [OF Suc] by simp
qed

section \<open>NUL termination\<close>

text \<open>\<open>m'\<close> is \<open>m\<close> with a NUL at the end of each word of \<open>T\<close>.\<close>

definition cuts :: "token set \<Rightarrow> string \<Rightarrow> string \<Rightarrow> bool" where
  "cuts T m m' \<longleftrightarrow> length m' = length m \<and>
     (\<forall>i < length m. m' ! i = (if \<exists>t \<in> T. i = length m - 1 - length (snd t) then CHR 0x00 else m ! i))"

lemma cuts_trans: "cuts T m m' \<Longrightarrow> cuts U m' m'' \<Longrightarrow> cuts (T \<union> U) m m''"
  unfolding cuts_def by auto

lemma cuts_empty: "cuts {} m m"
  by (simp add: cuts_def)

lemma cuts_cut: "cuts {t} m (cut t m)"
  by (auto simp: cuts_def cut_def nth_list_update)

lemma cuts_fold: "cuts (set ts) m (fold cut ts m)"
proof (induction ts arbitrary: m)
  case (Cons t ts)
  have "cuts ({t} \<union> set ts) m (fold cut ts (cut t m))" by (rule cuts_trans [OF cuts_cut Cons.IH])
  then show ?case by simp
qed (simp add: cuts_empty)

lemma cuts_nulterminate: "cuts (set_cmd c) m (nulterminate c m)"
proof (induction c arbitrary: m)
  case (REDIR c f mode fd)
  have "cuts (set_cmd c \<union> {f}) m (cut f (nulterminate c m))" by (rule cuts_trans [OF REDIR.IH cuts_cut])
  then show ?case by simp
next
  case (PIPE l r)
  show ?case using cuts_trans [OF PIPE.IH(1) PIPE.IH(2)] by simp
next
  case (LIST l r)
  show ?case using cuts_trans [OF LIST.IH(1) LIST.IH(2)] by simp
qed (simp_all add: cuts_fold)

lemma cmd_ok_mono: "cmd_ok ok c \<Longrightarrow> (\<And>t. t \<in> set_cmd c \<Longrightarrow> ok t \<Longrightarrow> ok' t) \<Longrightarrow> cmd_ok ok' c"
  by (induction c) (auto simp: list_all_iff redir_ok_def)

lemma cmd_ok_set: "cmd_ok ok c \<Longrightarrow> t \<in> set_cmd c \<Longrightarrow> ok t"
  by (induction c) (auto simp: list_all_iff redir_ok_def)

text \<open>Where a word lies in the line.\<close>

lemma tok_place:
  assumes "tok_ok b t"
  shows "length (fst t) \<le> length b" "length (fst t) = length (tok_str t) + length (snd t)"
    "drop (length b - length (fst t)) b = tok_str t @ snd t"
    "snd t \<noteq> [] \<Longrightarrow> \<not> plain (b ! (length b - length (snd t)))"
proof -
  obtain u where u: "b = u @ fst t" using assms unfolding tok_ok_def suffix_def by blast
  have f: "fst t = tok_str t @ snd t" using assms unfolding tok_ok_def by blast
  have len: "length (fst t) = length (tok_str t) + length (snd t)" by (metis f length_append)
  show "length (fst t) \<le> length b" using u by simp
  show "length (fst t) = length (tok_str t) + length (snd t)" by (rule len)
  show "drop (length b - length (fst t)) b = tok_str t @ snd t" using u f by simp
  assume s: "snd t \<noteq> []"
  have "b ! (length b - length (snd t)) = hd (snd t)"
    using u f s len by (metis add_diff_cancel_right' append.assoc hd_conv_nth length_append nth_append_length_plus add.right_neutral)
  then show "\<not> plain (b ! (length b - length (snd t)))" using assms s unfolding tok_ok_def by auto
qed

lemma cut_word:
  assumes nul: "CHR 0x00 \<notin> set b" and T: "\<And>t. t \<in> T \<Longrightarrow> tok_ok b t" and m: "cuts T (b @ [CHR 0x00]) m" and t: "t \<in> T"
  shows "takeWhile (\<lambda>c. c \<noteq> CHR 0x00) (drop (length b - length (fst t)) m) = tok_str t"
proof -
  define w where "w = tok_str t"
  define p where "p = length b - length (fst t)"
  note pl = tok_place [OF T [OF t]]
  have len: "length m = length b + 1" using m unfolding cuts_def by simp
  have fin: "p + length w = length b - length (snd t)" using pl(1,2) unfolding p_def w_def by simp
  have at: "b ! (p + i) = w ! i \<and> plain (w ! i) \<and> p + i < length b" if "i < length w" for i
  proof -
    have "drop p b ! i = w ! i" unfolding p_def pl(3) using that by (simp add: nth_append w_def)
    moreover have "p + i < length b" using that fin by simp
    moreover have "plain (w ! i)" using T [OF t] that unfolding tok_ok_def w_def by (simp add: list_all_length)
    ultimately show ?thesis by simp
  qed
  have ne: "p + i \<noteq> length b - length (snd u)" if "i < length w" "u \<in> T" for i u
    using at [OF that(1)] tok_place(4) [OF T [OF that(2)]] by (cases "snd u = []") auto
  have keep: "m ! (p + i) = w ! i" if "i < length w" for i
    using m at [OF that] ne [OF that] unfolding cuts_def by (auto simp: nth_append)
  have stop: "m ! (p + length w) = CHR 0x00" using m t fin unfolding cuts_def by auto
  have bd: "p + length w < length m" using fin len by simp
  have "drop p m = w @ CHR 0x00 # drop (p + length w + 1) m"
    using bd keep stop by (intro nth_equalityI) (auto simp: nth_append nth_Cons split: nat.splits, metis add.assoc add.commute add_Suc_right le_add_diff_inverse not_less plus_1_eq_Suc)
  moreover have "c \<noteq> CHR 0x00" if "c \<in> set w" for c
    using that at nul by (metis in_set_conv_nth nth_mem)
  ultimately show ?thesis unfolding p_def [symmetric] w_def [symmetric] by (simp add: takeWhile_append)
qed

section \<open>Printing\<close>

primrec show_cmd :: "string cmd \<Rightarrow> string" where
  "show_cmd (EXEC args) = concat (map (\<lambda>w. w @ '' '') args)"
| "show_cmd (REDIR c file mode fd) = ''('' @ show_cmd c @ '')'' @ (if mode = O_RDONLY then ''<'' else ''>'') @ file"
| "show_cmd (PIPE l r) = ''('' @ show_cmd l @ '')|('' @ show_cmd r @ '')''"
| "show_cmd (LIST l r) = ''('' @ show_cmd l @ '');('' @ show_cmd r @ '')''"
| "show_cmd (BACK c) = ''('' @ show_cmd c @ '')&''"

text \<open>A word that can be written in a command line.\<close>

definition word_ok :: "string \<Rightarrow> bool" where
  "word_ok w \<longleftrightarrow> w \<noteq> [] \<and> list_all plain w \<and> CHR 0x00 \<notin> set w"

definition sym :: "char \<Rightarrow> bool" where
  "sym c \<longleftrightarrow> c \<in> set ''|();&<>''"

lemma sym_ws: "sym c \<Longrightarrow> \<not> is_ws c" "sym c \<Longrightarrow> \<not> plain c" "sym c \<Longrightarrow> c \<noteq> CHR 0x00"
  by (auto simp: sym_def is_ws_def whitespace_def plain_def is_sym_def symbols_def)

lemma strchr_iff: "strchr s c \<noteq> None \<longleftrightarrow> c \<in> set s"
  by (induction s) auto

lemma plain_nsym: "plain c \<Longrightarrow> \<not> is_ws c \<and> c \<notin> set ''|();&<>''"
  by (auto simp: plain_def is_sym_def symbols_def)

text \<open>A place in the line where the next character is not white space.\<close>

definition tight :: "string \<Rightarrow> bool" where
  "tight s \<longleftrightarrow> s = [] \<or> \<not> is_ws (hd s)"

lemma tight_dropWhile [simp]: "tight s \<Longrightarrow> dropWhile is_ws s = s"
  by (cases s) (auto simp: tight_def)

lemma tight_Cons [simp]: "tight (c # s) \<longleftrightarrow> \<not> is_ws c" "tight []"
  by (simp_all add: tight_def)

lemma peek_tight: "tight s \<Longrightarrow> peek s toks = (s \<noteq> [] \<and> hd s \<noteq> CHR 0x00 \<and> hd s \<in> set toks, s)"
  by (cases s) (auto simp: peek_eq deref_def strchr_iff simp del: not_None_eq)

lemma gettoken_sym:
  assumes "c \<in> set ''|();&<''"
  shows "gettoken (c # s) = (c, (c # s, s), dropWhile is_ws s)"
proof -
  have "\<not> is_ws c" "c \<noteq> CHR 0x00" using assms sym_ws [of c] by (auto simp: sym_def)
  then show ?thesis using assms by (simp add: gettoken_def)
qed

lemma gettoken_gt: "deref s \<noteq> CHR ''>'' \<Longrightarrow> gettoken (CHR ''>'' # s) = (CHR ''>'', (CHR ''>'' # s, s), dropWhile is_ws s)"
  using sym_ws(1) [of "CHR ''>''"] by (simp add: gettoken_def sym_def)

lemma gettoken_plain:
  assumes "word_ok w" "rest = [] \<or> \<not> plain (hd rest)"
  shows "gettoken (w @ rest) = (CHR ''a'', (w @ rest, rest), dropWhile is_ws rest)"
proof -
  obtain c v where w: "w = c # v" "plain c" "c \<noteq> CHR 0x00" "list_all plain w" using assms(1) by (cases w) (auto simp: word_ok_def)
  have "dropWhile plain (w @ rest) = rest" using w(4) assms(2) by (cases rest) (auto simp: list_all_iff dropWhile_append)
  then show ?thesis using w(1-3) plain_nsym [OF w(2)] by (auto simp: gettoken_def)
qed

lemma tok_str_at [simp]: "tok_str (w @ rest, rest) = w"
  by (simp add: tok_str_def)

text \<open>A place where a command may end.\<close>

definition ends :: "string \<Rightarrow> bool" where
  "ends s \<longleftrightarrow> s = [] \<or> hd s = CHR '')''"

lemma endsD: "ends s \<Longrightarrow> tight s" "ends s \<Longrightarrow> s = [] \<or> \<not> plain (hd s)"
  using sym_ws [of "CHR '')''"] by (auto simp: ends_def tight_def sym_def)

lemma exec_args_show:
  assumes "list_all word_ok ws" "length args + length ws < MAXARGS" "length ws < n" "ends rest"
  shows "\<exists>ts. exec_args n [] args (concat (map (\<lambda>w. w @ '' '') ws) @ rest) = Ret (EXEC (args @ ts), rest) \<and> map tok_str ts = ws"
  using assms
proof (induction ws arbitrary: n args)
  case Nil
  then obtain k where n: "n = Suc k" by (cases n) auto
  show ?case
  proof (cases rest)
    case Nil
    then show ?thesis using n by (simp add: peek_tight gettoken_def add_redirs_def)
  next
    case (Cons c r)
    then show ?thesis using Nil.prems n endsD(1) [of rest] by (auto simp: ends_def peek_tight add_redirs_def)
  qed
next
  case (Cons w ws)
  then obtain k where n: "n = Suc k" "length ws < k" by (cases n) auto
  define r where "r = concat (map (\<lambda>w. w @ '' '') ws) @ rest"
  have word: "word_ok w" "list_all word_ok ws" using Cons.prems(1) by simp_all
  have sp: "is_ws CHR '' ''" by (simp add: is_ws_def whitespace_def)
  have rt: "tight r"
  proof (cases ws)
    case Nil
    then show ?thesis unfolding r_def using endsD(1) Cons.prems(4) by simp
  next
    case (Cons v vs)
    then show ?thesis unfolding r_def using word(2) plain_nsym by (cases v) (auto simp: word_ok_def)
  qed
  have g: "gettoken (w @ '' '' @ r) = (CHR ''a'', (w @ '' '' @ r, '' '' @ r), r)"
    using gettoken_plain [OF word(1), of "'' '' @ r"] sp rt by (simp add: plain_def)
  obtain c v where w: "w = c # v" "plain c" "c \<noteq> CHR 0x00" using word(1) by (cases w) (auto simp: word_ok_def)
  have pk: "peek (w @ '' '' @ r) ''|)&;'' = (False, w @ '' '' @ r)"
    using w plain_nsym [OF w(2)] by (simp add: peek_tight)
  have nore: "parseredirs k r = Ret ([], r)"
  proof -
    obtain j where "k = Suc j" using n(2) by (cases k) auto
    moreover have "peek r ''<>'' = (False, r)"
    proof (cases ws)
      case Nil
      then show ?thesis using rt Cons.prems(4) unfolding r_def by (auto simp: peek_tight ends_def)
    next
      case (Cons v vs)
      then show ?thesis using rt word(2) plain_nsym unfolding r_def by (cases v) (auto simp: peek_tight word_ok_def)
    qed
    ultimately show ?thesis by simp
  qed
  have "\<exists>ts. exec_args k [] (args @ [(w @ '' '' @ r, '' '' @ r)]) r = Ret (EXEC ((args @ [(w @ '' '' @ r, '' '' @ r)]) @ ts), rest) \<and> map tok_str ts = ws"
    unfolding r_def using Cons.prems(2,4) word(2) n(2) by (intro Cons.IH) auto
  then obtain ts where ts: "exec_args k [] (args @ [(w @ '' '' @ r, '' '' @ r)]) r = Ret (EXEC (args @ (w @ '' '' @ r, '' '' @ r) # ts), rest)" "map tok_str ts = ws"
    by auto
  have "exec_args n [] args (w @ '' '' @ r) = Ret (EXEC (args @ (w @ '' '' @ r, '' '' @ r) # ts), rest)"
    unfolding n(1) using pk g nore ts(1) Cons.prems(2) by simp
  moreover have "tok_str (w @ '' '' @ r, '' '' @ r) = w" by (rule tok_str_at)
  ultimately show ?case using ts(2) unfolding r_def by (intro exI [of _ "(w @ '' '' @ r, '' '' @ r) # ts"]) (simp add: r_def)
qed

lemma show_tight: "cmd_ok word_ok c \<Longrightarrow> ends rest \<Longrightarrow> tight (show_cmd c @ rest)"
proof (cases c)
  case (EXEC args)
  assume "cmd_ok word_ok c" "ends rest"
  then show ?thesis using EXEC endsD(1) plain_nsym by (cases args; cases "hd args") (auto simp: word_ok_def)
qed (use sym_ws(1) [of "CHR ''(''"] in \<open>simp_all add: sym_def\<close>)

text \<open>The commands that \<open>n\<close> steps of fuel parse back, up to a place where a command may end.\<close>

definition reads_back :: "nat \<Rightarrow> string cmd \<Rightarrow> bool" where
  "reads_back k c \<longleftrightarrow> (\<forall>n rest. k \<le> n \<longrightarrow> ends rest \<longrightarrow>
     (\<exists>c'. parseline n (show_cmd c @ rest) = Ret (c', rest) \<and> map_cmd tok_str c' = c))"

lemma block_reads:
  assumes c: "cmd_ok word_ok c" "reads_back k c" and n: "k + 2 \<le> n"
  shows "\<exists>c'. map_cmd tok_str c' = c \<and> parseexec n (''('' @ show_cmd c @ '')'' @ tail) =
    obind (parseredirs (n - 2) (dropWhile is_ws tail)) (\<lambda>(rs, s). Ret (add_redirs c' rs, s))"
proof -
  define j where "j = n - 2"
  then have j: "n = Suc (Suc j)" "k \<le> j" "n - 2 = j" using n by simp_all
  have e: "ends (CHR '')'' # tail)" by (simp add: ends_def)
  obtain c' where c': "parseline j (show_cmd c @ CHR '')'' # tail) = Ret (c', CHR '')'' # tail)" "map_cmd tok_str c' = c"
    using c(2) j(2) e unfolding reads_back_def by blast
  have t: "tight (show_cmd c @ CHR '')'' # tail)" by (rule show_tight [OF c(1) e])
  have ws: "\<not> is_ws CHR ''(''" "\<not> is_ws CHR '')''" using sym_ws(1) by (auto simp: sym_def)
  show ?thesis using c' t ws unfolding j(3) unfolding j(1)
    by (intro exI [of _ c']) (simp add: peek_tight gettoken_sym)
qed

lemma block_ends:
  assumes "cmd_ok word_ok c" "reads_back k c" "k + 3 \<le> n" "tight tail" "tail = [] \<or> hd tail \<notin> set ''<>''"
  shows "\<exists>c'. map_cmd tok_str c' = c \<and> parseexec n (''('' @ show_cmd c @ '')'' @ tail) = Ret (c', tail)"
proof -
  define j where "j = n - 3"
  then have j: "n - 2 = Suc j" using assms(3) by simp
  have "parseredirs (n - 2) (dropWhile is_ws tail) = Ret ([], tail)" using j assms(4,5) by (auto simp: peek_tight)
  then show ?thesis using block_reads [OF assms(1,2), of n tail] assms(3) by (auto simp: add_redirs_def)
qed

lemma ends_peek: "ends s \<Longrightarrow> CHR '')'' \<notin> set toks \<Longrightarrow> peek s toks = (False, s)"
  using endsD(1) [of s] by (auto simp: peek_tight ends_def)

lemma pipe_of_exec: "parseexec n s = Ret (c, rest) \<Longrightarrow> peek rest ''|'' = (False, rest) \<Longrightarrow> parsepipe (Suc n) s = Ret (c, rest)"
  by simp

lemma line_of_exec: "parseexec n s = Ret (c, rest) \<Longrightarrow> ends rest \<Longrightarrow> parseline (Suc (Suc n)) s = Ret (c, rest)"
  by (simp add: ends_peek)

lemma exec_reads:
  assumes "cmd_ok word_ok (EXEC args)"
  shows "reads_back (4 * length (show_cmd (EXEC args)) + 4) (EXEC args)"
  unfolding reads_back_def
proof (intro allI impI)
  fix n rest assume n: "4 * length (show_cmd (EXEC args)) + 4 \<le> n" and e: "ends rest"
  define j where "j = n - 3"
  define s where "s = show_cmd (EXEC args) @ rest"
  have "length args \<le> length (show_cmd (EXEC args))" by (simp add: length_concat comp_def) (induction args, auto)
  then have j: "n = Suc (Suc (Suc j))" "length args < j" using n unfolding j_def by simp_all
  have nb: "peek s ''('' = (False, s)" "peek s ''<>'' = (False, s)"
  proof -
    have t: "tight s" unfolding s_def by (rule show_tight [OF assms e])
    have "s = [] \<or> hd s \<notin> set ''(<>''"
      using assms e plain_nsym unfolding s_def by (cases args; cases "hd args") (auto simp: ends_def word_ok_def)
    then show "peek s ''('' = (False, s)" "peek s ''<>'' = (False, s)" using t by (auto simp: peek_tight)
  qed
  have "\<exists>ts. exec_args j [] [] (concat (map (\<lambda>w. w @ '' '') args) @ rest) = Ret (EXEC ([] @ ts), rest) \<and> map tok_str ts = args"
    using assms j(2) e by (intro exec_args_show) auto
  then obtain ts where ts: "exec_args j [] [] s = Ret (EXEC ts, rest)" "map tok_str ts = args" unfolding s_def by auto
  obtain i where i: "j = Suc i" using j(2) by (cases j) auto
  have "parseexec (Suc j) s = Ret (EXEC ts, rest)" using nb ts(1) i by simp
  then have "parseline n s = Ret (EXEC ts, rest)" unfolding j(1) using e by (rule line_of_exec)
  then show "\<exists>c'. parseline n (show_cmd (EXEC args) @ rest) = Ret (c', rest) \<and> map_cmd tok_str c' = EXEC args"
    unfolding s_def using ts(2) by auto
qed

lemma redir_reads:
  assumes c: "cmd_ok word_ok (REDIR c f mode fd)" and IH: "reads_back (4 * length (show_cmd c) + 4) c"
  shows "reads_back (4 * length (show_cmd (REDIR c f mode fd)) + 4) (REDIR c f mode fd)"
  unfolding reads_back_def
proof (intro allI impI)
  fix n rest assume n: "4 * length (show_cmd (REDIR c f mode fd)) + 4 \<le> n" and e: "ends rest"
  define j where "j = n - 6"
  have j: "n = Suc (Suc (Suc (Suc (Suc (Suc j)))))" "4 * length (show_cmd c) + 4 \<le> j" using n unfolding j_def by simp_all
  define g where "g = (if mode = O_RDONLY then CHR ''<'' else CHR ''>'')"
  have ok: "cmd_ok word_ok c" "word_ok f" "(mode, fd) \<in> {(O_RDONLY, 0), (O_WRONLY_CREATE, 1)}" using c by (auto simp: redir_ok_def)
  obtain c' where c': "map_cmd tok_str c' = c" "parseexec (Suc (Suc (Suc (Suc j)))) (''('' @ show_cmd c @ '')'' @ (g # f @ rest)) =
      obind (parseredirs (Suc (Suc j)) (dropWhile is_ws (g # f @ rest))) (\<lambda>(rs, s). Ret (add_redirs c' rs, s))"
    using block_reads [OF ok(1) IH, of "Suc (Suc (Suc (Suc j)))" "g # f @ rest"] j(2) by auto
  have g: "sym g" "g = CHR ''<'' \<or> g = CHR ''>''" by (auto simp: g_def sym_def)
  obtain d v where f: "f = d # v" "plain d" using ok(2) by (cases f) (auto simp: word_ok_def)
  have tok: "gettoken (g # f @ rest) = (g, (g # f @ rest, f @ rest), f @ rest)"
  proof -
    have "dropWhile is_ws (f @ rest) = f @ rest" "deref (f @ rest) \<noteq> CHR ''>''" using f plain_nsym [OF f(2)] by (auto simp: deref_def)
    then show ?thesis using gettoken_sym [of "CHR ''<''" "f @ rest"] gettoken_gt [of "f @ rest"] g(2) by auto
  qed
  have word: "gettoken (f @ rest) = (CHR ''a'', (f @ rest, rest), rest)"
    using gettoken_plain [OF ok(2) endsD(2) [OF e]] endsD(1) [OF e] by simp
  have "parseredirs (Suc (Suc j)) (dropWhile is_ws (g # f @ rest)) = Ret ([((f @ rest, rest), mode, fd)], rest)"
    using g sym_ws [OF g(1)] tok word ok(3) ends_peek [OF e, of "''<>''"] by (auto simp: peek_tight g_def)
  then have "parseexec (Suc (Suc (Suc (Suc j)))) (''('' @ show_cmd c @ '')'' @ (g # f @ rest)) = Ret (REDIR c' (f @ rest, rest) mode fd, rest)"
    unfolding c'(2) by (simp add: add_redirs_def del: parseredirs.simps)
  moreover have "show_cmd (REDIR c f mode fd) @ rest = ''('' @ show_cmd c @ '')'' @ (g # f @ rest)" by (simp add: g_def)
  ultimately have "parseexec (Suc (Suc (Suc (Suc j)))) (show_cmd (REDIR c f mode fd) @ rest) = Ret (REDIR c' (f @ rest, rest) mode fd, rest)"
    by (simp only:)
  then have "parseline n (show_cmd (REDIR c f mode fd) @ rest) = Ret (REDIR c' (f @ rest, rest) mode fd, rest)"
    unfolding j(1) using e by (rule line_of_exec)
  then show "\<exists>c'. parseline n (show_cmd (REDIR c f mode fd) @ rest) = Ret (c', rest) \<and> map_cmd tok_str c' = REDIR c f mode fd"
    using c'(1) by auto
qed

lemma sym_tight: "sym c \<Longrightarrow> tight (c # s)"
  using sym_ws(1) by simp

lemma pipe_reads:
  assumes c: "cmd_ok word_ok (PIPE l r)" and l: "reads_back (4 * length (show_cmd l) + 4) l" and r: "reads_back (4 * length (show_cmd r) + 4) r"
  shows "reads_back (4 * length (show_cmd (PIPE l r)) + 4) (PIPE l r)"
  unfolding reads_back_def
proof (intro allI impI)
  fix n rest assume n: "4 * length (show_cmd (PIPE l r)) + 4 \<le> n" and e: "ends rest"
  define j where "j = n - 3"
  have j: "n = Suc (Suc (Suc j))" "4 * length (show_cmd l) + 7 \<le> j" "4 * length (show_cmd r) + 7 \<le> j" using n unfolding j_def by simp_all
  define tl where "tl = CHR ''|'' # ''('' @ show_cmd r @ '')'' @ rest"
  have ws: "sym CHR ''|''" "sym CHR ''(''" by (simp_all add: sym_def)
  obtain l' where l': "map_cmd tok_str l' = l" "parseexec (Suc j) (''('' @ show_cmd l @ '')'' @ tl) = Ret (l', tl)"
    using block_ends [OF _ l, of "Suc j" tl] c j(2) sym_tight [OF ws(1)] unfolding tl_def by auto
  obtain r' where r': "map_cmd tok_str r' = r" "parseexec j (''('' @ show_cmd r @ '')'' @ rest) = Ret (r', rest)"
    using block_ends [OF _ r, of j rest] c j(3) e endsD(1) [OF e] by (auto simp: ends_def)
  have "parsepipe (Suc j) (''('' @ show_cmd r @ '')'' @ rest) = Ret (r', rest)"
    using pipe_of_exec [OF r'(2)] ends_peek [OF e, of "''|''"] by simp
  then have "parsepipe (Suc (Suc j)) (''('' @ show_cmd l @ '')'' @ tl) = Ret (PIPE l' r', rest)"
    using l'(2) sym_tight [OF ws(1)] sym_tight [OF ws(2)] by (simp add: tl_def peek_tight gettoken_sym)
  then have "parseline n (show_cmd (PIPE l r) @ rest) = Ret (PIPE l' r', rest)"
    unfolding j(1) using e by (simp add: tl_def ends_peek)
  then show "\<exists>c'. parseline n (show_cmd (PIPE l r) @ rest) = Ret (c', rest) \<and> map_cmd tok_str c' = PIPE l r"
    using l'(1) r'(1) by auto
qed

lemma list_reads:
  assumes c: "cmd_ok word_ok (LIST l r)" and l: "reads_back (4 * length (show_cmd l) + 4) l" and r: "reads_back (4 * length (show_cmd r) + 4) r"
  shows "reads_back (4 * length (show_cmd (LIST l r)) + 4) (LIST l r)"
  unfolding reads_back_def
proof (intro allI impI)
  fix n rest assume n: "4 * length (show_cmd (LIST l r)) + 4 \<le> n" and e: "ends rest"
  define j where "j = n - 3"
  have j: "n = Suc (Suc (Suc j))" "4 * length (show_cmd l) + 7 \<le> j" "4 * length (show_cmd r) + 7 \<le> j" using n unfolding j_def by simp_all
  define tl where "tl = CHR '';'' # ''('' @ show_cmd r @ '')'' @ rest"
  have ws: "sym CHR '';''" "sym CHR ''(''" by (simp_all add: sym_def)
  obtain l' where l': "map_cmd tok_str l' = l" "parseexec (Suc j) (''('' @ show_cmd l @ '')'' @ tl) = Ret (l', tl)"
    using block_ends [OF _ l, of "Suc j" tl] c j(2) sym_tight [OF ws(1)] unfolding tl_def by auto
  obtain r' where r': "map_cmd tok_str r' = r" "parseexec j (''('' @ show_cmd r @ '')'' @ rest) = Ret (r', rest)"
    using block_ends [OF _ r, of j rest] c j(3) e endsD(1) [OF e] by (auto simp: ends_def)
  have r2: "parseline (Suc (Suc j)) (''('' @ show_cmd r @ '')'' @ rest) = Ret (r', rest)" using r'(2) e by (rule line_of_exec)
  have pk: "peek tl toks = (CHR '';'' \<in> set toks, tl)" for toks using sym_tight [OF ws(1)] by (simp add: tl_def peek_tight)
  have "parsepipe (Suc (Suc j)) (''('' @ show_cmd l @ '')'' @ tl) = Ret (l', tl)"
    using pipe_of_exec [OF l'(2)] pk by simp
  moreover have "gettoken tl = (CHR '';'', (tl, ''('' @ show_cmd r @ '')'' @ rest), ''('' @ show_cmd r @ '')'' @ rest)"
    using sym_tight [OF ws(2)] by (simp add: tl_def gettoken_sym)
  ultimately have "parseline n (''('' @ show_cmd l @ '')'' @ tl) = Ret (LIST l' r', rest)"
    unfolding j(1) using r2 pk by (simp del: parsepipe.simps)
  then show "\<exists>c'. parseline n (show_cmd (LIST l r) @ rest) = Ret (c', rest) \<and> map_cmd tok_str c' = LIST l r"
    using l'(1) r'(1) by (auto simp: tl_def)
qed

lemma back_reads:
  assumes c: "cmd_ok word_ok (BACK d)" and d: "reads_back (4 * length (show_cmd d) + 4) d"
  shows "reads_back (4 * length (show_cmd (BACK d)) + 4) (BACK d)"
  unfolding reads_back_def
proof (intro allI impI)
  fix n rest assume n: "4 * length (show_cmd (BACK d)) + 4 \<le> n" and e: "ends rest"
  define j where "j = n - 3"
  have j: "n = Suc (Suc (Suc j))" "4 * length (show_cmd d) + 7 \<le> j" using n unfolding j_def by simp_all
  define tl where "tl = CHR ''&'' # rest"
  have ws: "sym CHR ''&''" by (simp add: sym_def)
  obtain d' where d': "map_cmd tok_str d' = d" "parseexec (Suc j) (''('' @ show_cmd d @ '')'' @ tl) = Ret (d', tl)"
    using block_ends [OF _ d, of "Suc j" tl] c j(2) sym_tight [OF ws] unfolding tl_def by auto
  have pk: "peek tl toks = (CHR ''&'' \<in> set toks, tl)" for toks using sym_tight [OF ws] by (simp add: tl_def peek_tight)
  have "parsepipe (Suc (Suc j)) (''('' @ show_cmd d @ '')'' @ tl) = Ret (d', tl)"
    using pipe_of_exec [OF d'(2)] pk by simp
  moreover have "gettoken tl = (CHR ''&'', (tl, rest), rest)" using endsD(1) [OF e] by (simp add: tl_def gettoken_sym)
  moreover have "backs (Suc (Suc j)) d' tl = Ret (BACK d', rest)" using calculation(2) pk e by (simp add: ends_peek)
  ultimately have "parseline n (''('' @ show_cmd d @ '')'' @ tl) = Ret (BACK d', rest)"
    unfolding j(1) using e by (simp add: ends_peek del: parsepipe.simps backs.simps)
  then show "\<exists>c'. parseline n (show_cmd (BACK d) @ rest) = Ret (c', rest) \<and> map_cmd tok_str c' = BACK d"
    using d'(1) by (auto simp: tl_def)
qed

lemma show_reads: "cmd_ok word_ok c \<Longrightarrow> reads_back (4 * length (show_cmd c) + 4) c"
proof (induction c)
  case (EXEC args)
  then show ?case by (rule exec_reads)
next
  case (REDIR c f mode fd)
  then show ?case by (intro redir_reads) simp_all
next
  case (PIPE l r)
  then show ?case by (intro pipe_reads) simp_all
next
  case (LIST l r)
  then show ?case by (intro list_reads) simp_all
next
  case (BACK d)
  then show ?case by (intro back_reads) simp_all
qed

lemma parse_show:
  assumes "cmd_ok word_ok c"
  shows "\<exists>p buf. parsecmd (show_cmd c) = Ret (p, buf) \<and> map_cmd tok_str p = c"
proof -
  have "ends []" by (simp add: ends_def)
  then obtain p where p: "parseline (4 * length (show_cmd c) + 4) (show_cmd c @ []) = Ret (p, [])" "map_cmd tok_str p = c"
    using show_reads [OF assms] unfolding reads_back_def by blast
  then have "parsecmd (show_cmd c) = Ret (p, nulterminate p (show_cmd c @ [CHR 0x00]))"
    unfolding parsecmd_def append_Nil2 by (simp add: peek_eq)
  then show ?thesis using p(2) by blast
qed

text \<open>The command \<^verbatim>\<open>((ls -l )|(wc ))>out\<close>.\<close>

definition piped :: "string cmd" where
  "piped = REDIR (PIPE (EXEC [''ls'', ''-l'']) (EXEC [''wc''])) ''out'' O_WRONLY_CREATE 1"

lemma piped_ok: "cmd_ok word_ok piped"
  by (simp add: piped_def word_ok_def redir_ok_def plain_def is_ws_def is_sym_def whitespace_def symbols_def)

section \<open>Claims\<close>

text \<open>
  C36: Every line is parsed: \<open>parsecmd\<close> returns a command or ends with one of the shell's
  messages, whatever the characters of the line; the fuel it starts with is enough.
\<close>

theorem parsecmd_total: "(\<exists>c buf. parsecmd line = Ret (c, buf)) \<or> (\<exists>msg. parsecmd line = Panic msg)"
proof -
  have "lands line (cmd_ok (tok_ok line)) (parseline (4 * length line + 4) line)"
    using parses_all [of line "4 * length line + 4"] unfolding parses_def by simp
  then show ?thesis unfolding parsecmd_def lands_def peek_eq by (auto split: outcome.splits prod.splits)
qed

text \<open>
  C30: Parsing inverts printing: a command written out, with every operand in parentheses, is
  parsed back to the same command, for every nesting of pipes, lists, background jobs and
  redirections.
\<close>

theorem parse_print:
  assumes "cmd_ok word_ok c"
  shows "\<exists>p buf. parsecmd (show_cmd c) = Ret (p, buf) \<and> map_cmd tok_str p = c"
  using assms by (rule parse_show)

theorem parse_print_witness: "\<exists>p buf. parsecmd (show_cmd piped) = Ret (p, buf) \<and> map_cmd tok_str p = piped"
  using parse_print [OF piped_ok] .

end
