(* ===== verification/Shrun.thy ===== *)
theory Shrun
  imports Sh
begin

text \<open>
  What the shell does with the commands it reads, \<open>runcmd\<close>, \<open>fork1\<close>, \<open>getcmd\<close> and \<open>main\<close> of
  \<^verbatim>\<open>sh.c\<close>. A user program is a tree: it exits, or makes a system call and goes on in a way
  that depends on the result; a call of \<open>printf\<close> counts as one call. \<open>fork\<close> returns 0 to the
  child and the process id to the parent. The result of \<open>pipe\<close> is followed by its two
  descriptors. The loop of \<open>main\<close> yields what it does for each line of its input.
\<close>

section \<open>Running a command\<close>

datatype req =
    SysExec string "string list"
  | SysOpen string int
  | SysClose int
  | SysDup int
  | SysPipe
  | SysFork
  | SysWait
  | SysPrint int string

datatype prog = Exit | Call req "int list \<Rightarrow> prog"

definition call :: "req \<Rightarrow> prog \<Rightarrow> prog" where
  "call r p = Call r (\<lambda>_. p)"

definition sh_panic :: "string \<Rightarrow> prog" where
  "sh_panic s = call (SysPrint 2 (s @ [CHR 0x0A])) Exit"

definition fork1 :: "(int \<Rightarrow> prog) \<Rightarrow> prog" where
  "fork1 k = Call SysFork (\<lambda>r. if hd r = -1 then sh_panic ''fork'' else k (hd r))"

primrec runcmd :: "string cmd \<Rightarrow> prog" where
  "runcmd (EXEC args) =
     (case args of
        [] \<Rightarrow> Exit
      | path # _ \<Rightarrow> call (SysExec path args) (call (SysPrint 2 (''exec '' @ path @ '' failed'' @ [CHR 0x0A])) Exit))"
| "runcmd (REDIR c file mode fd) =
     call (SysClose fd) (Call (SysOpen file mode) (\<lambda>r.
       if hd r < 0 then call (SysPrint 2 (''open '' @ file @ '' failed'' @ [CHR 0x0A])) Exit else runcmd c))"
| "runcmd (LIST l r) = fork1 (\<lambda>pid. if pid = 0 then runcmd l else call SysWait (runcmd r))"
| "runcmd (PIPE l r) =
     Call SysPipe (\<lambda>p.
       if p ! 0 < 0 then sh_panic ''pipe''
       else
         fork1 (\<lambda>pid.
           if pid = 0 then
             call (SysClose 1) (call (SysDup (p ! 2)) (call (SysClose (p ! 1)) (call (SysClose (p ! 2)) (runcmd l))))
           else
             fork1 (\<lambda>pid.
               if pid = 0 then
                 call (SysClose 0) (call (SysDup (p ! 1)) (call (SysClose (p ! 1)) (call (SysClose (p ! 2)) (runcmd r))))
               else
                 call (SysClose (p ! 1)) (call (SysClose (p ! 2)) (call SysWait (call SysWait Exit))))))"
| "runcmd (BACK c) = fork1 (\<lambda>pid. if pid = 0 then runcmd c else Exit)"

section \<open>Reading commands\<close>

definition getcmd :: "string \<Rightarrow> int \<times> string \<times> string" where
  "getcmd inp = (let (buf, rest) = gets 100 inp in (if deref buf = CHR 0x00 then -1 else 0, buf, rest))"

lemma gets_shorter: "gets_loop n inp = (buf, rest) \<Longrightarrow> length rest + length buf = length inp"
  by (induction n inp arbitrary: buf rest rule: gets_loop.induct) (auto split: prod.splits if_splits)

lemma getcmd_shorter: "getcmd inp = (r, buf, rest) \<Longrightarrow> \<not> r < 0 \<Longrightarrow> length rest < length inp"
proof -
  assume g: "getcmd inp = (r, buf, rest)" "\<not> r < 0"
  then have "gets_loop 99 inp = (buf, rest)" "buf \<noteq> []"
    by (auto simp: getcmd_def gets_def deref_def split: prod.splits if_splits list.splits)
  then show ?thesis using gets_shorter [of 99 inp buf rest] by (cases buf) auto
qed

text \<open>What the loop of \<open>main\<close> does with a line: change the directory, or fork and run a command.\<close>

datatype action = Chdir string | Run string

function sh_main :: "string \<Rightarrow> action list" where
  "sh_main inp =
     (let (r, buf, rest) = getcmd inp; line = takeWhile (\<lambda>c. c \<noteq> CHR 0x00) buf in
      if r < 0 then []
      else if take 3 buf = ''cd '' then Chdir (drop 3 (butlast line)) # sh_main rest
      else Run line # sh_main rest)"
  by pat_completeness auto
termination
proof (relation "measure length", goal_cases)
  case (2 inp x r y buf rest line)
  then show ?case using getcmd_shorter [of inp r buf rest] by simp
next
  case (3 inp x r y buf rest line)
  then show ?case using getcmd_shorter [of inp r buf rest] by simp
qed simp

declare sh_main.simps [simp del]

section \<open>Descriptors\<close>

text \<open>
  The effect of the calls on the descriptors of one process, as \<open>fdalloc\<close>, \<open>sys_dup\<close>,
  \<open>sys_close\<close> and \<open>sys_pipe\<close> of the kernel have it: a new descriptor is the lowest free one.
\<close>

type_synonym 'f fds = "'f option list"

definition valid_fd :: "int \<Rightarrow> 'f fds \<Rightarrow> bool" where
  "valid_fd fd t \<longleftrightarrow> 0 \<le> fd \<and> fd < int (length t) \<and> t ! nat fd \<noteq> None"

definition fd_close :: "int \<Rightarrow> 'f fds \<Rightarrow> 'f fds" where
  "fd_close fd t = (if valid_fd fd t then t[nat fd := None] else t)"

definition fd_new :: "'f \<Rightarrow> 'f fds \<Rightarrow> (nat \<times> 'f fds) option" where
  "fd_new f t = map_option (\<lambda>n. (n, t[n := Some f])) (scan (\<lambda>x. x = None) t)"

text \<open>
  \<open>step t p t' p'\<close>: a process at \<open>p\<close> with the descriptors \<open>t\<close> can go on to \<open>p'\<close>, \<open>t'\<close>;
  \<open>a\<close> and \<open>b\<close> are the two ends of the pipe it may create. A fork goes on as the parent
  or as the child.
\<close>

inductive step :: "'f \<Rightarrow> 'f \<Rightarrow> 'f fds \<Rightarrow> prog \<Rightarrow> 'f fds \<Rightarrow> prog \<Rightarrow> bool" for a b where
  close: "step a b t (Call (SysClose fd) k) (fd_close fd t) (k [r])"
| dup: "valid_fd fd t \<Longrightarrow> fd_new (the (t ! nat fd)) t = Some (n, t') \<Longrightarrow> step a b t (Call (SysDup fd) k) t' (k [int n])"
| pipe: "fd_new a t = Some (m, t1) \<Longrightarrow> fd_new b t1 = Some (n, t2) \<Longrightarrow> step a b t (Call SysPipe k) t2 (k [0, int m, int n])"
| child: "step a b t (Call SysFork k) t (k [0])"
| parent: "0 < pid \<Longrightarrow> step a b t (Call SysFork k) t (k [pid])"
| wait: "step a b t (Call SysWait k) t (k [r])"

inductive steps :: "'f \<Rightarrow> 'f \<Rightarrow> 'f fds \<Rightarrow> prog \<Rightarrow> 'f fds \<Rightarrow> prog \<Rightarrow> bool" for a b where
  here: "steps a b t p t p"
| next_step: "step a b t p t1 p1 \<Longrightarrow> steps a b t1 p1 t' p' \<Longrightarrow> steps a b t p t' p'"

section \<open>Pipelines\<close>

lemma call_step: "step a b t (Call r k) t1 (k x) \<Longrightarrow> steps a b t1 (k x) t' p' \<Longrightarrow> steps a b t (Call r k) t' p'"
  by (rule next_step)

lemma close_then: "steps a b (fd_close fd t) p t' p' \<Longrightarrow> steps a b t (call (SysClose fd) p) t' p'"
  unfolding call_def using step.close [of a b t fd "\<lambda>_. p"] by (rule next_step)

lemma fd_new_at:
  assumes "fd_new f t = Some (n, t')"
  shows "n < length t" "t ! n = None" "t' = t[n := Some f]" "\<And>i. i < n \<Longrightarrow> t ! i \<noteq> None"
  using assms by (auto simp: fd_new_def scan_Some_iff)

lemma fd_new_lowest:
  "i < length t \<Longrightarrow> t ! i = None \<Longrightarrow> (\<And>j. j < i \<Longrightarrow> t ! j \<noteq> None) \<Longrightarrow> fd_new f t = Some (i, t[i := Some f])"
  by (simp add: fd_new_def scan_Some_iff)

text \<open>Moving the pipe end at \<open>e\<close> down to the standard descriptor \<open>d\<close> and closing both ends.\<close>

lemma move_end:
  assumes d: "d < 2" "\<And>j. j < 2 \<Longrightarrow> t ! j \<noteq> None" and m: "2 \<le> m" "m < length t" "t ! m = None" and n: "2 \<le> n" "n < length t" "t ! n = None" "m \<noteq> n"
    and e: "(e, x) \<in> {(m, a), (n, b)}"
  shows "steps a b (t[m := Some a, n := Some b]) (call (SysClose (int d)) (call (SysDup (int e)) (call (SysClose (int m)) (call (SysClose (int n)) p))))
    (t[d := Some x]) p"
proof -
  define u where "u = t[m := Some a, n := Some b]"
  have u: "u ! e = Some x" "e < length u" "u ! d \<noteq> None" "d < length u" "d \<noteq> e" "\<And>j. j < d \<Longrightarrow> u ! j \<noteq> None"
    using assms by (auto simp: u_def)
  have c1: "fd_close (int d) u = u[d := None]" using u by (simp add: fd_close_def valid_fd_def)
  have "fd_new (the (u[d := None] ! e)) (u[d := None]) = Some (d, (u[d := None])[d := Some x])"
    using u by (subst fd_new_lowest [of d]) auto
  then have c2: "step a b (u[d := None]) (call (SysDup (int e)) q) (u[d := Some x]) q" for q
    using step.dup [of "int e" "u[d := None]" d "u[d := Some x]" a b "\<lambda>_. q"] u by (simp add: call_def valid_fd_def)
  have c3: "fd_close (int m) (u[d := Some x]) = u[d := Some x, m := None]"
    using assms by (auto simp: fd_close_def valid_fd_def u_def nth_list_update)
  have c4: "fd_close (int n) (u[d := Some x, m := None]) = u[d := Some x, m := None, n := None]"
    using assms by (auto simp: fd_close_def valid_fd_def u_def nth_list_update)
  have fin: "u[d := Some x, m := None, n := None] = t[d := Some x]"
    using assms by (intro nth_equalityI) (auto simp: u_def nth_list_update)
  show ?thesis unfolding u_def [symmetric]
    by (intro close_then, unfold c1, rule next_step [OF c2], intro close_then, unfold c3 c4 fin, rule steps.here)
qed

text \<open>
  The last character of a \<open>cd\<close> line is dropped, whether or not it is the newline: at the end
  of the input without one, the shell changes to another directory than the line names.
\<close>

lemma sh_main_cd_eof: "sh_main ''cd /ab'' = [Chdir ''/a'']"
proof -
  have g: "getcmd ''cd /ab'' = (0, ''cd /ab'', [])" "getcmd [] = (-1, [], [])"
    by (simp_all add: getcmd_def gets_def numeral_eq_Suc deref_def)
  have "sh_main [] = []" by (subst sh_main.simps) (simp add: g)
  then show ?thesis by (subst sh_main.simps) (simp add: g numeral_eq_Suc)
qed

section \<open>Claims\<close>

text \<open>
  C33: In a pipeline the left command runs with its standard output at the write end of the
  pipe, the right command with its standard input at the read end, and neither keeps any
  other descriptor of the pipe; the shell process that waits for them keeps none. So the
  reader sees the end of the file once the writer exits. The descriptors 0 and 1 have to be
  open before.
\<close>

theorem pipeline_wiring:
  assumes "2 \<le> length t" "t ! 0 \<noteq> None" "t ! 1 \<noteq> None" and m: "fd_new rd t = Some (m, t1)" and n: "fd_new wr t1 = Some (n, t2)"
  shows "steps rd wr t (runcmd (PIPE l r)) (t[1 := Some wr]) (runcmd l) \<and>
    steps rd wr t (runcmd (PIPE l r)) (t[0 := Some rd]) (runcmd r) \<and>
    steps rd wr t (runcmd (PIPE l r)) t (call SysWait (call SysWait Exit))"
proof -
  note m' = fd_new_at [OF m] and n' = fd_new_at [OF n]
  have open2: "t ! j \<noteq> None" if "j < 2" for j using that assms(2,3) by (cases j) (auto simp: less_Suc_eq)
  have mn: "2 \<le> m" "m < length t" "t ! m = None" "m \<noteq> n" "n < length t" "t ! n = None"
    using m' n' open2 [of m] by (auto simp: nth_list_update not_le [symmetric] split: if_splits)
  moreover have "2 \<le> n" using open2 [of n] mn(6) not_le by blast
  note mn' = calculation this
  have t2: "t2 = t[m := Some rd, n := Some wr]" using m'(3) n'(3) by simp
  define kl where "kl = call (SysClose 1) (call (SysDup (int n)) (call (SysClose (int m)) (call (SysClose (int n)) (runcmd l))))"
  define kr where "kr = call (SysClose 0) (call (SysDup (int m)) (call (SysClose (int m)) (call (SysClose (int n)) (runcmd r))))"
  define kp where "kp = call (SysClose (int m)) (call (SysClose (int n)) (call SysWait (call SysWait Exit)))"
  define f2 where "f2 = (\<lambda>pid :: int. if pid = 0 then kr else kp)"
  define f1 where "f1 = (\<lambda>pid :: int. if pid = 0 then kl else fork1 f2)"
  define fk where "fk = (\<lambda>k (r :: int list). if hd r = -1 then sh_panic ''fork'' else k (hd r))"
  have fork: "step rd wr t2 (fork1 k) t2 (k 0)" "step rd wr t2 (fork1 k) t2 (k 1)" for k
    using step.child [of rd wr t2 "fk k"] step.parent [of 1 rd wr t2 "fk k"] by (simp_all add: fork1_def fk_def)
  have start: "step rd wr t (runcmd (PIPE l r)) t2 (fork1 f1)"
    using step.pipe [OF m n, of "\<lambda>p. if p ! 0 < 0 then sh_panic ''pipe'' else fork1 (\<lambda>pid.
        if pid = 0 then call (SysClose 1) (call (SysDup (p ! 2)) (call (SysClose (p ! 1)) (call (SysClose (p ! 2)) (runcmd l))))
        else fork1 (\<lambda>pid.
          if pid = 0 then call (SysClose 0) (call (SysDup (p ! 1)) (call (SysClose (p ! 1)) (call (SysClose (p ! 2)) (runcmd r))))
          else call (SysClose (p ! 1)) (call (SysClose (p ! 2)) (call SysWait (call SysWait Exit)))))"]
    unfolding f1_def f2_def kl_def kr_def kp_def by (simp cong: if_cong)
  have "steps rd wr t2 kl (t[1 := Some wr]) (runcmd l)" "steps rd wr t2 kr (t[0 := Some rd]) (runcmd r)"
    unfolding kl_def kr_def t2
    using move_end [of 1 t m n n wr rd wr "runcmd l"] move_end [of 0 t m n m rd rd wr "runcmd r"] open2 mn' by auto
  moreover have "steps rd wr t2 kp t (call SysWait (call SysWait Exit))"
  proof -
    have "fd_close (int m) t2 = t2[m := None]" "fd_close (int n) (t2[m := None]) = t2[m := None, n := None]"
      using mn by (auto simp: fd_close_def valid_fd_def t2 nth_list_update)
    moreover have "t2[m := None, n := None] = t" using mn by (intro nth_equalityI) (auto simp: t2 nth_list_update)
    ultimately show ?thesis unfolding kp_def by (intro close_then) (simp add: steps.here)
  qed
  moreover have "f1 0 = kl" "f1 1 = fork1 f2" "f2 0 = kr" "f2 1 = kp" by (simp_all add: f1_def f2_def)
  ultimately show ?thesis using start fork [of f1] fork [of f2] by (metis next_step)
qed

theorem pipeline_wiring_witness:
  "steps ''r'' ''w'' [Some ''tty'', Some ''tty'', None, None] (runcmd (PIPE (EXEC [''ls'']) (EXEC [''wc''])))
     [Some ''tty'', Some ''w'', None, None] (runcmd (EXEC [''ls'']))"
  using pipeline_wiring [of "[Some ''tty'', Some ''tty'', None, None]" "''r''" 2 "[Some ''tty'', Some ''tty'', Some ''r'', None]"
      "''w''" 3 "[Some ''tty'', Some ''tty'', Some ''r'', Some ''w'']" "EXEC [''ls'']" "EXEC [''wc'']"]
  by (simp add: fd_new_def eval_nat_numeral)

end
