(* ===== verification/Shwords.thy ===== *)
theory Shwords
  imports Sh "HOL-Library.Multiset"
begin

text \<open>
  What the parser of the shell does with the words of a line: none is lost, none is used twice,
  and the arguments of a command stay in their order.
\<close>

section \<open>Every word of the line, once\<close>

text \<open>The words of a line from left to right: its maximal runs of plain characters.\<close>

function line_words :: "string \<Rightarrow> token list" where
  "line_words [] = []"
| "line_words (c # s) =
     (if plain c then (c # s, dropWhile plain s) # line_words (dropWhile plain s) else line_words s)"
  by pat_completeness auto
termination by (relation "measure length") (simp_all add: le_imp_less_Suc length_dropWhile_le)

text \<open>The words in a command, and the argument lists of its simple commands.\<close>

primrec cmd_words :: "'t cmd \<Rightarrow> 't list" where
  "cmd_words (EXEC args) = args"
| "cmd_words (REDIR c file mode fd) = cmd_words c @ [file]"
| "cmd_words (PIPE l r) = cmd_words l @ cmd_words r"
| "cmd_words (LIST l r) = cmd_words l @ cmd_words r"
| "cmd_words (BACK c) = cmd_words c"

primrec argvs :: "'t cmd \<Rightarrow> 't list list" where
  "argvs (EXEC args) = [args]"
| "argvs (REDIR c file mode fd) = argvs c"
| "argvs (PIPE l r) = argvs l @ argvs r"
| "argvs (LIST l r) = argvs l @ argvs r"
| "argvs (BACK c) = argvs c"

text \<open>Between \<open>s\<close> and \<open>s'\<close> lie exactly the words \<open>ws\<close>, and each list of \<open>as\<close> is in the order of the line.\<close>

definition takes :: "string \<Rightarrow> token list \<Rightarrow> token list list \<Rightarrow> string \<Rightarrow> bool" where
  "takes s ws as s' \<longleftrightarrow> (\<exists>pre. line_words s = pre @ line_words s' \<and> mset pre = mset ws \<and> (\<forall>a \<in> set as. subseq a pre))"

lemma takes_trans:
  assumes "takes s ws as t" "takes t vs bs u"
  shows "takes s (ws @ vs) (as @ bs) u"
proof -
  obtain p q where p: "line_words s = p @ line_words t" "mset p = mset ws" "\<forall>a \<in> set as. subseq a p"
    and q: "line_words t = q @ line_words u" "mset q = mset vs" "\<forall>a \<in> set bs. subseq a q"
    using assms unfolding takes_def by blast
  have "subseq a (p @ q)" if "a \<in> set (as @ bs)" for a
    using that p(3) q(3) by (auto intro: subseq_rev_drop_many subseq_drop_many list_emb_append2)
  then show ?thesis unfolding takes_def using p(1,2) q(1,2) by (intro exI [of _ "p @ q"]) simp
qed

lemma takes_same: "line_words s = line_words s' \<Longrightarrow> takes s [] [] s'"
  by (simp add: takes_def)

lemma line_words_ws: "line_words (dropWhile is_ws s) = line_words s"
  by (induction s) (auto simp: plain_def)

lemma gettoken_words:
  assumes "gettoken s = (r, t, s')"
  shows "line_words s = (if r = CHR ''a'' then t # line_words s' else line_words s')"
proof -
  define d where "d = dropWhile is_ws s"
  have s: "line_words s = line_words d" by (simp add: d_def line_words_ws)
  show ?thesis
  proof (cases d)
    case Nil
    then show ?thesis using assms unfolding gettoken_def Let_def d_def [symmetric] s by auto
  next
    case (Cons c e)
    have "dropWhile is_ws s = c # e" using Cons by (simp add: d_def)
    then have ws: "\<not> is_ws c" using hd_dropWhile [of is_ws s] by auto
    have sym: "plain c \<longleftrightarrow> c \<notin> set ''|();&<>''" using ws by (auto simp: plain_def is_sym_def symbols_def)
    have gt: "\<not> plain CHR ''>''" by (simp add: plain_def is_sym_def symbols_def)
    have e: "deref e = CHR ''>'' \<Longrightarrow> line_words (tl e) = line_words e" using gt by (cases e) (auto simp: deref_def)
    have g: "gettoken s = (let (ret, u) = (if c = CHR 0x00 then (CHR 0x00, d) else if c \<in> set ''|();&<'' then (c, e)
        else if c = CHR ''>'' then (if deref e = CHR ''>'' then (CHR ''+'', tl e) else (CHR ''>'', e))
        else (CHR ''a'', dropWhile plain d)) in (ret, (d, u), dropWhile is_ws u))"
      unfolding gettoken_def Let_def d_def [symmetric] using Cons by simp
    consider (nul) "c = CHR 0x00" | (symbol) "c \<in> set ''|();&<''" "c \<noteq> CHR 0x00" | (gt) "c = CHR ''>''" | (word) "plain c" "c \<noteq> CHR 0x00" "c \<notin> set ''|();&<''" "c \<noteq> CHR ''>''"
      using sym by auto
    then show ?thesis
    proof cases
      case nul
      then have "r = CHR 0x00" "s' = dropWhile is_ws d" using assms g by simp_all
      then show ?thesis by (simp add: s line_words_ws)
    next
      case symbol
      then have "r = c" "s' = dropWhile is_ws e" using assms g by (simp_all split: if_splits)
      moreover have "c \<noteq> CHR ''a''" "\<not> plain c" using symbol sym by auto
      ultimately show ?thesis using Cons by (simp add: s line_words_ws)
    next
      case gt
      then have "r \<noteq> CHR ''a''" "line_words s' = line_words e" using assms g e by (auto simp: line_words_ws split: if_splits)
      then show ?thesis using Cons gt \<open>\<not> plain CHR ''>''\<close> by (simp add: s)
    next
      case word
      then have "r = CHR ''a''" "t = (d, dropWhile plain d)" "s' = dropWhile is_ws (dropWhile plain d)" using assms g by simp_all
      then show ?thesis using Cons word(1) by (simp add: s line_words_ws)
    qed
  qed
qed

lemma peek_words: "peek s toks = (p, s1) \<Longrightarrow> line_words s1 = line_words s"
  by (auto simp: peek_eq line_words_ws)

text \<open>A token that is no word, behind a \<open>peek\<close>.\<close>

lemma symbol_words:
  assumes "peek s toks = (True, s1)" "gettoken s1 = (r, t, s2)" "set toks \<subseteq> set symbols"
  shows "line_words s2 = line_words s"
proof -
  have d: "dropWhile is_ws s1 = s1" "deref s1 \<in> set symbols" "deref s1 \<noteq> CHR 0x00"
    using assms(1,3) by (auto simp: peek_eq strchr_iff simp del: not_None_eq)
  then have "r \<noteq> CHR ''a''" using assms(2) unfolding gettoken_def by (cases s1) (auto simp: Let_def deref_def symbols_def split: if_splits)
  then show ?thesis using gettoken_words [OF assms(2)] peek_words [OF assms(1)] by simp
qed

lemma add_redirs_words: "mset (cmd_words (add_redirs c rs)) = mset (cmd_words c @ map fst rs)" "argvs (add_redirs c rs) = argvs c"
  by (induction rs arbitrary: c) (auto simp: add_redirs_def)

lemma takes_cong: "takes s ws as t \<Longrightarrow> mset ws = mset vs \<Longrightarrow> set bs \<subseteq> set as \<Longrightarrow> line_words u = line_words t \<Longrightarrow> takes s vs bs u"
  unfolding takes_def by auto

lemma parseredirs_takes: "parseredirs n s = Ret (rs, s') \<Longrightarrow> takes s (map fst rs) [] s'"
proof (induction n arbitrary: s rs)
  case (Suc n)
  obtain p s1 where p: "peek s ''<>'' = (p, s1)" by fastforce
  obtain tok t s2 where t: "gettoken s1 = (tok, t, s2)" by (rule prod_cases3)
  obtain word f s3 where w: "gettoken s2 = (word, f, s3)" by (rule prod_cases3)
  show ?case
  proof (cases p)
    case True
    have s2: "line_words s2 = line_words s" using symbol_words [OF _ t, of s "''<>''"] p True by (simp add: symbols_def)
    define r where "r = (if tok = CHR ''<'' then (f, O_RDONLY, 0 :: int) else (f, O_WRONLY_CREATE, 1))"
    have "word = CHR ''a'' \<and> (\<exists>qs. parseredirs n s3 = Ret (qs, s') \<and> rs = r # qs)"
      using Suc.prems p True t w by (auto simp: r_def obind_eq_Ret Let_def split: if_splits)
    then obtain qs where r: "word = CHR ''a''" "parseredirs n s3 = Ret (qs, s')" "rs = r # qs" "fst r = f"
      by (auto simp: r_def)
    have "takes s [f] [] s3" using gettoken_words [OF w] r(1) s2 by (auto simp: takes_def intro: exI [of _ "[f]"])
    from takes_trans [OF this Suc.IH [OF r(2)]] r(3,4) show ?thesis by simp
  qed (use Suc.prems p peek_words [OF p] in \<open>auto intro: takes_same\<close>)
qed simp

lemma exec_args_takes:
  "exec_args n rs args s = Ret (c, s') \<Longrightarrow> takes s0 (args @ map fst rs) [args] s \<Longrightarrow> takes s0 (cmd_words c) (argvs c) s'"
proof (induction n arbitrary: s rs args)
  case (Suc n)
  obtain p s1 where p: "peek s ''|)&;'' = (p, s1)" by fastforce
  obtain tok t s2 where t: "gettoken s1 = (tok, t, s2)" by (rule prod_cases3)
  have fin: "takes s0 (cmd_words (add_redirs (EXEC args) rs)) (argvs (add_redirs (EXEC args) rs)) u" if "line_words u = line_words s" for u
    by (rule takes_cong [OF Suc.prems(2)]) (use that in \<open>simp_all add: add_redirs_words\<close>)
  consider (stop) p "c = add_redirs (EXEC args) rs" "s' = s1" | (nul) "\<not> p" "tok = CHR 0x00" "c = add_redirs (EXEC args) rs" "s' = s2"
    | (word) more u where "tok = CHR ''a''" "parseredirs n s2 = Ret (more, u)" "exec_args n (rs @ more) (args @ [t]) u = Ret (c, s')"
    using Suc.prems(1) p t by (auto simp: obind_eq_Ret Let_def split: if_splits)
  then show ?case
  proof cases
    case stop
    then show ?thesis using fin peek_words [OF p] by simp
  next
    case nul
    then show ?thesis using fin gettoken_words [OF t] peek_words [OF p] by simp
  next
    case word
    obtain pre where pre: "line_words s0 = pre @ line_words s" "mset pre = mset (args @ map fst rs)" "subseq args pre"
      using Suc.prems(2) by (auto simp: takes_def)
    have "line_words s = t # line_words s2" using gettoken_words [OF t] word(1) peek_words [OF p] by simp
    then have "takes s0 (args @ [t] @ map fst rs) [args @ [t]] s2"
      using pre unfolding takes_def by (intro exI [of _ "pre @ [t]"]) (auto intro: list_emb_append_mono)
    from takes_trans [OF this parseredirs_takes [OF word(2)]]
    have "takes s0 ((args @ [t]) @ map fst (rs @ more)) [args @ [t]] u" by (rule takes_cong) simp_all
    with word(3) show ?thesis by (rule Suc.IH)
  qed
qed simp

lemma backs_takes: "backs n c s = Ret (c', s') \<Longrightarrow> takes s0 (cmd_words c) (argvs c) s \<Longrightarrow> takes s0 (cmd_words c') (argvs c') s'"
proof (induction n arbitrary: s c)
  case (Suc n)
  obtain p s1 where p: "peek s ''&'' = (p, s1)" by fastforce
  obtain tok t s2 where t: "gettoken s1 = (tok, t, s2)" by (rule prod_cases3)
  show ?case
  proof (cases p)
    case True
    have "line_words s2 = line_words s" using symbol_words [OF _ t, of s "''&''"] p True by (simp add: symbols_def)
    then have "takes s0 (cmd_words (BACK c)) (argvs (BACK c)) s2" by (intro takes_cong [OF Suc.prems(2)]) simp_all
    then show ?thesis using Suc.prems(1) Suc.IH p True t by simp
  next
    case False
    then show ?thesis using Suc.prems p peek_words [OF p] takes_cong [OF Suc.prems(2)] by simp
  qed
qed simp

text \<open>The four functions, for results of fuel \<open>n\<close>.\<close>

definition all_taken :: "nat \<Rightarrow> bool" where
  "all_taken n \<longleftrightarrow> (\<forall>s c s'. (parseline n s = Ret (c, s') \<or> parsepipe n s = Ret (c, s') \<or> parseexec n s = Ret (c, s') \<or>
     parseblock n s = Ret (c, s')) \<longrightarrow> takes s (cmd_words c) (argvs c) s')"

lemma all_takenD:
  assumes "all_taken n"
  shows "parseline n s = Ret (c, s') \<Longrightarrow> takes s (cmd_words c) (argvs c) s'" "parsepipe n s = Ret (c, s') \<Longrightarrow> takes s (cmd_words c) (argvs c) s'"
    "parseexec n s = Ret (c, s') \<Longrightarrow> takes s (cmd_words c) (argvs c) s'" "parseblock n s = Ret (c, s') \<Longrightarrow> takes s (cmd_words c) (argvs c) s'"
  using assms unfolding all_taken_def by blast+

lemma takes_symbol:
  assumes "takes s ws as t" "peek t toks = (True, t1)" "gettoken t1 = (r, k, t2)" "set toks \<subseteq> set symbols"
  shows "takes s ws as t2"
  by (rule takes_cong [OF assms(1)]) (use symbol_words [OF assms(2-4)] in simp_all)

lemma takes_peek: "takes s ws as t \<Longrightarrow> peek t toks = (p, t1) \<Longrightarrow> takes s ws as t1"
  using takes_cong [of s ws as t ws as t1] peek_words by simp

lemma parseline_takes:
  assumes "all_taken n" "parseline (Suc n) s = Ret (c, s')"
  shows "takes s (cmd_words c) (argvs c) s'"
proof -
  obtain c1 s1 c2 s2 where 1: "parsepipe n s = Ret (c1, s1)" "backs n c1 s1 = Ret (c2, s2)"
    using assms(2) by (auto simp: obind_eq_Ret)
  have 2: "takes s (cmd_words c2) (argvs c2) s2" using backs_takes [OF 1(2) all_takenD(2) [OF assms(1) 1(1)]] .
  obtain p s3 where p: "peek s2 '';'' = (p, s3)" by fastforce
  obtain tok t s4 where t: "gettoken s3 = (tok, t, s4)" by (rule prod_cases3)
  show ?thesis
  proof (cases p)
    case True
    then obtain d where d: "parseline n s4 = Ret (d, s')" "c = LIST c2 d" using assms(2) 1 p t by (auto simp: obind_eq_Ret)
    have "takes s (cmd_words c2) (argvs c2) s4" using takes_symbol [OF 2 _ t, of "'';''"] p True by (simp add: symbols_def)
    from takes_trans [OF this all_takenD(1) [OF assms(1) d(1)]] d(2) show ?thesis by simp
  next
    case False
    then show ?thesis using assms(2) 1 p takes_peek [OF 2 p] by simp
  qed
qed

lemma parsepipe_takes:
  assumes "all_taken n" "parsepipe (Suc n) s = Ret (c, s')"
  shows "takes s (cmd_words c) (argvs c) s'"
proof -
  obtain c1 s1 where 1: "parseexec n s = Ret (c1, s1)" using assms(2) by (auto simp: obind_eq_Ret)
  note 2 = all_takenD(3) [OF assms(1) 1]
  obtain p s3 where p: "peek s1 ''|'' = (p, s3)" by fastforce
  obtain tok t s4 where t: "gettoken s3 = (tok, t, s4)" by (rule prod_cases3)
  show ?thesis
  proof (cases p)
    case True
    then obtain d where d: "parsepipe n s4 = Ret (d, s')" "c = PIPE c1 d" using assms(2) 1 p t by (auto simp: obind_eq_Ret)
    have "takes s (cmd_words c1) (argvs c1) s4" using takes_symbol [OF 2 _ t, of "''|''"] p True by (simp add: symbols_def)
    from takes_trans [OF this all_takenD(2) [OF assms(1) d(1)]] d(2) show ?thesis by simp
  next
    case False
    then show ?thesis using assms(2) 1 p takes_peek [OF 2 p] by simp
  qed
qed

lemma parseexec_takes:
  assumes "all_taken n" "parseexec (Suc n) s = Ret (c, s')"
  shows "takes s (cmd_words c) (argvs c) s'"
proof -
  obtain p s1 where p: "peek s ''('' = (p, s1)" by fastforce
  have 0: "takes s [] [] s1" using takes_peek [OF takes_same p] by simp
  show ?thesis
  proof (cases p)
    case True
    then show ?thesis using assms(2) p takes_trans [OF 0 all_takenD(4) [OF assms(1)]] by simp
  next
    case False
    then obtain rs s2 where r: "parseredirs n s1 = Ret (rs, s2)" "exec_args n rs [] s2 = Ret (c, s')"
      using assms(2) p by (auto simp: obind_eq_Ret)
    have "takes s (map fst rs) [] s2" using takes_trans [OF 0 parseredirs_takes [OF r(1)]] by simp
    then have "takes s ([] @ map fst rs) [[]] s2" unfolding takes_def by simp
    then show ?thesis by (rule exec_args_takes [OF r(2)])
  qed
qed

lemma parseblock_takes:
  assumes "all_taken n" "parseblock (Suc n) s = Ret (c, s')"
  shows "takes s (cmd_words c) (argvs c) s'"
proof -
  obtain p s1 where p: "peek s ''('' = (p, s1)" by fastforce
  obtain tok t s2 where t: "gettoken s1 = (tok, t, s2)" by (rule prod_cases3)
  have p': "peek s ''('' = (True, s1)" using p assms(2) by (cases p) auto
  then obtain d s3 where d: "parseline n s2 = Ret (d, s3)" using assms(2) t by (auto simp: obind_eq_Ret)
  obtain q s4 where q: "peek s3 '')'' = (q, s4)" by fastforce
  obtain tok' t' s5 where t': "gettoken s4 = (tok', t', s5)" by (rule prod_cases3)
  have q': "peek s3 '')'' = (True, s4)" using q assms(2) p' t d by (cases q) auto
  then obtain rs where r: "parseredirs n s5 = Ret (rs, s')" "c = add_redirs d rs" using assms(2) p' t d t' by (auto simp: obind_eq_Ret)
  have "takes s [] [] s2" using takes_symbol [OF takes_same p' t] by (simp add: symbols_def)
  from takes_trans [OF this all_takenD(1) [OF assms(1) d]] have "takes s (cmd_words d) (argvs d) s3" by simp
  then have "takes s (cmd_words d) (argvs d) s5" by (rule takes_symbol [OF _ q' t']) (simp add: symbols_def)
  from takes_trans [OF this parseredirs_takes [OF r(1)]] show ?thesis
    by (rule takes_cong) (simp_all add: r(2) add_redirs_words)
qed

lemma all_taken_all: "all_taken n"
proof (induction n)
  case 0
  then show ?case by (simp add: all_taken_def)
next
  case (Suc n)
  then show ?case unfolding all_taken_def
    using parseline_takes [OF Suc] parsepipe_takes [OF Suc] parseexec_takes [OF Suc] parseblock_takes [OF Suc] by blast
qed

section \<open>Claims\<close>

text \<open>
  C32: A parsed command consists of exactly the words of the line. The words in its argument lists
  and redirections are, with their multiplicity and as pointers into the line, the maximal runs of plain characters of
  the line: none is dropped, doubled or made up; and every argument list is in the order of the
  line. The command is well formed: its simple commands have fewer than \<open>MAXARGS\<close> words and
  its redirections one of the two modes with their descriptors. After
  \<open>nulterminate\<close> has stored its NULs into the same buffer, each word is exactly the C string that starts at its pointer \<open>q\<close>.
\<close>

theorem parsecmd_words:
  assumes "parsecmd line = Ret (c, buf)" "CHR 0x00 \<notin> set line"
  shows "mset (cmd_words c) = mset (line_words line) \<and> (\<forall>args \<in> set (argvs c). subseq args (line_words line)) \<and>
    cmd_ok (\<lambda>t. tok_ok line t \<and> takeWhile (\<lambda>x. x \<noteq> CHR 0x00) (drop (length line - length (fst t)) buf) = tok_str t) c"
proof -
  have l: "lands line (cmd_ok (tok_ok line)) (parseline (4 * length line + 4) line)"
    using parses_all [of line "4 * length line + 4"] unfolding parses_def by simp
  obtain s where s: "parseline (4 * length line + 4) line = Ret (c, s)" "dropWhile is_ws s = []" "buf = nulterminate c (line @ [CHR 0x00])"
    using assms(1) unfolding parsecmd_def peek_eq by (auto simp: obind_eq_Ret split: if_splits)
  have ok: "cmd_ok (tok_ok line) c" using l s(1) by simp
  have "takeWhile (\<lambda>x. x \<noteq> CHR 0x00) (drop (length line - length (fst t)) buf) = tok_str t" if "t \<in> set_cmd c" for t
    unfolding s(3) by (rule cut_word [OF assms(2) cmd_ok_set [OF ok] cuts_nulterminate that])
  then have "cmd_ok (\<lambda>t. tok_ok line t \<and> takeWhile (\<lambda>x. x \<noteq> CHR 0x00) (drop (length line - length (fst t)) buf) = tok_str t) c"
    by (intro cmd_ok_mono [OF ok]) simp
  moreover have "line_words s = []" using line_words_ws [of s] s(2) by simp
  then have "mset (cmd_words c) = mset (line_words line) \<and> (\<forall>args \<in> set (argvs c). subseq args (line_words line))"
    using all_takenD(1) [OF all_taken_all s(1)] unfolding takes_def by simp
  ultimately show ?thesis by blast
qed

theorem parsecmd_words_witness:
  "\<exists>c buf. parsecmd (show_cmd piped) = Ret (c, buf) \<and> map_cmd tok_str c = piped \<and>
     mset (cmd_words c) = mset (line_words (show_cmd piped)) \<and> (\<forall>args \<in> set (argvs c). subseq args (line_words (show_cmd piped))) \<and>
     cmd_ok (\<lambda>t. tok_ok (show_cmd piped) t \<and>
       takeWhile (\<lambda>x. x \<noteq> CHR 0x00) (drop (length (show_cmd piped) - length (fst t)) buf) = tok_str t) c"
proof -
  obtain c buf where c: "parsecmd (show_cmd piped) = Ret (c, buf)" "map_cmd tok_str c = piped"
    using parse_show [OF piped_ok] by blast
  have "CHR 0x00 \<notin> set (show_cmd piped)" by (simp add: piped_def)
  with c parsecmd_words [OF c(1)] show ?thesis by blast
qed

end
