(* ===== verification/Grep.thy ===== *)
theory Grep
  imports Ulib
begin

text \<open>
  The pattern search \<^verbatim>\<open>grep.c\<close>: the matcher for \<open>^ . * $\<close> and the loop over the
  input. The input is a list of pieces, what the file or pipe has ready at successive calls of
  \<open>read\<close>; a call delivers as much of the first piece as fits, and nothing at the end of the input.
\<close>

section \<open>Definitions\<close>

function matchhere :: "string \<Rightarrow> string \<Rightarrow> bool"
  and matchstar :: "char \<Rightarrow> string \<Rightarrow> string \<Rightarrow> bool" where
  "matchhere [] text = True"
| "matchhere (c # re) text =
     (if deref re = CHR ''*'' then matchstar c (tl re) text
      else if c = CHR ''$'' \<and> re = [] then text = []
      else case text of [] \<Rightarrow> False | t # text \<Rightarrow> if c = CHR ''.'' \<or> c = t then matchhere re text else False)"
| "matchstar c re [] = matchhere re []"
| "matchstar c re (t # text) =
     (if matchhere re (t # text) then True else if t = c \<or> c = CHR ''.'' then matchstar c re text else False)"
  by pat_completeness auto
termination
  by (relation "measures [\<lambda>x. (case x of Inl (re, _) \<Rightarrow> 2 * length re | Inr (_, re, _) \<Rightarrow> 2 * length re + 1),
        \<lambda>x. (case x of Inl (_, text) \<Rightarrow> length text | Inr (_, _, text) \<Rightarrow> length text)]")
    (auto simp: deref_def neq_Nil_conv split: list.splits)

fun match_from :: "string \<Rightarrow> string \<Rightarrow> bool" where
  "match_from re [] = matchhere re []"
| "match_from re (c # text) = (if matchhere re (c # text) then True else match_from re text)"

definition match :: "string \<Rightarrow> string \<Rightarrow> bool" where
  "match re text = (if deref re = CHR ''^'' then matchhere (tl re) text else match_from re text)"

text \<open>
  The inner loop of \<open>grep\<close> on the buffer from \<open>p\<close> on: \<open>strchr\<close> finds the next newline
  before the first NUL. The result is what is written and the rest of the buffer.
\<close>

function grep_lines :: "string \<Rightarrow> string \<Rightarrow> string \<times> string" where
  "grep_lines pat p =
     (let line = takeWhile (\<lambda>c. c \<noteq> CHR 0x0A \<and> c \<noteq> CHR 0x00) p; q = drop (length line) p in
      if q = [] \<or> hd q = CHR 0x00 then ([], p)
      else
        let (out, rest) = grep_lines pat (tl q)
        in (if match pat line then line @ [CHR 0x0A] @ out else out, rest))"
  by pat_completeness auto
termination by (relation "measure (length \<circ> snd)") auto

declare grep_lines.simps [simp del]

text \<open>
  The outer loop; \<open>buf\<close> holds the \<open>m\<close> characters kept from the previous round, and \<open>read\<close> is
  asked for the rest of the buffer of 1024 bytes but one. It ends when \<open>read\<close> returns 0, also
  because the buffer is full.
\<close>

function grep :: "string \<Rightarrow> string \<Rightarrow> string list \<Rightarrow> string" where
  "grep pat buf [] = []"
| "grep pat buf (r # reads) =
     (let n = 1024 - length buf - 1; b = buf @ take n r; (out, p) = grep_lines pat b in
      if take n r = [] then []
      else out @ grep pat (if length p = length b then [] else p) (if drop n r = [] then reads else drop n r # reads))"
  by pat_completeness auto
termination
proof (relation "measure (\<lambda>(_, _, reads). sum_list (map length reads))", simp)
  fix pat buf r :: string and reads :: "string list" and n b x out p
  assume "n = 1024 - length buf - 1" and r: "take n r \<noteq> []"
  have "length r - n < length r" using r by (cases n; cases r) auto
  then show "((pat, if length p = length b then [] else p, if drop n r = [] then reads else drop n r # reads), pat, buf, r # reads)
      \<in> measure (\<lambda>(_, _, reads). sum_list (map length reads))" by auto
qed

declare grep.simps(2) [simp del]

section \<open>The language of a pattern\<close>

datatype item = One char | Star char

fun body :: "string \<Rightarrow> item list" where
  "body [] = []"
| "body [c] = (if c = CHR ''$'' then [] else [One c])"
| "body (c # d # re) = (if d = CHR ''*'' then Star c # body re else One c # body (d # re))"

fun eol :: "string \<Rightarrow> bool" where
  "eol [] = False"
| "eol [c] = (c = CHR ''$'')"
| "eol (c # d # re) = (if d = CHR ''*'' then eol re else eol (d # re))"

definition fits :: "char \<Rightarrow> char \<Rightarrow> bool" where
  "fits c d \<longleftrightarrow> c = CHR ''.'' \<or> c = d"

fun lang :: "item list \<Rightarrow> string set" where
  "lang [] = {[]}"
| "lang (One c # is) = {d # w | d w. fits c d \<and> w \<in> lang is}"
| "lang (Star c # is) = {u @ w | u w. list_all (fits c) u \<and> w \<in> lang is}"

definition here :: "string \<Rightarrow> string \<Rightarrow> bool" where
  "here re text \<longleftrightarrow> (\<exists>w v. text = w @ v \<and> w \<in> lang (body re) \<and> (eol re \<longrightarrow> v = []))"

lemma here_One:
  assumes "deref (tl re) \<noteq> CHR ''*''" "re \<noteq> []" "\<not> (hd re = CHR ''$'' \<and> tl re = [])"
  shows "here re text \<longleftrightarrow> text \<noteq> [] \<and> fits (hd re) (hd text) \<and> here (tl re) (tl text)"
proof -
  have "body re = One (hd re) # body (tl re)" "eol re = eol (tl re)"
    using assms by (cases re rule: body.cases; auto simp: deref_def split: if_splits)+
  then show ?thesis unfolding here_def by (cases "text") (auto simp: Cons_eq_append_conv)
qed

text \<open>Some characters that fit \<open>c\<close>, then the rest of the pattern.\<close>

definition stars :: "char \<Rightarrow> string \<Rightarrow> string \<Rightarrow> bool" where
  "stars c re text \<longleftrightarrow> (\<exists>u v. text = u @ v \<and> list_all (fits c) u \<and> here re v)"

lemma here_Star:
  assumes "deref (tl re) = CHR ''*''"
  shows "here re text \<longleftrightarrow> stars (hd re) (drop 2 re) text"
proof -
  have "body re = Star (hd re) # body (drop 2 re)" "eol re = eol (drop 2 re)"
    using assms by (cases re rule: body.cases; auto simp: deref_def split: if_splits)+
  note b = this
  show ?thesis
  proof
    assume "here re text"
    then obtain x v where x: "text = x @ v" "x \<in> lang (body re)" "eol re \<longrightarrow> v = []" unfolding here_def by blast
    then obtain u w where "x = u @ w" "list_all (fits (hd re)) u" "w \<in> lang (body (drop 2 re))" unfolding b(1) by auto
    moreover have "here (drop 2 re) (w @ v)" unfolding here_def using \<open>w \<in> _\<close> x(3) b(2) by blast
    ultimately show "stars (hd re) (drop 2 re) text" unfolding stars_def using x(1) by (metis append.assoc)
  next
    assume "stars (hd re) (drop 2 re) text"
    then obtain u x where x: "text = u @ x" "list_all (fits (hd re)) u" "here (drop 2 re) x" unfolding stars_def by blast
    then obtain w v where w: "x = w @ v" "w \<in> lang (body (drop 2 re))" "eol re \<longrightarrow> v = []" unfolding here_def b(2) by blast
    have "u @ w \<in> lang (body re)" unfolding b(1) using x(2) w(2) by auto
    then show "here re text" unfolding here_def using x(1) w(1,3) by (metis append.assoc)
  qed
qed

lemma stars_unfold:
  "stars c re text \<longleftrightarrow> here re text \<or> (text \<noteq> [] \<and> fits c (hd text) \<and> stars c re (tl text))"
proof
  assume "stars c re text"
  then obtain u v where "text = u @ v" "list_all (fits c) u" "here re v" unfolding stars_def by blast
  then show "here re text \<or> (text \<noteq> [] \<and> fits c (hd text) \<and> stars c re (tl text))"
    unfolding stars_def by (cases u) auto
next
  assume "here re text \<or> (text \<noteq> [] \<and> fits c (hd text) \<and> stars c re (tl text))"
  then show "stars c re text"
  proof
    assume "here re text"
    then have "text = [] @ text \<and> list_all (fits c) [] \<and> here re text" by simp
    then show ?thesis unfolding stars_def by blast
  next
    assume a: "text \<noteq> [] \<and> fits c (hd text) \<and> stars c re (tl text)"
    then obtain u v where "tl text = u @ v" "list_all (fits c) u" "here re v" unfolding stars_def by blast
    with a show ?thesis unfolding stars_def by (intro exI [of _ "hd text # u"] exI [of _ v]) (cases "text", auto)
  qed
qed

lemma matchhere_iff:
  "matchhere re str \<longleftrightarrow> here re str"
  "matchstar c re str \<longleftrightarrow> stars c re str"
proof (induction re str and c re str rule: matchhere_matchstar.induct)
  case (1 str)
  then show ?case by (simp add: here_def)
next
  case (2 c re str)
  consider "deref re = CHR ''*''" | "c # re = ''$''" | "deref re \<noteq> CHR ''*''" "\<not> (c = CHR ''$'' \<and> re = [])" by auto
  then show ?case
  proof cases
    case 1
    then show ?thesis using 2(1) here_Star [of "c # re" str] by (simp add: drop_Suc)
  next
    case a: 2
    then show ?thesis by (simp add: deref_def here_def)
  next
    case 3
    then have h: "here (c # re) str \<longleftrightarrow> str \<noteq> [] \<and> fits c (hd str) \<and> here re (tl str)" using here_One [of "c # re" str] by simp
    show ?thesis
    proof (cases str)
      case Nil
      then show ?thesis using 3 h by simp
    next
      case (Cons t str')
      then have "matchhere (c # re) str \<longleftrightarrow> fits c t \<and> matchhere re str'" using 3 by (auto simp: fits_def)
      moreover have "matchhere re str' \<longleftrightarrow> here re str'" if "fits c t" using 2(2) [OF 3 Cons] that by (simp add: fits_def)
      ultimately show ?thesis using h Cons by auto
    qed
  qed
next
  case (3 c re)
  then show ?case by (subst stars_unfold) simp
next
  case (4 c re t str)
  then show ?case by (subst stars_unfold) (auto simp: fits_def)
qed

lemma match_from_iff: "match_from re str \<longleftrightarrow> (\<exists>u v. str = u @ v \<and> here re v)"
  by (induction str) (auto simp: matchhere_iff Cons_eq_append_conv)

section \<open>Claims\<close>

text \<open>
  C34: \<open>match\<close> finds a pattern in a line exactly when a part of the line is in the language of
  the pattern, at the start of the line if the pattern begins with \<open>^\<close>, at its end if it
  ends with \<open>$\<close>. The language reads \<open>.\<close> as any character and \<open>c*\<close> as any number of
  them, and is defined without reference to the order in which the matcher tries.
\<close>

theorem match_iff:
  "match re text \<longleftrightarrow>
     (let anchored = (deref re = CHR ''^''); pat = (if anchored then tl re else re) in
      \<exists>u w v. text = u @ w @ v \<and> w \<in> lang (body pat) \<and> (anchored \<longrightarrow> u = []) \<and> (eol pat \<longrightarrow> v = []))"
proof (cases "deref re = CHR ''^''")
  case True
  then show ?thesis by (simp add: match_def matchhere_iff here_def Let_def)
next
  case False
  then show ?thesis by (simp add: match_def match_from_iff here_def Let_def) blast
qed

theorem match_iff_witness:
  "match ''^b*d$'' ''bd'' \<and> ''bd'' \<in> lang (body ''b*d$'')"
proof -
  have "match ''^b*d$'' ''bd''" by (simp add: match_def deref_def)
  then show ?thesis using match_iff [of "''^b*d$''" "''bd''"] by (simp add: deref_def Let_def)
qed

lemma grep_lines_none:
  assumes "CHR 0x0A \<notin> set piece"
  shows "grep_lines pat piece = ([], piece)"
proof -
  have "takeWhile (\<lambda>c. c \<noteq> CHR 0x0A \<and> c \<noteq> CHR 0x00) piece = takeWhile (\<lambda>c. c \<noteq> CHR 0x00) piece"
    using assms by (intro takeWhile_cong) auto
  moreover have "hd (drop (length (takeWhile (\<lambda>c. c \<noteq> CHR 0x00) piece)) piece) = CHR 0x00"
    if "drop (length (takeWhile (\<lambda>c. c \<noteq> CHR 0x00) piece)) piece \<noteq> []"
    using that hd_dropWhile [of "\<lambda>c. c \<noteq> CHR 0x00" piece] by (simp add: dropWhile_eq_drop)
  ultimately show ?thesis by (subst grep_lines.simps) (auto simp: Let_def)
qed

text \<open>
  C37: A line that \<open>read\<close> delivers in pieces is searched only in part: a first piece without a
  newline, of any length, leaves no trace, as if the input began with the second piece, whatever the
  pattern and the rest of the input.
\<close>

theorem grep_drops_partial_line:
  assumes "piece \<noteq> []" "CHR 0x0A \<notin> set piece"
  shows "grep pat [] (piece # reads) = grep pat [] reads"
  using assms
proof (induction piece rule: length_induct)
  case (1 piece)
  have "CHR 0x0A \<notin> set (take 1023 piece)" using 1(3) by (meson in_set_takeD)
  then have g: "grep pat [] (piece # reads) = grep pat [] (if drop 1023 piece = [] then reads else drop 1023 piece # reads)"
    using 1(2) by (simp add: grep.simps(2) grep_lines_none)
  have "length (drop 1023 piece) < length piece" "CHR 0x0A \<notin> set (drop 1023 piece)"
    using 1(2,3) by (auto dest: in_set_dropD)
  then show ?case unfolding g using 1(1) by auto
qed

theorem grep_drops_partial_line_witness:
  "grep ''hello'' [] [''hel'', ''lo'' @ [CHR 0x0A]] = [] \<and> grep ''hello'' [] [''hello'' @ [CHR 0x0A]] = ''hello'' @ [CHR 0x0A]"
proof -
  have "grep ''hello'' [] [''lo'' @ [CHR 0x0A]] = []"
    "grep ''hello'' [] [''hello'' @ [CHR 0x0A]] = ''hello'' @ [CHR 0x0A]" 
    by code_simp+
  then show ?thesis
    using grep_drops_partial_line [of "''hel''" "''hello''" "[''lo'' @ [CHR 0x0A]]"] by simp
qed

end
