(* ===== verification/Spec2Isabelle.thy ===== *)
theory Spec2Isabelle
  imports Trap Kbd Fsfile Ide Mp Shrun Shwords Grep
begin

text \<open>
  A verification library for the xv6 kernel of this repository, a teaching operating system
  for the 32-bit PC, and for the user programs that come with it. The kernel is modelled as it is built by
  default, with \<open>PDX_XV6\<close> defined and \<open>CS333_PROJECT\<close> 0.

  \<^bold>\<open>The program and its parts.\<close> A trap or a system call enters the kernel through \<open>trap\<close>
  (\<^verbatim>\<open>trap.c\<close>), which dispatches system calls by \<open>syscall\<close> (\<^verbatim>\<open>syscall.c\<close>) to the handlers of
  \<^verbatim>\<open>sysproc.c\<close> and \<^verbatim>\<open>sysfile.c\<close>. Processes (\<^verbatim>\<open>proc.c\<close>) run on several processors under
  spin locks (\<^verbatim>\<open>spinlock.c\<close>), sleep on channels and hold sleeping locks (\<^verbatim>\<open>sleeplock.c\<close>).
  Their memory is made of page tables (\<^verbatim>\<open>vm.c\<close>) over a page allocator (\<^verbatim>\<open>kalloc.c\<close>). Files
  are reached through descriptors (\<^verbatim>\<open>file.c\<close>) that lead to pipes (\<^verbatim>\<open>pipe.c\<close>), the console
  (\<^verbatim>\<open>console.c\<close>, \<^verbatim>\<open>kbd.c\<close>) or inodes (\<^verbatim>\<open>fs.c\<close>), which sit on a write-ahead log
  (\<^verbatim>\<open>log.c\<close>), a buffer cache (\<^verbatim>\<open>bio.c\<close>) and a disk, in memory (\<^verbatim>\<open>memide.c\<close>) or behind a controller
  (\<^verbatim>\<open>ide.c\<close>). At boot the processors are found in tables of the BIOS (\<^verbatim>\<open>mp.c\<close>). User programs are the
  shell (\<^verbatim>\<open>sh.c\<close>) and small tools over a C library (\<^verbatim>\<open>ulib.c\<close>, \<^verbatim>\<open>printf.c\<close>).

  \<^bold>\<open>How code becomes definitions.\<close> A kernel routine is a function on an explicit state. Each
  layer extends the record of the layer below, in one chain: \<open>kmem_state\<close> (memory and the
  free list), \<open>vm_state\<close>, \<open>ptable_state\<close> (processes and processors), \<open>sleeplock_state\<close>,
  \<open>pipe_state\<close>, \<open>bio_state\<close> (buffers, disk and the trace of disk writes), \<open>log_state\<close>,
  \<open>fs_state\<close> (superblock and inode cache), \<open>file_state\<close>, \<open>console_state\<close>, \<open>kern_state\<close>.
  A routine of one layer therefore applies unchanged to the states of all layers above. A
  routine that can fail has the result type \<open>outcome\<close>: \<open>Ret\<close> of a value, \<open>Panic\<close> with the
  message, \<open>Blocked\<close> on the channel it would sleep on, or \<open>Diverged\<close>; \<open>obind\<close> composes
  them. Pointers into tables are indices, pointers into memory are 32-bit words, integers
  have their C width where they can wrap. Above \<open>Spinlock\<close>, code that holds a spin lock is one step:
  the calls of \<open>acquire\<close>, \<open>release\<close> and \<open>initlock\<close>, the lock argument of \<open>sleep\<close> with its hand-off to
  \<open>ptable.lock\<close>, and the checks of lock, nesting and interrupts in \<open>sched\<close> are not in these
  theories. A routine that sleeps is cut at the call of \<open>sleep\<close> and its result is \<open>Sleep\<close> (type
  \<open>progress\<close>) or \<open>Blocked\<close>.

  \<^bold>\<open>Theories of the kernel.\<close>
  \<^item> \<open>Prelude\<close>: integer types, constants of \<^verbatim>\<open>param.h\<close>, \<^verbatim>\<open>memlayout.h\<close> and \<^verbatim>\<open>fs.h\<close>, outcomes,
    table scans, little-endian words, and the interface \<open>invariant_system\<close> of a step relation with an
    invariant.
  \<^item> \<open>Cstring\<close>: \<^verbatim>\<open>string.c\<close> on byte-addressed memory. The moves and fills are shown equal to
    their set-theoretic effect, overlapping ranges and the word-store fast path included.
  \<^item> \<open>Mmu\<close>, \<open>Kalloc\<close>, \<open>Vm\<close>, \<open>Uvm\<close>, \<open>Ucopy\<close>: \<^verbatim>\<open>mmu.h\<close>, \<^verbatim>\<open>kalloc.c\<close> and \<^verbatim>\<open>vm.c\<close>. The free list
    is a duplicate-free list of pages in memory; page tables refine a partial map of pages;
    growing, shrinking and copying act on that map and never touch a page of another owner.
  \<^item> \<open>Spinlock\<close>: \<^verbatim>\<open>spinlock.c\<close> with the interleavings of all processors, which can come between the
    exchange and the rest of \<open>acquire\<close> and between the stores of \<open>release\<close>: mutual exclusion,
    and the nesting of disabled interrupts up to the bound of the counter, a C \<open>int\<close>.
  \<^item> \<open>Ptable\<close>, \<open>Psteps\<close>, \<open>Process\<close>: \<^verbatim>\<open>proc.c\<close>. Invariants of every sequence of steps (one
    processor per process, distinct process ids, no lost wakeup of a waiting parent) and a bound on
    the turns of a scheduler loop, \<open>hlt\<close> of idle processors included, while a process waits to run.
  \<^item> \<open>Sleeplock\<close>, \<open>Pipe\<close>: \<^verbatim>\<open>sleeplock.c\<close> and \<^verbatim>\<open>pipe.c\<close>. A pipe refines a bounded queue (interface
    \<open>bounded_queue\<close>) and delivers what was written, in order, while its counters wrap; who sleeps on
    it has a cause, but for readers after a write that was cut off.
  \<^item> \<open>Bio\<close>, \<open>Log\<close>: \<^verbatim>\<open>bio.c\<close>, \<^verbatim>\<open>memide.c\<close> and \<^verbatim>\<open>log.c\<close>. Reading after writing, eviction order, and
    the atomicity of a commit under a crash after any prefix of its disk writes. These theories use
    the memory disk, whose driver returns with the request done.
  \<^item> \<open>Ide\<close>: \<^verbatim>\<open>ide.c\<close>, over the registers of the controller and a drive that completes the command
    in them. The state \<open>ide_state\<close> extends \<open>bio_state\<close> beside the chain above. A queue of requests
    has the effect of the memory disk's \<open>iderw\<close> on each in turn.
  \<^item> \<open>Fs\<close>, \<open>Fsblock\<close>, \<open>Fsfile\<close>: \<^verbatim>\<open>fs.c\<close>. The block allocator hands out a free block, zeroed, and gives it
    back; inodes survive the trip to the disk and back; a write inside a file is read back and
    changes no other byte.
  \<^item> \<open>Mp\<close>: \<^verbatim>\<open>mp.c\<close>, the processors found in a table, and the tables on which the search does not end.
  \<^item> \<open>File\<close>, \<open>Console\<close>, \<open>Kbd\<close>, \<open>Exec\<close>, \<open>Sysfile\<close>, \<open>Trap\<close>: \<^verbatim>\<open>file.c\<close>, \<^verbatim>\<open>console.c\<close>, \<^verbatim>\<open>kbd.c\<close>,
    \<^verbatim>\<open>exec.c\<close>, the argument fetchers of \<^verbatim>\<open>syscall.c\<close>, \<^verbatim>\<open>sysfile.c\<close>, \<^verbatim>\<open>sysproc.c\<close> and \<open>trap\<close>.

  \<^bold>\<open>Theories of user programs.\<close>
  \<^item> \<open>Ulib\<close>: \<^verbatim>\<open>ulib.c\<close> and \<^verbatim>\<open>printf.c\<close>; printing and reading numbers are inverse.
  \<^item> \<open>Grep\<close>: \<^verbatim>\<open>grep.c\<close>; the matcher decides the language of the pattern.
  \<^item> \<open>Sh\<close>, \<open>Shwords\<close>, \<open>Shrun\<close>: \<^verbatim>\<open>sh.c\<close>; the parser is total, inverts printing and builds well-formed
    commands of exactly the words of the line; pipelines are wired to the right descriptors.
    The descriptor table there is that of the kernel: the last section of this theory shows it
    for \<open>fdalloc\<close> and \<open>sys_dup\<close>.

  \<^bold>\<open>Bounds and fuel.\<close> Loops over tables and lists are structural. Loops over an address
  range have one unit of fuel per page of the address space, walks along the buffer list one
  per link, and the parser of the shell four per character and four more; that this is enough
  is part of the lemmas (\<open>Vm\<close>, \<open>Bio\<close>, \<open>Ide\<close>, \<open>Sh\<close>). \<open>strlen\<close>, \<open>strcpy\<close> and the loop of \<open>mpinit\<close> are partial functions,
  since they may not end.

  \<^bold>\<open>Not modelled.\<close> Booting and assembly (\<^verbatim>\<open>bootasm.S\<close>, \<^verbatim>\<open>bootmain.c\<close>, \<^verbatim>\<open>entry.S\<close>,
  \<^verbatim>\<open>entryother.S\<close>, \<^verbatim>\<open>swtch.S\<close>, \<^verbatim>\<open>trapasm.S\<close>, \<^verbatim>\<open>initcode.S\<close>, \<^verbatim>\<open>usys.S\<close>, \<^verbatim>\<open>main.c\<close>) and the segment
  and interrupt tables (\<open>seginit\<close>, \<open>tvinit\<close>, \<open>idtinit\<close>), whose meaning is that of the processor. The
  programming of interrupt controllers, timer, clock and serial port (\<^verbatim>\<open>lapic.c\<close>,
  \<^verbatim>\<open>ioapic.c\<close>, \<^verbatim>\<open>picirq.c\<close>, \<^verbatim>\<open>uart.c\<close> but for \<open>uartputc\<close>), which consists of port and register
  accesses, and the wait of \<^verbatim>\<open>ide.c\<close> for the drive to become ready. The allocator of user programs
  (\<^verbatim>\<open>umalloc.c\<close>), the small programs that only make system calls (\<^verbatim>\<open>cat.c\<close>, \<^verbatim>\<open>ls.c\<close> and the like)
  and \<^verbatim>\<open>mkfs.c\<close>, which runs on the build host. The features of later course projects, which are
  compiled only with other values of \<open>CS333_PROJECT\<close>, and the test programs.
\<close>

section \<open>The descriptors of the shell and of the kernel\<close>

text \<open>\<open>fdalloc\<close> of the kernel gives out the descriptor that \<open>fd_new\<close> names, and no other entry changes.\<close>

lemma kernel_fdalloc:
  assumes "curproc s = Some c"
  shows "fdalloc f s = (case fd_new f (ofile (procs s ! c)) of None \<Rightarrow> Ret (None, s)
     | Some (n, t) \<Rightarrow> Ret (Some n, upd_proc c (\<lambda>p. p\<lparr>ofile := t\<rparr>) s))"
  using assms by (auto simp: fdalloc_def fd_new_def upd_proc_def simp del: scan_None_iff split: option.splits)

text \<open>A successful \<open>sys_dup\<close> is the step of the shell's process that \<open>Shrun\<close> has for \<open>dup\<close>.\<close>

lemma kernel_dup:
  assumes "curproc s = Some c" "c < length (procs s)" "length (ofile (procs s ! c)) = NOFILE"
    "argfd 0 s = Ret (Some (fd, f))" "sys_dup s = Ret (r, s')" "r \<noteq> -1"
  shows "Shrun.step a b (ofile (procs s ! c)) (Call (SysDup (int fd)) k) (ofile (procs s' ! c)) (k [r])"
proof -
  have fd: "fd < NOFILE" "ofile (procs s ! c) ! fd = Some f"
    using assms(1,4) unfolding argfd_def obind_eq_Ret Let_def
    by (force split: option.split_asm if_split_asm)+
  then have "valid_fd (int fd) (ofile (procs s ! c))" using assms(3) by (simp add: valid_fd_def)
  moreover obtain n t where n: "fd_new f (ofile (procs s ! c)) = Some (n, t)" "r = int n" "ofile (procs s' ! c) = t"
    using assms(2,4-6) kernel_fdalloc [OF assms(1), of f]
    by (auto simp: sys_dup_def with_arg_def filedup_def upd_file_def upd_proc_def obind_eq_Ret split: option.splits if_splits prod.splits)
  ultimately show ?thesis using step.dup [of "int fd" "ofile (procs s ! c)" n t a b k] fd(2) by simp
qed

end
